(* ===== verification/Coap_Prelude.thy ===== *)
theory Coap_Prelude
  imports Main "HOL-Library.Word" "HOL-Library.Code_Target_Nat"
    "HOL-Library.Multiset"
begin

text \<open>
  Shared vocabulary of the development: machine integers and byte strings, the parts of the Rust
  standard library the sources use (checked and saturating arithmetic, slice access, big-endian
  conversion, the question-mark operator on \<open>Result\<close>), and the list and word lemmas every
  component needs.

  A \<open>Result<T, E>\<close> is a sum \<open>'e + 't\<close> with the error on the left. A \<open>usize\<close> is a
  \<^typ>\<open>nat\<close> with the 64-bit limit written out wherever the source checks for overflow. A mutable
  output slice \<open>&mut [u8]\<close> is a byte list that is passed in and handed back; writing a run of
  bytes into it is \<open>blit\<close>, which keeps the length exactly when the write is inside the
  slice, so that a preserved length says that no slice index was out of range.
\<close>

unbundle bit_operations_syntax

type_synonym u8 = "8 word"
type_synonym u16 = "16 word"
type_synonym u32 = "32 word"
type_synonym u64 = "64 word"
type_synonym bytes = "u8 list"

named_theorems codec_simps \<open>rewrite rules that open the codec definitions\<close>
named_theorems store_simps \<open>rewrite rules that open the storage definitions\<close>
named_theorems oscore_simps \<open>rewrite rules that open the OSCORE definitions\<close>

section \<open>Results\<close>

definition and_then :: "'e + 'a \<Rightarrow> ('a \<Rightarrow> 'e + 'b) \<Rightarrow> 'e + 'b" where
  "and_then r f = (case r of Inl e \<Rightarrow> Inl e | Inr x \<Rightarrow> f x)"

definition map_err :: "('e \<Rightarrow> 'f) \<Rightarrow> 'e + 'a \<Rightarrow> 'f + 'a" where
  "map_err g r = (case r of Inl e \<Rightarrow> Inl (g e) | Inr x \<Rightarrow> Inr x)"

definition map_ok :: "('a \<Rightarrow> 'b) \<Rightarrow> 'e + 'a \<Rightarrow> 'e + 'b" where
  "map_ok g r = (case r of Inl e \<Rightarrow> Inl e | Inr x \<Rightarrow> Inr (g x))"

definition ok_or :: "'e \<Rightarrow> 'a option \<Rightarrow> 'e + 'a" where
  "ok_or e x = (case x of None \<Rightarrow> Inl e | Some y \<Rightarrow> Inr y)"

definition to_ok :: "'e + 'a \<Rightarrow> 'a option" where
  "to_ok r = (case r of Inl e \<Rightarrow> None | Inr x \<Rightarrow> Some x)"

definition is_ok :: "'e + 'a \<Rightarrow> bool" where
  "is_ok r = (case r of Inl e \<Rightarrow> False | Inr x \<Rightarrow> True)"

lemma and_then_simps [simp]:
  "and_then (Inl e) f = Inl e"
  "and_then (Inr x) f = f x"
  by (simp_all add: and_then_def)

lemma and_then_Inr_iff: "and_then r f = Inr y \<longleftrightarrow> (\<exists>x. r = Inr x \<and> f x = Inr y)"
  by (cases r) auto

lemma and_then_Inl_iff:
  "and_then r f = Inl e \<longleftrightarrow> r = Inl e \<or> (\<exists>x. r = Inr x \<and> f x = Inl e)"
  by (cases r) auto

lemma map_err_simps [simp]:
  "map_err g (Inl e) = Inl (g e)"
  "map_err g (Inr x) = Inr x"
  by (simp_all add: map_err_def)

lemma map_err_Inr_iff [simp]: "map_err g r = Inr y \<longleftrightarrow> r = Inr y"
  by (cases r) auto

lemma map_ok_simps [simp]:
  "map_ok g (Inl e) = Inl e"
  "map_ok g (Inr x) = Inr (g x)"
  by (simp_all add: map_ok_def)

lemma map_ok_Inr_iff: "map_ok g r = Inr y \<longleftrightarrow> (\<exists>x. r = Inr x \<and> y = g x)"
  by (cases r) auto

lemma ok_or_simps [simp]:
  "ok_or e None = Inl e"
  "ok_or e (Some x) = Inr x"
  by (simp_all add: ok_or_def)

lemma ok_or_Inr_iff [simp]: "ok_or e x = Inr y \<longleftrightarrow> x = Some y"
  by (cases x) auto

lemma to_ok_simps [simp]:
  "to_ok (Inl e) = None"
  "to_ok (Inr x) = Some x"
  by (simp_all add: to_ok_def)

lemma is_ok_simps [simp]:
  "is_ok (Inl e) = False"
  "is_ok (Inr x) = True"
  by (simp_all add: is_ok_def)

section \<open>Integers\<close>

definition usize_max :: nat where
  "usize_max = 18446744073709551615"

definition checked_add :: "nat \<Rightarrow> nat \<Rightarrow> nat option" where
  "checked_add a b = (if a + b \<le> usize_max then Some (a + b) else None)"

definition checked_sub :: "nat \<Rightarrow> nat \<Rightarrow> nat option" where
  "checked_sub a b = (if b \<le> a then Some (a - b) else None)"

lemma checked_add_Some_iff [simp]:
  "checked_add a b = Some c \<longleftrightarrow> c = a + b \<and> a + b \<le> usize_max"
  by (auto simp: checked_add_def)

lemma checked_add_None_iff [simp]: "checked_add a b = None \<longleftrightarrow> usize_max < a + b"
  by (auto simp: checked_add_def)

lemma checked_sub_Some_iff [simp]: "checked_sub a b = Some c \<longleftrightarrow> c = a - b \<and> b \<le> a"
  by (auto simp: checked_sub_def)

text \<open>Saturating addition, saturating multiplication and checked arithmetic at a fixed width.\<close>

definition saturating_add :: "'a::len word \<Rightarrow> 'a word \<Rightarrow> 'a word" where
  "saturating_add a b = (if unat a + unat b < 2 ^ LENGTH('a) then a + b else - 1)"

definition saturating_mul :: "'a::len word \<Rightarrow> 'a word \<Rightarrow> 'a word" where
  "saturating_mul a b = (if unat a * unat b < 2 ^ LENGTH('a) then a * b else - 1)"

definition saturating_sub :: "'a::len word \<Rightarrow> 'a word \<Rightarrow> 'a word" where
  "saturating_sub a b = (if b \<le> a then a - b else 0)"

definition checked_add_w :: "'a::len word \<Rightarrow> 'a word \<Rightarrow> 'a word option" where
  "checked_add_w a b = (if unat a + unat b < 2 ^ LENGTH('a) then Some (a + b) else None)"

definition checked_mul_w :: "'a::len word \<Rightarrow> 'a word \<Rightarrow> 'a word option" where
  "checked_mul_w a b = (if unat a * unat b < 2 ^ LENGTH('a) then Some (a * b) else None)"

definition checked_sub_w :: "'a::len word \<Rightarrow> 'a word \<Rightarrow> 'a word option" where
  "checked_sub_w a b = (if b \<le> a then Some (a - b) else None)"

lemma unat_max_word: "unat (- 1 :: 'a::len word) = 2 ^ LENGTH('a) - 1"
  by (simp add: unsigned_minus_1_eq_mask mask_eq_exp_minus_1)

lemma unat_bound: "unat a < 2 ^ LENGTH('a)" for a :: "'a::len word"
  by (rule unsigned_less)

lemma u8_bound: "unat (b :: u8) < 256"
  using unat_bound [of b] by simp

lemma u16_bound: "unat (b :: u16) < 65536"
  using unat_bound [of b] by simp

lemma unat_saturating_add:
  "unat (saturating_add a b) = min (unat a + unat b) (2 ^ LENGTH('a) - 1)"
  for a b :: "'a::len word"
  by (auto simp: saturating_add_def unat_word_ariths unat_max_word min_def)

lemma unat_saturating_mul:
  "unat (saturating_mul a b) = min (unat a * unat b) (2 ^ LENGTH('a) - 1)"
  for a b :: "'a::len word"
proof (cases "unat a * unat b < 2 ^ LENGTH('a)")
  case True
  then show ?thesis
    by (simp add: saturating_mul_def unat_word_ariths min_absorb1)
next
  case False
  then have "2 ^ LENGTH('a) - 1 \<le> unat a * unat b" by linarith
  with False show ?thesis
    by (simp add: saturating_mul_def unat_max_word min_absorb2)
qed

lemma checked_add_w_Some_iff:
  "checked_add_w a b = Some c \<longleftrightarrow> unat a + unat b < 2 ^ LENGTH('a) \<and> c = a + b"
  for a b :: "'a::len word"
  by (auto simp: checked_add_w_def)

lemma unat_add_less:
  "unat a + unat b < 2 ^ LENGTH('a) \<Longrightarrow> unat (a + b) = unat a + unat b"
  for a b :: "'a::len word"
  by (simp add: unat_word_ariths)

lemma unat_mul_less:
  "unat a * unat b < 2 ^ LENGTH('a) \<Longrightarrow> unat (a * b) = unat a * unat b"
  for a b :: "'a::len word"
  by (simp add: unat_word_ariths)

section \<open>Slices\<close>

definition get_at :: "'a list \<Rightarrow> nat \<Rightarrow> 'a option" where
  "get_at xs i = (if i < length xs then Some (xs ! i) else None)"

definition get_range :: "'a list \<Rightarrow> nat \<Rightarrow> nat \<Rightarrow> 'a list option" where
  "get_range xs a b = (if a \<le> b \<and> b \<le> length xs then Some (take (b - a) (drop a xs)) else None)"

definition blit :: "'a list \<Rightarrow> nat \<Rightarrow> 'a list \<Rightarrow> 'a list" where
  "blit buf i src = take i buf @ src @ drop (i + length src) buf"

lemma get_at_Some_iff [simp]: "get_at xs i = Some x \<longleftrightarrow> i < length xs \<and> x = xs ! i"
  by (auto simp: get_at_def)

lemma get_at_None_iff [simp]: "get_at xs i = None \<longleftrightarrow> length xs \<le> i"
  by (auto simp: get_at_def)

lemma get_range_Some_iff:
  "get_range xs a b = Some ys \<longleftrightarrow> a \<le> b \<and> b \<le> length xs \<and> ys = take (b - a) (drop a xs)"
  by (auto simp: get_range_def)

lemma get_range_append [simp]:
  "get_range (pre @ mid @ post) (length pre) (length pre + length mid) = Some mid"
  by (simp add: get_range_def)

lemma length_blit [simp]: "i + length src \<le> length buf \<Longrightarrow> length (blit buf i src) = length buf"
  by (simp add: blit_def)

lemma blit_append:
  "blit (pre @ mid @ post) (length pre) src = pre @ src @ post" if "length mid = length src"
  using that by (simp add: blit_def)

lemma take_blit [simp]:
  "i + length src \<le> length buf \<Longrightarrow> take (i + length src) (blit buf i src) = take i buf @ src"
  by (simp add: blit_def)

lemma drop_blit [simp]:
  "i + length src \<le> length buf \<Longrightarrow> drop (i + length src) (blit buf i src) = drop (i + length src) buf"
  by (simp add: blit_def)

lemma take_blit_before [simp]: "k \<le> i \<Longrightarrow> i \<le> length buf \<Longrightarrow> take k (blit buf i src) = take k buf"
  by (simp add: blit_def)

lemma drop_blit_after:
  "i + length src \<le> k \<Longrightarrow> k \<le> length buf \<Longrightarrow> drop k (blit buf i src) = drop k buf"
  by (simp add: blit_def add.commute)

lemma blit_nil [simp]: "blit buf i [] = buf"
  by (simp add: blit_def)

lemma blit_0 [simp]: "length bs \<le> length buf \<Longrightarrow> blit buf 0 bs = bs @ drop (length bs) buf"
  by (simp add: blit_def)

lemma blit_blit:
  assumes "i + length xs + length ys \<le> length buf"
  shows "blit (blit buf i xs) (i + length xs) ys = blit buf i (xs @ ys)"
proof -
  have "drop (i + length xs + length ys) (blit buf i xs) = drop (i + length xs + length ys) buf"
    using assms by (intro drop_blit_after) auto
  then show ?thesis
    using assms by (simp add: blit_def [of "blit buf i xs"]) (simp add: blit_def add.assoc)
qed

lemma nth_append_len [simp]: "(pre @ x # post) ! length pre = x"
  by simp

section \<open>Big-endian bytes\<close>

definition u16_from_be :: "u8 \<Rightarrow> u8 \<Rightarrow> u16" where
  "u16_from_be a b = push_bit 8 (ucast a) OR ucast b"

definition u16_to_be :: "u16 \<Rightarrow> bytes" where
  "u16_to_be w = [ucast (drop_bit 8 w), ucast w]"

definition u32_to_be :: "u32 \<Rightarrow> bytes" where
  "u32_to_be w = [ucast (drop_bit 24 w), ucast (drop_bit 16 w), ucast (drop_bit 8 w), ucast w]"

definition u64_to_be :: "u64 \<Rightarrow> bytes" where
  "u64_to_be w =
     [ucast (drop_bit 56 w), ucast (drop_bit 48 w), ucast (drop_bit 40 w), ucast (drop_bit 32 w),
      ucast (drop_bit 24 w), ucast (drop_bit 16 w), ucast (drop_bit 8 w), ucast w]"

text \<open>The value of a big-endian byte string, and the same value at a fixed width.\<close>

definition be_val :: "bytes \<Rightarrow> nat" where
  "be_val bs = foldl (\<lambda>n b. 256 * n + unat b) 0 bs"

definition word_from_be :: "bytes \<Rightarrow> 'a::len word" where
  "word_from_be bs = foldl (\<lambda>n b. 256 * n + ucast b) 0 bs"

lemma length_to_be [simp]:
  "length (u16_to_be a) = 2" "length (u32_to_be b) = 4" "length (u64_to_be c) = 8"
  by (simp_all add: u16_to_be_def u32_to_be_def u64_to_be_def)

lemma bit_u8_ge [simp]: "8 \<le> n \<Longrightarrow> \<not> bit (b :: u8) n"
  using bit_imp_le_length [of b n] by auto

lemma unat_ucast_le: "LENGTH('a) \<le> LENGTH('b) \<Longrightarrow> unat (ucast a :: 'b::len word) = unat a"
  for a :: "'a::len word"
proof -
  assume "LENGTH('a) \<le> LENGTH('b)"
  then have "(2 :: nat) ^ LENGTH('a) \<le> 2 ^ LENGTH('b)" by simp
  with unat_bound [of a] have "unat a < 2 ^ LENGTH('b)" by (rule less_le_trans)
  then show ?thesis by (simp add: unsigned_ucast_eq take_bit_nat_eq_self_iff)
qed

lemma u16_from_be_to_be [simp]: "u16_from_be (ucast (drop_bit 8 w)) (ucast w) = w"
  unfolding u16_from_be_def
  by (rule bit_word_eqI) (auto simp: bit_simps)

lemma u16_to_be_from_be [simp]: "u16_to_be (u16_from_be a b) = [a, b]"
  unfolding u16_from_be_def u16_to_be_def
  by (auto intro!: bit_word_eqI simp: bit_simps)

lemma unat_u16_from_be: "unat (u16_from_be a b) = 256 * unat a + unat b"
proof -
  have "push_bit 8 (ucast a) AND (ucast b :: u16) = 0"
    by (rule bit_word_eqI) (auto simp: bit_simps dest: bit_imp_le_length)
  then have "u16_from_be a b = push_bit 8 (ucast a) + ucast b"
    by (simp add: u16_from_be_def disjunctive_add_eq_or)
  moreover have "unat (push_bit 8 (ucast a) :: u16) = 256 * unat a"
    using u8_bound [of a] by (simp add: push_bit_eq_mult unat_word_ariths unat_ucast_le)
  moreover have "256 * unat a + unat b < 65536"
    using u8_bound [of a] u8_bound [of b] by linarith
  ultimately show ?thesis
    by (simp add: unat_word_ariths unat_ucast_le)
qed

lemma be_val_snoc [simp]: "be_val (bs @ [b]) = 256 * be_val bs + unat b"
  by (simp add: be_val_def)

lemma be_val_Nil [simp]: "be_val [] = 0"
  by (simp add: be_val_def)

lemma be_val_bound: "be_val bs < 256 ^ length bs"
proof (induction bs rule: rev_induct)
  case Nil
  then show ?case by simp
next
  case (snoc b bs)
  have "256 * be_val bs + unat b < 256 * be_val bs + 256"
    by (simp add: u8_bound)
  also have "\<dots> \<le> 256 * 256 ^ length bs"
    using snoc.IH by (metis Suc_leI mult_Suc_right mult_le_mono2 add.commute)
  finally show ?case by (simp add: mult.commute)
qed

lemma be_val_Cons: "be_val (b # bs) = unat b * 256 ^ length bs + be_val bs"
  by (induction bs rule: rev_induct) (simp_all add: be_val_def algebra_simps)

lemma be_val_append: "be_val (xs @ ys) = be_val xs * 256 ^ length ys + be_val ys"
  by (induction ys rule: rev_induct) (simp_all add: algebra_simps flip: append_assoc)

lemma be_val_zeros [simp]: "be_val (replicate k 0) = 0"
  by (induction k) (simp_all add: be_val_Cons)

lemma be_val_inj: "length xs = length ys \<Longrightarrow> be_val xs = be_val ys \<Longrightarrow> xs = ys"
proof (induction xs arbitrary: ys rule: rev_induct)
  case Nil
  then show ?case by simp
next
  case (snoc x xs)
  then obtain zs z where ys: "ys = zs @ [z]"
    by (metis append_butlast_last_id length_0_conv length_append_singleton nat.distinct(1))
  have "256 * be_val xs + unat x = 256 * be_val zs + unat z"
    using snoc.prems ys by simp
  moreover have "unat x < 256" "unat z < 256"
    by (simp_all add: u8_bound)
  ultimately have eq: "be_val xs = be_val zs"
    by linarith
  with \<open>256 * be_val xs + unat x = 256 * be_val zs + unat z\<close> have "x = z"
    by (simp add: word_unat_eq_iff)
  with eq show ?case
    using snoc ys by simp
qed

lemma unat_of_nat_u8: "n < 256 \<Longrightarrow> unat (of_nat n :: u8) = n"
  by (simp add: unat_of_nat)

lemma unat_of_nat_u16: "n < 65536 \<Longrightarrow> unat (of_nat n :: u16) = n"
  by (simp add: unat_of_nat)

lemma unat_of_nat_u32: "n < 4294967296 \<Longrightarrow> unat (of_nat n :: u32) = n"
  by (simp add: unat_of_nat)

section \<open>Nibbles\<close>

lemma unat_high_nibble: "unat (drop_bit 4 b :: u8) = unat b div 16"
  by (simp add: drop_bit_eq_div unat_div_distrib)

lemma unat_low_nibble: "unat (b AND 15 :: u8) = unat b mod 16"
proof -
  have "b AND 15 = take_bit 4 b" by (simp add: take_bit_eq_mask mask_eq_exp_minus_1)
  then show ?thesis by (simp add: take_bit_eq_mod unat_mod_distrib)
qed

lemma unat_nibbles:
  assumes "unat a < 16" "unat b < 16"
  shows "unat (push_bit 4 a OR b :: u8) = 16 * unat a + unat b"
proof -
  have b: "take_bit 4 b = b"
    using assms(2) by (simp add: word_unat_eq_iff unsigned_take_bit_eq take_bit_nat_eq_self_iff)
  have "push_bit 4 a AND b = 0"
    by (subst b [symmetric]) (rule bit_word_eqI, auto simp: bit_simps)
  then have "push_bit 4 a OR b = push_bit 4 a + b"
    by (simp add: disjunctive_add_eq_or)
  then show ?thesis
    using assms by (simp add: push_bit_eq_mult unat_word_ariths)
qed

lemma nibbles_of_byte: "unat b = 16 * unat (drop_bit 4 b :: u8) + unat (b AND 15 :: u8)"
  by (simp add: unat_high_nibble unat_low_nibble)

lemma unat_and_3: "unat (b AND 3 :: u8) = unat b mod 4"
proof -
  have "b AND 3 = take_bit 2 b" by (simp add: take_bit_eq_mask mask_eq_exp_minus_1)
  then show ?thesis by (simp add: take_bit_eq_mod unat_mod_distrib)
qed

lemma unat_drop_6: "unat (drop_bit 6 b :: u8) = unat b div 64"
  by (simp add: drop_bit_eq_div unat_div_distrib)

section \<open>Fixed-width big-endian values\<close>

lemma be_val_digits:
  "be_val (map (\<lambda>i. ucast (drop_bit (8 * i) w) :: u8) (rev [0..<k])) = unat w mod 256 ^ k"
  for w :: "'a::len word"
proof (induction k)
  case 0
  show ?case by simp
next
  case (Suc k)
  have p: "(2 :: nat) ^ (8 * k) = 256 ^ k" by (simp add: power_mult)
  have "unat (ucast (drop_bit (8 * k) w) :: u8) = unat w div 256 ^ k mod 256"
    by (simp add: unsigned_ucast_eq take_bit_eq_mod unat_drop_bit_eq)
      (simp add: drop_bit_eq_div p)
  moreover have "unat w div 256 ^ k mod 256 * 256 ^ k + unat w mod 256 ^ k = unat w mod 256 ^ Suc k"
    using mod_mult2_eq [of "unat w" "256 ^ k" 256] by (simp add: mult.commute)
  ultimately show ?case using Suc.IH by (simp add: be_val_Cons)
qed

lemma be_val_u64 [simp]: "be_val (u64_to_be w) = unat w"
proof -
  have "u64_to_be w = map (\<lambda>i. ucast (drop_bit (8 * i) w)) (rev [0..<8])"
    by (simp add: u64_to_be_def upt_rec)
  then have "be_val (u64_to_be w) = unat w mod 256 ^ 8" by (simp only: be_val_digits)
  then show ?thesis using unat_bound [of w] by simp
qed

lemma word_from_be_val: "word_from_be bs = of_nat (be_val bs)"
  by (induction bs rule: rev_induct) (simp_all add: word_from_be_def unsigned_ucast_eq of_nat_unat)

lemma word_from_be_u64 [simp]: "word_from_be (u64_to_be w) = w"
  by (simp add: word_from_be_val)

end
