(* ===== verification/Msg_Core.thy ===== *)
theory Msg_Core
  imports Coap_Prelude
begin

text \<open>
  Header vocabulary of a CoAP message (\<open>src/message/mod.rs\<close>, the error enums of
  \<open>src/error.rs\<close>, the token types of \<open>src/message/mod.rs\<close> and
  \<open>src/message/extended.rs\<close>, the counters of \<open>src/message/id.rs\<close>).

  The newtypes \<open>MessageId(u16)\<close>, \<open>Code(u8)\<close> and \<open>OptionNumber(u16)\<close> are their words. The
  trait \<open>OwnedToken\<close> is a record of its methods (a dictionary), its documented contract is the
  locale \<open>owned_token_laws\<close>, and the locale is interpreted on the compact eight-byte token and on
  the extended token of every capacity.
\<close>

section \<open>Errors\<close>

type_synonym option_number = u16
type_synonym message_id = u16
type_synonym code = u8

datatype parse_error =
    PE_TruncatedHeader
  | PE_UnsupportedVersion
  | PE_BadTokenLength
  | PE_TruncatedToken
  | PE_TruncatedOption
  | PE_ReservedOptionDelta
  | PE_ReservedOptionLength
  | PE_OptionNumberOverflow
  | PE_EmptyMessageNotEmpty
  | PE_PayloadMarkerWithoutPayload
  | PE_UnrecognizedCritical option_number
  | PE_BadOptionFormat option_number

datatype encode_error =
    EE_TokenTooLong
  | EE_BufferTooSmall
  | EE_EmptyMessageNotEmpty
  | EE_OptionsNotAscending
  | EE_OptionValueTooLong
  | EE_OptionsFull

datatype value_error =
    VE_InvalidUtf8
  | VE_UintOverflow
  | VE_IllegalSzx
  | VE_BlockNumOverflow
  | VE_OpaqueLength
  | VE_EchoLength
  | VE_HopLimit
  | VE_NoResponseLength

record capacity_error =
  required :: nat
  available :: nat

section \<open>Message type\<close>

datatype msg_type = Confirmable | NonConfirmable | Acknowledgement | Reset

fun type_from_bits :: "u8 \<Rightarrow> msg_type option" where
  "type_from_bits bits =
     (if bits = 0 then Some Confirmable
      else if bits = 1 then Some NonConfirmable
      else if bits = 2 then Some Acknowledgement
      else if bits = 3 then Some Reset
      else None)"

fun type_to_bits :: "msg_type \<Rightarrow> u8" where
  "type_to_bits Confirmable = 0"
| "type_to_bits NonConfirmable = 1"
| "type_to_bits Acknowledgement = 2"
| "type_to_bits Reset = 3"

section \<open>Codes\<close>

definition pack_code :: "u8 \<Rightarrow> u8 \<Rightarrow> u8" where
  "pack_code cls dtl = push_bit 5 cls OR dtl"

definition CODE_EMPTY :: code where "CODE_EMPTY = 0"
definition CODE_GET :: code where "CODE_GET = 1"
definition CODE_POST :: code where "CODE_POST = 2"
definition CODE_PUT :: code where "CODE_PUT = 3"
definition CODE_DELETE :: code where "CODE_DELETE = 4"
definition CODE_FETCH :: code where "CODE_FETCH = 5"
definition CODE_PATCH :: code where "CODE_PATCH = 6"
definition CODE_IPATCH :: code where "CODE_IPATCH = 7"
definition CODE_CREATED :: code where "CODE_CREATED = pack_code 2 1"
definition CODE_DELETED :: code where "CODE_DELETED = pack_code 2 2"
definition CODE_VALID :: code where "CODE_VALID = pack_code 2 3"
definition CODE_CHANGED :: code where "CODE_CHANGED = pack_code 2 4"
definition CODE_CONTENT :: code where "CODE_CONTENT = pack_code 2 5"
definition CODE_CONTINUE :: code where "CODE_CONTINUE = pack_code 2 31"
definition CODE_BAD_REQUEST :: code where "CODE_BAD_REQUEST = pack_code 4 0"
definition CODE_UNAUTHORIZED :: code where "CODE_UNAUTHORIZED = pack_code 4 1"
definition CODE_BAD_OPTION :: code where "CODE_BAD_OPTION = pack_code 4 2"
definition CODE_NOT_FOUND :: code where "CODE_NOT_FOUND = pack_code 4 4"
definition CODE_REQUEST_ENTITY_INCOMPLETE :: code where
  "CODE_REQUEST_ENTITY_INCOMPLETE = pack_code 4 8"
definition CODE_TOO_MANY_REQUESTS :: code where "CODE_TOO_MANY_REQUESTS = pack_code 4 29"
definition CODE_INTERNAL_SERVER_ERROR :: code where "CODE_INTERNAL_SERVER_ERROR = pack_code 5 0"
definition CODE_SERVICE_UNAVAILABLE :: code where "CODE_SERVICE_UNAVAILABLE = pack_code 5 3"
definition CODE_FORBIDDEN :: code where "CODE_FORBIDDEN = pack_code 4 3"
definition CODE_METHOD_NOT_ALLOWED :: code where "CODE_METHOD_NOT_ALLOWED = pack_code 4 5"
definition CODE_NOT_ACCEPTABLE :: code where "CODE_NOT_ACCEPTABLE = pack_code 4 6"
definition CODE_CONFLICT :: code where "CODE_CONFLICT = pack_code 4 9"
definition CODE_PRECONDITION_FAILED :: code where "CODE_PRECONDITION_FAILED = pack_code 4 12"
definition CODE_REQUEST_ENTITY_TOO_LARGE :: code where
  "CODE_REQUEST_ENTITY_TOO_LARGE = pack_code 4 13"
definition CODE_UNSUPPORTED_CONTENT_FORMAT :: code where
  "CODE_UNSUPPORTED_CONTENT_FORMAT = pack_code 4 15"
definition CODE_UNPROCESSABLE_ENTITY :: code where "CODE_UNPROCESSABLE_ENTITY = pack_code 4 22"
definition CODE_NOT_IMPLEMENTED :: code where "CODE_NOT_IMPLEMENTED = pack_code 5 1"
definition CODE_BAD_GATEWAY :: code where "CODE_BAD_GATEWAY = pack_code 5 2"
definition CODE_GATEWAY_TIMEOUT :: code where "CODE_GATEWAY_TIMEOUT = pack_code 5 4"
definition CODE_PROXYING_NOT_SUPPORTED :: code where "CODE_PROXYING_NOT_SUPPORTED = pack_code 5 5"
definition CODE_HOP_LIMIT_REACHED :: code where "CODE_HOP_LIMIT_REACHED = pack_code 5 8"

lemmas code_consts = CODE_EMPTY_def CODE_GET_def CODE_POST_def CODE_PUT_def CODE_DELETE_def
  CODE_FETCH_def CODE_PATCH_def CODE_IPATCH_def CODE_CREATED_def CODE_DELETED_def CODE_VALID_def
  CODE_CHANGED_def CODE_CONTENT_def CODE_CONTINUE_def CODE_BAD_REQUEST_def CODE_UNAUTHORIZED_def
  CODE_BAD_OPTION_def CODE_NOT_FOUND_def CODE_REQUEST_ENTITY_INCOMPLETE_def
  CODE_TOO_MANY_REQUESTS_def CODE_INTERNAL_SERVER_ERROR_def CODE_SERVICE_UNAVAILABLE_def
  CODE_FORBIDDEN_def CODE_METHOD_NOT_ALLOWED_def CODE_NOT_ACCEPTABLE_def CODE_CONFLICT_def
  CODE_PRECONDITION_FAILED_def CODE_REQUEST_ENTITY_TOO_LARGE_def
  CODE_UNSUPPORTED_CONTENT_FORMAT_def CODE_UNPROCESSABLE_ENTITY_def CODE_NOT_IMPLEMENTED_def
  CODE_BAD_GATEWAY_def CODE_GATEWAY_TIMEOUT_def CODE_PROXYING_NOT_SUPPORTED_def
  CODE_HOP_LIMIT_REACHED_def

definition code_from_class_detail :: "u8 \<Rightarrow> u8 \<Rightarrow> code option" where
  "code_from_class_detail cls dtl =
     (if 7 < cls \<or> 31 < dtl then None else Some (pack_code cls dtl))"

definition code_class :: "code \<Rightarrow> u8" where
  "code_class c = drop_bit 5 c"

definition code_detail :: "code \<Rightarrow> u8" where
  "code_detail c = c AND 31"

definition code_is_empty :: "code \<Rightarrow> bool" where
  "code_is_empty c \<longleftrightarrow> c = 0"

definition code_is_request :: "code \<Rightarrow> bool" where
  "code_is_request c \<longleftrightarrow> code_class c = 0 \<and> \<not> code_is_empty c"

definition code_is_safe :: "code \<Rightarrow> bool" where
  "code_is_safe c \<longleftrightarrow> c \<in> {CODE_GET, CODE_FETCH}"

definition code_is_idempotent :: "code \<Rightarrow> bool" where
  "code_is_idempotent c \<longleftrightarrow> c \<in> {CODE_GET, CODE_PUT, CODE_DELETE, CODE_FETCH, CODE_IPATCH}"

definition code_is_response :: "code \<Rightarrow> bool" where
  "code_is_response c \<longleftrightarrow> code_class c \<in> {2, 4, 5}"

definition code_is_success :: "code \<Rightarrow> bool" where
  "code_is_success c \<longleftrightarrow> code_class c = 2"

definition code_is_client_error :: "code \<Rightarrow> bool" where
  "code_is_client_error c \<longleftrightarrow> code_class c = 4"

definition code_is_server_error :: "code \<Rightarrow> bool" where
  "code_is_server_error c \<longleftrightarrow> code_class c = 5"

section \<open>Header and transmission parameters\<close>

record header =
  hdr_version :: u8
  hdr_ty :: msg_type
  hdr_tkl :: u8
  hdr_code :: code
  hdr_id :: message_id

definition header_new :: "u8 \<Rightarrow> msg_type \<Rightarrow> u8 \<Rightarrow> code \<Rightarrow> message_id \<Rightarrow> header" where
  "header_new version ty tkl code mid =
     \<lparr>hdr_version = version, hdr_ty = ty, hdr_tkl = tkl, hdr_code = code, hdr_id = mid\<rparr>"

definition ACK_TIMEOUT_MS :: u32 where "ACK_TIMEOUT_MS = 2000"
definition ACK_RANDOM_FACTOR_NUM :: u16 where "ACK_RANDOM_FACTOR_NUM = 3"
definition ACK_RANDOM_FACTOR_DEN :: u16 where "ACK_RANDOM_FACTOR_DEN = 2"
definition ACK_RANDOM_SPAN_MS :: u32 where
  "ACK_RANDOM_SPAN_MS = ACK_TIMEOUT_MS div ucast ACK_RANDOM_FACTOR_DEN *
     ucast (ACK_RANDOM_FACTOR_NUM - ACK_RANDOM_FACTOR_DEN)"
definition MAX_RETRANSMIT :: u8 where "MAX_RETRANSMIT = 4"
definition NSTART :: u8 where "NSTART = 1"
definition MAX_TRANSMIT_SPAN_MS :: u32 where "MAX_TRANSMIT_SPAN_MS = 45000"
definition EXCHANGE_LIFETIME_MS :: u32 where "EXCHANGE_LIFETIME_MS = 247000"
definition NON_LIFETIME_MS :: u32 where "NON_LIFETIME_MS = 145000"
definition CONFIRM_INTERVAL_MS :: u64 where "CONFIRM_INTERVAL_MS = 24 * 60 * 60 * 1000"
definition OBSERVE_NON_TIMEOUT_MS :: u32 where "OBSERVE_NON_TIMEOUT_MS = 3000"
definition QBLOCK_NON_TIMEOUT_MS :: u32 where "QBLOCK_NON_TIMEOUT_MS = ACK_TIMEOUT_MS"
definition NON_RECEIVE_TIMEOUT_MS :: u32 where
  "NON_RECEIVE_TIMEOUT_MS = saturating_mul QBLOCK_NON_TIMEOUT_MS 2"

lemmas transmission_consts = ACK_TIMEOUT_MS_def ACK_RANDOM_FACTOR_NUM_def ACK_RANDOM_FACTOR_DEN_def
  ACK_RANDOM_SPAN_MS_def MAX_RETRANSMIT_def NSTART_def MAX_TRANSMIT_SPAN_MS_def
  EXCHANGE_LIFETIME_MS_def NON_LIFETIME_MS_def CONFIRM_INTERVAL_MS_def OBSERVE_NON_TIMEOUT_MS_def
  QBLOCK_NON_TIMEOUT_MS_def NON_RECEIVE_TIMEOUT_MS_def

definition initial_timeout_ms :: "u32 \<Rightarrow> u32" where
  "initial_timeout_ms jitter_ms =
     (let extra = (if ACK_RANDOM_SPAN_MS < jitter_ms then ACK_RANDOM_SPAN_MS else jitter_ms)
      in saturating_add ACK_TIMEOUT_MS extra)"

section \<open>Tokens\<close>

definition MAX_TOKEN_LEN :: nat where "MAX_TOKEN_LEN = 65804"

text \<open>The compact token of \<open>mod.rs\<close>: eight bytes of storage and a length.\<close>

record token =
  tok_bytes :: bytes
  tok_len :: u8

definition TOKEN_MAX_LEN :: nat where "TOKEN_MAX_LEN = 8"

definition token_EMPTY :: token where
  "token_EMPTY = \<lparr>tok_bytes = replicate 8 0, tok_len = 0\<rparr>"

definition token_from_checked :: "bytes \<Rightarrow> token" where
  "token_from_checked bs =
     (let n = (if TOKEN_MAX_LEN < length bs then TOKEN_MAX_LEN else length bs)
      in \<lparr>tok_bytes = blit (tok_bytes token_EMPTY) 0 (take n bs), tok_len = of_nat n\<rparr>)"

definition token_new :: "bytes \<Rightarrow> token option" where
  "token_new bs = (if TOKEN_MAX_LEN < length bs then None else Some (token_from_checked bs))"

definition token_as_bytes :: "token \<Rightarrow> bytes" where
  "token_as_bytes t = take (unat (tok_len t)) (tok_bytes t)"

definition token_is_empty :: "token \<Rightarrow> bool" where
  "token_is_empty t \<longleftrightarrow> tok_len t = 0"

definition token_try_zeroed :: "nat \<Rightarrow> capacity_error + token" where
  "token_try_zeroed len =
     (if TOKEN_MAX_LEN < len then Inl \<lparr>required = len, available = TOKEN_MAX_LEN\<rparr>
      else Inr (token_EMPTY\<lparr>tok_len := of_nat len\<rparr>))"

definition token_try_from_bytes :: "bytes \<Rightarrow> capacity_error + token" where
  "token_try_from_bytes bs =
     ok_or \<lparr>required = length bs, available = TOKEN_MAX_LEN\<rparr> (token_new bs)"

text \<open>Writing \<open>bs\<close> through \<open>as_bytes_mut\<close>, a view of the first \<open>len\<close> bytes.\<close>

definition token_as_bytes_mut :: "token \<Rightarrow> bytes \<Rightarrow> token" where
  "token_as_bytes_mut t bs = t\<lparr>tok_bytes := blit (tok_bytes t) 0 (take (unat (tok_len t)) bs)\<rparr>"

text \<open>The extended token of \<open>extended.rs\<close>, with a caller-selected capacity \<open>N\<close>.\<close>

record ext_token =
  ext_bytes :: bytes
  ext_len :: nat

definition ext_token_EMPTY :: "nat \<Rightarrow> ext_token" where
  "ext_token_EMPTY N = \<lparr>ext_bytes = replicate N 0, ext_len = 0\<rparr>"

definition ext_token_new :: "nat \<Rightarrow> bytes \<Rightarrow> capacity_error + ext_token" where
  "ext_token_new N bs =
     (let avail = min N MAX_TOKEN_LEN in
      if avail < length bs then Inl \<lparr>required = length bs, available = avail\<rparr>
      else Inr \<lparr>ext_bytes = blit (ext_bytes (ext_token_EMPTY N)) 0 bs, ext_len = length bs\<rparr>)"

definition ext_token_as_bytes :: "ext_token \<Rightarrow> bytes" where
  "ext_token_as_bytes t = take (ext_len t) (ext_bytes t)"

definition ext_token_MAX_LEN :: "nat \<Rightarrow> nat" where
  "ext_token_MAX_LEN N = (if N < MAX_TOKEN_LEN then N else MAX_TOKEN_LEN)"

definition ext_token_try_zeroed :: "nat \<Rightarrow> nat \<Rightarrow> capacity_error + ext_token" where
  "ext_token_try_zeroed N len =
     (if ext_token_MAX_LEN N < len
      then Inl \<lparr>required = len, available = ext_token_MAX_LEN N\<rparr>
      else Inr ((ext_token_EMPTY N)\<lparr>ext_len := len\<rparr>))"

definition ext_token_as_bytes_mut :: "ext_token \<Rightarrow> bytes \<Rightarrow> ext_token" where
  "ext_token_as_bytes_mut t bs = t\<lparr>ext_bytes := blit (ext_bytes t) 0 (take (ext_len t) bs)\<rparr>"

text \<open>The trait \<open>OwnedToken\<close> as a dictionary of its items.\<close>

record 't owned_token =
  ot_EMPTY :: 't
  ot_MAX_LEN :: nat
  ot_try_from_bytes :: "bytes \<Rightarrow> capacity_error + 't"
  ot_try_zeroed :: "nat \<Rightarrow> capacity_error + 't"
  ot_as_bytes_mut :: "'t \<Rightarrow> bytes \<Rightarrow> 't"
  ot_as_bytes :: "'t \<Rightarrow> bytes"

definition compact_owned :: "token owned_token" where
  "compact_owned =
     \<lparr>ot_EMPTY = token_EMPTY, ot_MAX_LEN = TOKEN_MAX_LEN,
      ot_try_from_bytes = token_try_from_bytes, ot_try_zeroed = token_try_zeroed,
      ot_as_bytes_mut = token_as_bytes_mut, ot_as_bytes = token_as_bytes\<rparr>"

definition extended_owned :: "nat \<Rightarrow> ext_token owned_token" where
  "extended_owned N =
     \<lparr>ot_EMPTY = ext_token_EMPTY N, ot_MAX_LEN = ext_token_MAX_LEN N,
      ot_try_from_bytes = ext_token_new N, ot_try_zeroed = ext_token_try_zeroed N,
      ot_as_bytes_mut = ext_token_as_bytes_mut, ot_as_bytes = ext_token_as_bytes\<rparr>"

definition ot_len :: "'t owned_token \<Rightarrow> 't \<Rightarrow> nat" where
  "ot_len T t = length (ot_as_bytes T t)"

definition ot_is_empty :: "'t owned_token \<Rightarrow> 't \<Rightarrow> bool" where
  "ot_is_empty T t \<longleftrightarrow> ot_as_bytes T t = []"

section \<open>Message ID sequence and token minting\<close>

record ids =
  ids_next :: u16

definition ids_new :: "u16 \<Rightarrow> ids" where
  "ids_new start = \<lparr>ids_next = start\<rparr>"

definition ids_peek :: "ids \<Rightarrow> message_id" where
  "ids_peek s = ids_next s"

definition ids_take :: "ids \<Rightarrow> message_id \<times> ids" where
  "ids_take s = (ids_next s, s\<lparr>ids_next := ids_next s + 1\<rparr>)"

text \<open>
  A \<open>TokenSource\<close> is a state with a \<open>fill\<close> function: it gets the destination slice, and returns
  whether it could fill it, the destination as it left it, and its own new state. The consuming
  slice source is \<open>slice_source\<close>.
\<close>

definition fill_from_slice :: "bytes \<Rightarrow> bytes \<Rightarrow> bool \<times> bytes" where
  "fill_from_slice src dest =
     (if length src < length dest then (False, dest) else (True, take (length dest) src))"

definition slice_source :: "bytes \<Rightarrow> bytes \<Rightarrow> bool \<times> bytes \<times> bytes" where
  "slice_source src dest =
     (case fill_from_slice src dest of
        (False, dest') \<Rightarrow> (False, dest', src)
      | (True, dest') \<Rightarrow> (True, dest', drop (length dest) src))"

definition token_mint :: "nat \<Rightarrow> bytes \<Rightarrow> token option" where
  "token_mint len entropy =
     (if len = 0 then Some token_EMPTY
      else if TOKEN_MAX_LEN < len \<or> length entropy < len then None
      else Some (token_from_checked (take len entropy)))"

definition token_mint_from ::
  "('s \<Rightarrow> bytes \<Rightarrow> bool \<times> bytes \<times> 's) \<Rightarrow> nat \<Rightarrow> 's \<Rightarrow> token option \<times> 's" where
  "token_mint_from fill len src =
     (if len = 0 then (Some token_EMPTY, src)
      else if TOKEN_MAX_LEN < len then (None, src)
      else (case fill src (replicate len 0) of
              (False, _, src') \<Rightarrow> (None, src')
            | (True, dest, src') \<Rightarrow> (Some (token_from_checked dest), src')))"

section \<open>The contract of an owned token\<close>

text \<open>
  What the trait's documentation promises: construction preserves every byte, lengths above the
  capacity are refused with both numbers, and equality is equality of length and bytes. \<open>wf\<close> is the
  representation invariant of the implementing type (full-width storage, zero padding).
\<close>

locale owned_token_laws =
  fixes T :: "'t owned_token" and wf :: "'t \<Rightarrow> bool"
  assumes cap_le: "ot_MAX_LEN T \<le> MAX_TOKEN_LEN"
    and wf_EMPTY: "wf (ot_EMPTY T)"
    and bytes_EMPTY: "ot_as_bytes T (ot_EMPTY T) = []"
    and try_from_ok: "length bs \<le> ot_MAX_LEN T \<Longrightarrow>
      \<exists>t. ot_try_from_bytes T bs = Inr t \<and> wf t \<and> ot_as_bytes T t = bs"
    and try_from_err: "ot_MAX_LEN T < length bs \<Longrightarrow>
      ot_try_from_bytes T bs = Inl \<lparr>required = length bs, available = ot_MAX_LEN T\<rparr>"
    and try_zeroed_ok: "n \<le> ot_MAX_LEN T \<Longrightarrow>
      \<exists>t. ot_try_zeroed T n = Inr t \<and> wf t \<and> ot_as_bytes T t = replicate n 0"
    and try_zeroed_err: "ot_MAX_LEN T < n \<Longrightarrow>
      ot_try_zeroed T n = Inl \<lparr>required = n, available = ot_MAX_LEN T\<rparr>"
    and wf_len: "wf t \<Longrightarrow> length (ot_as_bytes T t) \<le> ot_MAX_LEN T"
    and wf_eqI: "wf t \<Longrightarrow> wf u \<Longrightarrow> ot_as_bytes T t = ot_as_bytes T u \<Longrightarrow> t = u"
    and mut_ok: "wf t \<Longrightarrow> length bs = length (ot_as_bytes T t) \<Longrightarrow>
      wf (ot_as_bytes_mut T t bs) \<and> ot_as_bytes T (ot_as_bytes_mut T t bs) = bs"
begin

lemma try_from_Inr_iff:
  "ot_try_from_bytes T bs = Inr t \<longleftrightarrow>
     length bs \<le> ot_MAX_LEN T \<and> wf t \<and> ot_as_bytes T t = bs"
  by (metis Inl_Inr_False linorder_not_le sum.inject(2) try_from_err try_from_ok wf_eqI)

lemma try_from_as_bytes:
  "wf t \<Longrightarrow> ot_try_from_bytes T (ot_as_bytes T t) = Inr t"
  by (simp add: try_from_Inr_iff wf_len)

lemma zeroed_then_fill:
  assumes "length bs \<le> ot_MAX_LEN T"
  shows "\<exists>z. ot_try_zeroed T (length bs) = Inr z \<and>
           ot_try_from_bytes T bs = Inr (ot_as_bytes_mut T z bs)"
proof -
  obtain z where z: "ot_try_zeroed T (length bs) = Inr z" "wf z"
      "ot_as_bytes T z = replicate (length bs) 0"
    using try_zeroed_ok [OF assms] by blast
  then have "wf (ot_as_bytes_mut T z bs) \<and> ot_as_bytes T (ot_as_bytes_mut T z bs) = bs"
    using mut_ok by simp
  with z assms show ?thesis by (auto simp: try_from_Inr_iff)
qed

lemma empty_iff: "wf t \<Longrightarrow> ot_is_empty T t \<longleftrightarrow> t = ot_EMPTY T"
  unfolding ot_is_empty_def using bytes_EMPTY wf_EMPTY wf_eqI by metis

end

definition token_wf :: "token \<Rightarrow> bool" where
  "token_wf t \<longleftrightarrow> length (tok_bytes t) = 8 \<and> unat (tok_len t) \<le> 8 \<and>
     drop (unat (tok_len t)) (tok_bytes t) = replicate (8 - unat (tok_len t)) 0"

definition ext_token_wf :: "nat \<Rightarrow> ext_token \<Rightarrow> bool" where
  "ext_token_wf N t \<longleftrightarrow> length (ext_bytes t) = N \<and> ext_len t \<le> min N MAX_TOKEN_LEN \<and>
     drop (ext_len t) (ext_bytes t) = replicate (N - ext_len t) 0"

lemma unat_of_small_u8 [simp]: "n \<le> 8 \<Longrightarrow> unat (of_nat n :: u8) = n"
  by (simp add: unat_of_nat)

lemma token_from_checked_wf:
  "token_wf (token_from_checked bs)"
  by (auto simp: token_wf_def token_from_checked_def token_EMPTY_def TOKEN_MAX_LEN_def Let_def)

lemma token_from_checked_bytes:
  "token_as_bytes (token_from_checked bs) = take 8 bs"
  by (auto simp: token_as_bytes_def token_from_checked_def token_EMPTY_def TOKEN_MAX_LEN_def
      Let_def)

lemma token_eqI:
  assumes "token_wf t" "token_wf u" "token_as_bytes t = token_as_bytes u"
  shows "t = u"
proof -
  have l: "unat (tok_len t) = unat (tok_len u)"
    using arg_cong [OF assms(3), of length] assms(1,2)
    by (simp add: token_wf_def token_as_bytes_def)
  then have "tok_bytes t = tok_bytes u"
    using assms unfolding token_wf_def token_as_bytes_def by (metis append_take_drop_id)
  with l show ?thesis by (simp add: word_unat_eq_iff)
qed

lemma ext_token_eqI:
  assumes "ext_token_wf N t" "ext_token_wf N u" "ext_token_as_bytes t = ext_token_as_bytes u"
  shows "t = u"
proof -
  have l: "ext_len t = ext_len u"
    using arg_cong [OF assms(3), of length] assms(1,2)
    by (simp add: ext_token_wf_def ext_token_as_bytes_def)
  then have "ext_bytes t = ext_bytes u"
    using assms unfolding ext_token_wf_def ext_token_as_bytes_def by (metis append_take_drop_id)
  with l show ?thesis by simp
qed

lemmas token_defs = compact_owned_def token_try_from_bytes_def token_new_def token_try_zeroed_def
  token_as_bytes_mut_def token_EMPTY_def token_as_bytes_def token_wf_def TOKEN_MAX_LEN_def
  MAX_TOKEN_LEN_def

lemmas ext_token_defs = extended_owned_def ext_token_new_def ext_token_try_zeroed_def
  ext_token_as_bytes_mut_def ext_token_EMPTY_def ext_token_as_bytes_def ext_token_wf_def
  ext_token_MAX_LEN_def

interpretation compact: owned_token_laws compact_owned token_wf
proof unfold_locales
  fix bs :: bytes assume "length bs \<le> ot_MAX_LEN compact_owned"
  then have "length bs \<le> 8" by (simp add: compact_owned_def TOKEN_MAX_LEN_def)
  then have "token_try_from_bytes bs = Inr (token_from_checked bs)"
    "token_as_bytes (token_from_checked bs) = bs"
    by (simp_all add: token_try_from_bytes_def token_new_def TOKEN_MAX_LEN_def
        token_from_checked_bytes)
  then show "\<exists>t. ot_try_from_bytes compact_owned bs = Inr t \<and> token_wf t \<and>
      ot_as_bytes compact_owned t = bs"
    using token_from_checked_wf by (auto simp: compact_owned_def)
next
  fix t u assume "token_wf t" "token_wf u" "ot_as_bytes compact_owned t = ot_as_bytes compact_owned u"
  then show "t = u" by (simp add: compact_owned_def token_eqI)
qed (auto simp: token_defs)

interpretation extended: owned_token_laws "extended_owned N" "ext_token_wf N" for N
proof unfold_locales
  fix t u assume "ext_token_wf N t" "ext_token_wf N u"
    "ot_as_bytes (extended_owned N) t = ot_as_bytes (extended_owned N) u"
  then show "t = u" by (simp add: extended_owned_def ext_token_eqI)
qed (auto simp: ext_token_defs Let_def min_def split: if_splits)

section \<open>Codes, types and timeouts\<close>

lemma type_from_to_bits [simp]: "type_from_bits (type_to_bits t) = Some t"
  by (cases t) simp_all

lemma type_to_from_bits: "type_from_bits b = Some t \<Longrightarrow> type_to_bits t = b"
  by (auto split: if_splits)

lemma type_to_bits_bound: "unat (type_to_bits t) < 4"
  by (cases t) simp_all

end
