(* ===== verification/Msg_Option.thy ===== *)
theory Msg_Option
  imports Msg_Core
begin

text \<open>
  Option numbers and the option iterator (\<open>src/message/option.rs\<close>).

  \<open>read_option\<close> is the one parser of an option; it takes the cursor and the running option number
  and returns both as it left them, on the error branches too. The abstract side is the wire form
  of one option, \<open>wire_option\<close>: the central lemmas show that reading is the exact inverse of the
  wire form, in both directions, so an accepted option has only one encoding.
\<close>

section \<open>Options\<close>

record opt =
  opt_number :: option_number
  opt_value :: bytes

definition opt_new :: "option_number \<Rightarrow> bytes \<Rightarrow> opt" where
  "opt_new n v = \<lparr>opt_number = n, opt_value = v\<rparr>"

definition OPT_IF_MATCH :: option_number where "OPT_IF_MATCH = 1"
definition OPT_URI_HOST :: option_number where "OPT_URI_HOST = 3"
definition OPT_ETAG :: option_number where "OPT_ETAG = 4"
definition OPT_IF_NONE_MATCH :: option_number where "OPT_IF_NONE_MATCH = 5"
definition OPT_OBSERVE :: option_number where "OPT_OBSERVE = 6"
definition OPT_URI_PORT :: option_number where "OPT_URI_PORT = 7"
definition OPT_LOCATION_PATH :: option_number where "OPT_LOCATION_PATH = 8"
definition OPT_OSCORE :: option_number where "OPT_OSCORE = 9"
definition OPT_URI_PATH :: option_number where "OPT_URI_PATH = 11"
definition OPT_CONTENT_FORMAT :: option_number where "OPT_CONTENT_FORMAT = 12"
definition OPT_MAX_AGE :: option_number where "OPT_MAX_AGE = 14"
definition OPT_URI_QUERY :: option_number where "OPT_URI_QUERY = 15"
definition OPT_HOP_LIMIT :: option_number where "OPT_HOP_LIMIT = 16"
definition OPT_ACCEPT :: option_number where "OPT_ACCEPT = 17"
definition OPT_Q_BLOCK1 :: option_number where "OPT_Q_BLOCK1 = 19"
definition OPT_LOCATION_QUERY :: option_number where "OPT_LOCATION_QUERY = 20"
definition OPT_BLOCK2 :: option_number where "OPT_BLOCK2 = 23"
definition OPT_BLOCK1 :: option_number where "OPT_BLOCK1 = 27"
definition OPT_SIZE2 :: option_number where "OPT_SIZE2 = 28"
definition OPT_Q_BLOCK2 :: option_number where "OPT_Q_BLOCK2 = 31"
definition OPT_PROXY_URI :: option_number where "OPT_PROXY_URI = 35"
definition OPT_PROXY_SCHEME :: option_number where "OPT_PROXY_SCHEME = 39"
definition OPT_SIZE1 :: option_number where "OPT_SIZE1 = 60"
definition OPT_ECHO :: option_number where "OPT_ECHO = 252"
definition OPT_NO_RESPONSE :: option_number where "OPT_NO_RESPONSE = 258"
definition OPT_REQUEST_TAG :: option_number where "OPT_REQUEST_TAG = 292"

lemmas option_consts = OPT_IF_MATCH_def OPT_URI_HOST_def OPT_ETAG_def OPT_IF_NONE_MATCH_def
  OPT_OBSERVE_def OPT_URI_PORT_def OPT_LOCATION_PATH_def OPT_OSCORE_def OPT_URI_PATH_def
  OPT_CONTENT_FORMAT_def OPT_MAX_AGE_def OPT_URI_QUERY_def OPT_HOP_LIMIT_def OPT_ACCEPT_def
  OPT_Q_BLOCK1_def OPT_LOCATION_QUERY_def OPT_BLOCK2_def OPT_BLOCK1_def OPT_SIZE2_def
  OPT_Q_BLOCK2_def OPT_PROXY_URI_def OPT_PROXY_SCHEME_def OPT_SIZE1_def OPT_ECHO_def
  OPT_NO_RESPONSE_def OPT_REQUEST_TAG_def

definition is_rfc7252 :: "option_number \<Rightarrow> bool" where
  "is_rfc7252 n \<longleftrightarrow> n \<in> {1, 3, 4, 5, 7, 8, 11, 12, 14, 15, 17, 20, 35, 39, 60}"

definition is_known :: "option_number \<Rightarrow> bool" where
  "is_known n \<longleftrightarrow> is_rfc7252 n \<or>
     n \<in> {OPT_OBSERVE, OPT_OSCORE, OPT_HOP_LIMIT, OPT_Q_BLOCK1, OPT_BLOCK2, OPT_BLOCK1, OPT_SIZE2,
          OPT_Q_BLOCK2, OPT_ECHO, OPT_NO_RESPONSE, OPT_REQUEST_TAG}"

definition is_critical :: "option_number \<Rightarrow> bool" where
  "is_critical n \<longleftrightarrow> n AND 1 = 1"

definition is_unsafe :: "option_number \<Rightarrow> bool" where
  "is_unsafe n \<longleftrightarrow> n AND 2 = 2"

definition is_no_cache_key :: "option_number \<Rightarrow> bool" where
  "is_no_cache_key n \<longleftrightarrow> n AND 0x1e = 0x1c"

section \<open>Reading one option\<close>

definition take_extended :: "bytes \<Rightarrow> nat \<Rightarrow> u32 \<Rightarrow> parse_error + nat \<times> u32" where
  "take_extended bytes i n =
     (if n = 13 then
        (case get_at bytes i of
           None \<Rightarrow> Inl PE_TruncatedOption
         | Some extra \<Rightarrow> Inr (i + 1, 13 + ucast extra))
      else if n = 14 then
        (if length bytes \<le> i + 1 then Inl PE_TruncatedOption
         else Inr (i + 2, 269 + ucast (u16_from_be (bytes ! i) (bytes ! (i + 1)))))
      else Inr (i, n))"

definition read_option ::
  "bytes \<Rightarrow> nat \<Rightarrow> u32 \<Rightarrow> (parse_error + opt) \<times> nat \<times> u32" where
  "read_option bytes i prev =
     (case get_at bytes i of
        None \<Rightarrow> (Inl PE_TruncatedOption, i, prev)
      | Some head \<Rightarrow>
          (let i = i + 1;
               delta = (ucast (drop_bit 4 head) :: u32);
               len = (ucast (head AND 0x0f) :: u32) in
           if delta = 15 then (Inl PE_ReservedOptionDelta, i, prev)
           else if len = 15 then (Inl PE_ReservedOptionLength, i, prev)
           else (case take_extended bytes i delta of
                   Inl e \<Rightarrow> (Inl e, i, prev)
                 | Inr (i, delta) \<Rightarrow>
                     (case take_extended bytes i len of
                        Inl e \<Rightarrow> (Inl e, i, prev)
                      | Inr (i, len) \<Rightarrow>
                          (case Option.bind (checked_add_w prev delta)
                                  (\<lambda>n. if n \<le> 65535 then Some n else None) of
                             None \<Rightarrow> (Inl PE_OptionNumberOverflow, i, prev)
                           | Some number \<Rightarrow>
                               (case checked_add i (unat len) of
                                  None \<Rightarrow> (Inl PE_TruncatedOption, i, number)
                                | Some end \<Rightarrow>
                                    if length bytes < end then (Inl PE_TruncatedOption, i, number)
                                    else (Inr (opt_new (ucast number)
                                                 (take (end - i) (drop i bytes))),
                                          end, number)))))))"

section \<open>The iterator\<close>

record options =
  os_bytes :: bytes
  os_i :: nat
  os_prev :: u32

definition options_new :: "bytes \<Rightarrow> options" where
  "options_new bs = \<lparr>os_bytes = bs, os_i = 0, os_prev = 0\<rparr>"

definition options_next :: "options \<Rightarrow> opt option \<times> options" where
  "options_next s =
     (if length (os_bytes s) \<le> os_i s then (None, s)
      else (case read_option (os_bytes s) (os_i s) (os_prev s) of
              (r, i', prev') \<Rightarrow> (to_ok r, s\<lparr>os_i := i', os_prev := prev'\<rparr>)))"

lemma take_extended_mono:
  "take_extended bytes i n = Inr (i', n') \<Longrightarrow> i \<le> i'"
  by (auto simp: take_extended_def split: if_splits option.splits)

lemma read_option_advance:
  "read_option bytes i prev = (Inr x, i', prev') \<Longrightarrow> i < i' \<and> i' \<le> length bytes"
  by (auto simp: read_option_def Let_def split: option.splits if_splits sum.splits
      dest!: take_extended_mono)

lemma options_next_advance:
  "(Some x, s') = options_next s \<Longrightarrow>
     length (os_bytes s') - os_i s' < length (os_bytes s) - os_i s"
  by (auto simp: options_next_def to_ok_def split: if_splits prod.splits sum.splits
      dest!: read_option_advance)

text \<open>Running the iterator to its first \<open>None\<close>, as every \<open>for\<close> loop and adapter over it does.\<close>

function options_list :: "options \<Rightarrow> opt list" where
  "options_list s =
     (case options_next s of
        (None, _) \<Rightarrow> []
      | (Some x, s') \<Rightarrow> x # options_list s')"
  by pat_completeness auto
termination
  by (relation "measure (\<lambda>s. length (os_bytes s) - os_i s)") (auto dest: options_next_advance)

declare options_list.simps [simp del]

section \<open>The wire form of one option\<close>

text \<open>
  RFC 7252 section 3.1: the delta and the length are each a nibble, with one extension byte from 13
  and two from 269 up to the maximum.
\<close>

definition wire_nibble :: "nat \<Rightarrow> nat" where
  "wire_nibble n = (if n < 13 then n else if n < 269 then 13 else 14)"

definition wire_ext :: "nat \<Rightarrow> bytes" where
  "wire_ext n =
     (if n < 13 then [] else if n < 269 then [of_nat (n - 13)] else u16_to_be (of_nat (n - 269)))"

definition wire_option :: "nat \<Rightarrow> bytes \<Rightarrow> bytes" where
  "wire_option d v =
     of_nat (16 * wire_nibble d + wire_nibble (length v)) # wire_ext d @ wire_ext (length v) @ v"

definition max_extended :: nat where "max_extended = 65804"

lemma wire_nibble_less: "wire_nibble n < 15"
  by (simp add: wire_nibble_def)

lemma unat_wire_nibble [simp]:
  "unat (of_nat (wire_nibble n) :: u32) = wire_nibble n"
  using wire_nibble_less [of n] by (simp add: unat_of_nat)

lemma wire_option_length [simp]:
  "length (wire_option d v) = 1 + length (wire_ext d) + length (wire_ext (length v)) + length v"
  by (simp add: wire_option_def)

lemma unat_wire_head:
  "unat (of_nat (16 * wire_nibble d + wire_nibble l) :: u8) = 16 * wire_nibble d + wire_nibble l"
proof -
  have "16 * wire_nibble d + wire_nibble l < 256"
    using wire_nibble_less [of d] wire_nibble_less [of l] by linarith
  then show ?thesis by (rule unat_of_nat_u8)
qed

lemma wire_head_nibbles:
  "drop_bit 4 (of_nat (16 * wire_nibble d + wire_nibble l) :: u8) = of_nat (wire_nibble d)"
  "(of_nat (16 * wire_nibble d + wire_nibble l) :: u8) AND 15 = of_nat (wire_nibble l)"
  using wire_nibble_less [of d] wire_nibble_less [of l]
  by (simp_all only: word_unat_eq_iff unat_high_nibble unat_low_nibble unat_wire_head)
    (simp_all add: unat_of_nat)

lemma wire_head_not_marker:
  "of_nat (16 * wire_nibble d + wire_nibble l) \<noteq> (0xFF :: u8)"
  using unat_wire_head [of d l] wire_nibble_less [of d] wire_nibble_less [of l]
  by (auto simp: word_unat_eq_iff)

lemma ucast_of_nat_small: "n < 256 \<Longrightarrow> ucast (of_nat n :: u8) = (of_nat n :: u32)"
  by (simp add: word_unat_eq_iff unat_ucast_le unat_of_nat)

lemma take_extended_wire:
  assumes "n \<le> max_extended"
  shows "take_extended (pre @ wire_ext n @ rest) (length pre) (of_nat (wire_nibble n)) =
           Inr (length pre + length (wire_ext n), of_nat n)"
proof -
  consider "n < 13" | "13 \<le> n" "n < 269" | "269 \<le> n" by linarith
  then show ?thesis
  proof cases
    case 1
    then have "(of_nat n :: u32) \<noteq> 13" "(of_nat n :: u32) \<noteq> 14"
      by (simp_all add: word_unat_eq_iff unat_of_nat)
    with 1 show ?thesis by (simp add: take_extended_def wire_nibble_def wire_ext_def)
  next
    case 2
    then have "ucast (of_nat (n - 13) :: u8) = (of_nat (n - 13) :: u32)"
      by (intro ucast_of_nat_small) simp
    with 2 have "(13 :: u32) + ucast (of_nat (n - 13) :: u8) = of_nat n"
      by (simp only: of_nat_diff) simp
    with 2 show ?thesis
      by (simp add: take_extended_def wire_nibble_def wire_ext_def get_at_def)
  next
    case 3
    then have n: "n - 269 < 65536" using assms by (simp add: max_extended_def)
    define w :: u16 where "w = of_nat (n - 269)"
    have "unat w = n - 269" unfolding w_def using n by (rule unat_of_nat_u16)
    then have "(269 :: u32) + ucast w = of_nat n"
      using 3 n by (simp add: word_unat_eq_iff unat_word_ariths unat_ucast_le unat_of_nat)
    with 3 w_def show ?thesis
      by (simp add: take_extended_def wire_nibble_def wire_ext_def u16_to_be_def nth_append)
  qed
qed

lemma take_extended_sound:
  assumes "take_extended bs i k = Inr (i', n)" "unat k < 15" "i \<le> length bs"
  shows "i' \<le> length bs \<and> unat n \<le> max_extended \<and> unat k = wire_nibble (unat n) \<and>
         i' = i + length (wire_ext (unat n)) \<and>
         drop i bs = wire_ext (unat n) @ drop i' bs"
proof -
  consider "k = 13" | "k = 14" | "unat k < 13"
    using assms(2) by (force simp: word_unat_eq_iff)
  then show ?thesis
  proof cases
    case 1
    then obtain b where b: "get_at bs i = Some b" "i' = i + 1" "n = 13 + ucast b"
      using assms(1) by (auto simp: take_extended_def split: option.splits)
    have n: "unat n = 13 + unat b"
    proof -
      have "13 + unat b < 4294967296" using u8_bound [of b] by linarith
      then show ?thesis using b(3) by (simp add: unat_word_ariths unat_ucast_le)
    qed
    with b 1 show ?thesis
      by (auto simp: wire_nibble_def wire_ext_def max_extended_def Cons_nth_drop_Suc
          u8_bound less_imp_le intro: order.trans [OF less_imp_le [OF u8_bound]])
  next
    case 2
    let ?w = "u16_from_be (bs ! i) (bs ! (i + 1))"
    have b: "i + 1 < length bs" "i' = i + 2" "n = 269 + ucast ?w"
      using 2 assms(1) by (auto simp: take_extended_def split: if_splits)
    have n: "unat n = 269 + unat ?w"
    proof -
      have "269 + unat ?w < 4294967296" using u16_bound [of ?w] by linarith
      then show ?thesis using b(3) by (simp add: unat_word_ariths unat_ucast_le)
    qed
    have "drop i bs = [bs ! i, bs ! (i + 1)] @ drop (i + 2) bs"
      using b(1) by (simp add: Cons_nth_drop_Suc)
    moreover have "unat ?w \<le> 65535" using u16_bound [of ?w] by linarith
    ultimately show ?thesis
      using b 2 n by (simp add: wire_nibble_def wire_ext_def max_extended_def)
  next
    case 3
    then have "k \<noteq> 13" "k \<noteq> 14" by auto
    with 3 assms show ?thesis
      by (auto simp: take_extended_def wire_nibble_def wire_ext_def max_extended_def)
  qed
qed

section \<open>Reading is the inverse of the wire form\<close>

lemma ucast_u16_of_nat:
  assumes "unat (w :: u32) = n" "n \<le> 65535"
  shows "(ucast w :: u16) = of_nat n"
proof -
  have "unat (ucast w :: u16) = n"
    using assms by (simp add: unsigned_ucast_eq take_bit_nat_eq_self_iff)
  moreover have "unat (of_nat n :: u16) = n" using assms(2) by (intro unat_of_nat_u16) simp
  ultimately show ?thesis by (simp add: word_unat_eq_iff)
qed

lemma read_option_wire:
  assumes num: "unat prev + d \<le> 65535"
    and len: "length v \<le> max_extended"
    and slice: "length (pre @ wire_option d v @ rest) \<le> usize_max"
  shows "read_option (pre @ wire_option d v @ rest) (length pre) prev =
           (Inr (opt_new (of_nat (unat prev + d)) v),
            length pre + length (wire_option d v), prev + of_nat d)"
proof -
  define h :: u8 where "h = of_nat (16 * wire_nibble d + wire_nibble (length v))"
  define bs where "bs = pre @ wire_option d v @ rest"
  define i1 where "i1 = length pre + 1 + length (wire_ext d)"
  define i2 where "i2 = i1 + length (wire_ext (length v))"
  have bs: "bs = pre @ [h] @ wire_ext d @ wire_ext (length v) @ v @ rest"
    by (simp add: bs_def h_def wire_option_def)
  have d: "d \<le> max_extended" using num by (simp add: max_extended_def)
  have dn: "(ucast (drop_bit 4 h) :: u32) = of_nat (wire_nibble d)"
    "(ucast (h AND 15) :: u32) = of_nat (wire_nibble (length v))"
    unfolding wire_head_nibbles h_def
    using wire_nibble_less [of d] wire_nibble_less [of "length v"]
    by (simp_all add: ucast_of_nat_small)
  have n15: "(of_nat (wire_nibble n) :: u32) \<noteq> 15" for n
    using wire_nibble_less [of n] by (simp add: word_unat_eq_iff)
  have t1: "take_extended bs (length pre + 1) (of_nat (wire_nibble d)) = Inr (i1, of_nat d)"
    using take_extended_wire [OF d, of "pre @ [h]" "wire_ext (length v) @ v @ rest"]
    by (simp add: bs i1_def)
  have t2: "take_extended bs i1 (of_nat (wire_nibble (length v))) = Inr (i2, of_nat (length v))"
    using take_extended_wire [OF len, of "pre @ [h] @ wire_ext d" "v @ rest"]
    by (simp add: bs i1_def i2_def)
  have du: "unat (of_nat d :: u32) = d" "unat (of_nat (length v) :: u32) = length v"
    using d len by (simp_all add: unat_of_nat max_extended_def)
  have s: "unat (prev + of_nat d) = unat prev + d"
    using num du by (subst unat_add_less) auto
  have add: "checked_add_w prev (of_nat d) = Some (prev + of_nat d)" "prev + of_nat d \<le> 65535"
    using num du s by (simp_all add: checked_add_w_def word_le_nat_alt)
  have number: "(ucast (prev + of_nat d) :: u16) = of_nat (unat prev + d)"
    using s num by (rule ucast_u16_of_nat)
  have e: "get_at bs (length pre) = Some h" "take (length v) (drop i2 bs) = v"
      "length pre + length (wire_option d v) = i2 + length v" "i2 + length v \<le> length bs"
    by (simp_all add: get_at_def bs i1_def i2_def)
  have c: "checked_add i2 (length v) = Some (i2 + length v)"
    using slice e(4) by (simp add: checked_add_def flip: bs_def)
  show ?thesis
    unfolding bs_def [symmetric] number [symmetric] e(3) read_option_def e(1) Let_def option.case dn
      t1 sum.case prod.case t2 add du bind.bind_lunit c
    using e by (simp add: n15 add)
qed

lemma read_option_sound:
  assumes "read_option bs i prev = (Inr x, i', prev')"
  shows "\<exists>d. unat prev + d \<le> 65535 \<and> prev' = prev + of_nat d \<and>
           x = opt_new (of_nat (unat prev + d)) (opt_value x) \<and>
           length (opt_value x) \<le> max_extended \<and>
           i' = i + length (wire_option d (opt_value x)) \<and> i' \<le> length bs \<and>
           drop i bs = wire_option d (opt_value x) @ drop i' bs"
proof -
  obtain h where h: "i < length bs" "h = bs ! i" using assms
    by (auto simp: read_option_def Let_def split: option.splits)
  obtain i1 d i2 l where t1: "take_extended bs (Suc i) (ucast (drop_bit 4 h)) = Inr (i1, d)"
    and t2: "take_extended bs i1 (ucast (h AND 15)) = Inr (i2, l)"
    and nib: "(ucast (drop_bit 4 h) :: u32) \<noteq> 15" "(ucast (h AND 15) :: u32) \<noteq> 15"
    and n: "checked_add_w prev d = Some prev'" "prev' \<le> 65535"
    and e: "i2 + unat l \<le> length bs" "i' = i2 + unat l"
    and x: "x = opt_new (ucast prev') (take (unat l) (drop i2 bs))"
    using assms h
    by (auto simp: read_option_def Let_def bind_eq_Some_conv
        split: option.splits if_splits sum.splits)
  have hn: "unat (ucast (drop_bit 4 h) :: u32) < 15" "unat (ucast (h AND 15) :: u32) < 15"
    using nib u8_bound [of h]
    by (auto simp: word_unat_eq_iff unat_ucast_le unat_high_nibble unat_low_nibble)
  note s1 = take_extended_sound [OF t1 hn(1)]
  note s2 = take_extended_sound [OF t2 hn(2)]
  have b1: "i1 = Suc i + length (wire_ext (unat d))" "i1 \<le> length bs"
      "unat h div 16 = wire_nibble (unat d)"
      "drop (Suc i) bs = wire_ext (unat d) @ drop i1 bs"
    using s1 h by (simp_all add: unat_ucast_le unat_high_nibble)
  have b2: "i2 = i1 + length (wire_ext (unat l))" "unat l \<le> max_extended"
      "unat h mod 16 = wire_nibble (unat l)"
      "drop i1 bs = wire_ext (unat l) @ drop i2 bs"
    using s2 b1(2) by (simp_all add: unat_ucast_le unat_low_nibble)
  have len: "length (opt_value x) = unat l"
    using x e by (simp add: opt_new_def)
  have hd: "h = of_nat (16 * wire_nibble (unat d) + wire_nibble (unat l))"
  proof -
    have "unat h = 16 * wire_nibble (unat d) + wire_nibble (unat l)"
      using b1(3) b2(3) by (metis mult_div_mod_eq)
    then show ?thesis by (simp only: word_unat_eq_iff unat_wire_head)
  qed
  have vd: "drop i2 bs = opt_value x @ drop i' bs"
    using x e by (simp add: opt_new_def) (metis add.commute append_take_drop_id drop_drop)
  have "drop i bs = wire_option (unat d) (opt_value x) @ drop i' bs"
    using h b1(4) b2(4) vd hd len
    by (simp add: wire_option_def flip: Cons_nth_drop_Suc)
  moreover have p: "unat prev + unat d \<le> 65535" "prev' = prev + of_nat (unat d)"
      "unat prev' = unat prev + unat d"
    using n by (auto simp: checked_add_w_Some_iff word_le_nat_alt unat_add_less)
  moreover have "(ucast prev' :: u16) = of_nat (unat prev + unat d)"
    using p(3,1) by (rule ucast_u16_of_nat)
  ultimately show ?thesis
    using x e b1(1) b2 len by (intro exI [of _ "unat d"]) (auto simp: opt_new_def)
qed

end
