(* ===== verification/Msg_Codec.thy ===== *)
theory Msg_Codec
  imports Msg_Option
begin

text \<open>
  The datagram codec: \<open>src/message/decode.rs\<close>, \<open>src/message/encode.rs\<close> and the token-length
  codec of \<open>src/message/extended.rs\<close>.

  The encoder writes through \<open>&mut [u8]\<close>: the model takes the buffer and returns it with the
  result, also when the result is an error. The abstract side is \<open>wire_message\<close>, the datagram as
  one byte string; the encoder is shown to refine it and the decoder to invert it.
\<close>

section \<open>Token length\<close>

definition decode_length :: "u8 \<Rightarrow> bytes \<Rightarrow> parse_error + nat \<times> nat" where
  "decode_length nibble rest =
     (if nibble \<le> 12 then Inr (unat nibble, 0)
      else if nibble = 13 then
        (case get_at rest 0 of
           None \<Rightarrow> Inl PE_TruncatedToken
         | Some b \<Rightarrow> Inr (13 + unat b, 1))
      else if nibble = 14 then
        (case get_range rest 0 2 of
           None \<Rightarrow> Inl PE_TruncatedToken
         | Some bs \<Rightarrow> Inr (269 + unat (u16_from_be (bs ! 0) (bs ! 1)), 2))
      else Inl PE_BadTokenLength)"

definition MAX_EXTENDED :: u32 where "MAX_EXTENDED = 269 + 65535"

definition u32_try_from :: "nat \<Rightarrow> u32 option" where
  "u32_try_from n = (if n < 2 ^ 32 then Some (of_nat n) else None)"

definition ext_nibble :: "u32 \<Rightarrow> encode_error + u8 \<times> bytes \<times> nat" where
  "ext_nibble n =
     (if n < 13 then Inr (ucast n, [0, 0], 0)
      else if n < 269 then Inr (13, [ucast (n - 13), 0], 1)
      else if n \<le> MAX_EXTENDED then
        (let e = n - 269 in Inr (14, [ucast (drop_bit 8 e), ucast (e AND 0xff)], 2))
      else Inl EE_OptionValueTooLong)"

definition encode_length :: "nat \<Rightarrow> encode_error + u8 \<times> bytes \<times> nat" where
  "encode_length len =
     and_then (ok_or EE_TokenTooLong (u32_try_from len))
       (\<lambda>n. map_err (\<lambda>_. EE_TokenTooLong) (ext_nibble n))"

section \<open>Decoding\<close>

record parts =
  pt_header :: header
  pt_token :: bytes
  pt_options :: bytes
  pt_payload :: bytes

function split_loop :: "bytes \<Rightarrow> nat \<Rightarrow> nat \<Rightarrow> u32 \<Rightarrow> parse_error + bytes \<times> bytes" where
  "split_loop bs start i prev =
     (if i < length bs then
        (if bs ! i = 0xFF then
           (if i + 1 = length bs then Inl PE_PayloadMarkerWithoutPayload
            else (case get_range bs start i of
                    None \<Rightarrow> Inl PE_TruncatedOption
                  | Some os \<Rightarrow> Inr (os, drop (i + 1) bs)))
         else (case read_option bs i prev of
                 (Inl e, _, _) \<Rightarrow> Inl e
               | (Inr _, i', prev') \<Rightarrow> split_loop bs start i' prev'))
      else (case get_range bs start (length bs) of
              None \<Rightarrow> Inl PE_TruncatedOption
            | Some os \<Rightarrow> Inr (os, [])))"
  by pat_completeness auto
termination
  by (relation "measure (\<lambda>(bs, start, i, prev). length bs - i)")
    (auto dest!: read_option_advance [OF sym])

declare split_loop.simps [simp del]

definition split_options_and_payload :: "bytes \<Rightarrow> nat \<Rightarrow> parse_error + bytes \<times> bytes" where
  "split_options_and_payload bs start = split_loop bs start start 0"

definition decode_parts :: "bytes \<Rightarrow> bool \<Rightarrow> parse_error + parts" where
  "decode_parts buf extended =
     (if length buf < 4 then Inl PE_TruncatedHeader
      else
        let version = drop_bit 6 (buf ! 0) in
        if version \<noteq> 1 then Inl PE_UnsupportedVersion
        else
          let tbits = drop_bit 4 (buf ! 0) AND 3;
              ty = (if tbits = 0 then Confirmable
                    else if tbits = 1 then NonConfirmable
                    else if tbits = 2 then Acknowledgement
                    else Reset);
              tkl = buf ! 0 AND 0x0f in
          if \<not> extended \<and> 8 < tkl then Inl PE_BadTokenLength
          else
            let code = buf ! 1;
                mid = u16_from_be (buf ! 2) (buf ! 3);
                rest = drop 4 buf in
            and_then (if extended then decode_length tkl rest else Inr (unat tkl, 0))
              (\<lambda>(tkl_usize, prefix).
            and_then (ok_or PE_TruncatedToken (checked_add 4 prefix))
              (\<lambda>token_start.
            and_then (ok_or PE_TruncatedToken (checked_add token_start tkl_usize))
              (\<lambda>options_start.
            and_then (ok_or PE_TruncatedToken (get_range buf token_start options_start))
              (\<lambda>token_bytes.
            if code_is_empty code then
              (if tkl \<noteq> 0 \<or> options_start \<noteq> length buf then Inl PE_EmptyMessageNotEmpty
               else Inr \<lparr>pt_header = header_new version ty tkl code mid, pt_token = token_bytes,
                         pt_options = [], pt_payload = []\<rparr>)
            else
              and_then (split_options_and_payload buf options_start)
                (\<lambda>(os, payload).
                   Inr \<lparr>pt_header = header_new version ty tkl code mid, pt_token = token_bytes,
                        pt_options = os, pt_payload = payload\<rparr>))))))"

record 't parsed_message =
  pm_header :: header
  pm_token :: 't
  pm_options :: bytes
  pm_payload :: bytes

definition decode :: "bytes \<Rightarrow> parse_error + token parsed_message" where
  "decode buf =
     and_then (decode_parts buf False)
       (\<lambda>p. Inr \<lparr>pm_header = pt_header p, pm_token = token_from_checked (pt_token p),
                pm_options = pt_options p, pm_payload = pt_payload p\<rparr>)"

datatype token_decode_error = Malformed parse_error | Capacity capacity_error

definition decode_with_token ::
  "'t owned_token \<Rightarrow> bytes \<Rightarrow> token_decode_error + 't parsed_message" where
  "decode_with_token T buf =
     and_then (map_err Malformed (decode_parts buf True))
       (\<lambda>p. and_then (map_err Capacity (ot_try_from_bytes T (pt_token p)))
         (\<lambda>token. Inr \<lparr>pm_header = pt_header p, pm_token = token,
                       pm_options = pt_options p, pm_payload = pt_payload p\<rparr>))"

definition decode_without_token ::
  "'t owned_token \<Rightarrow> bytes \<Rightarrow> parse_error + 't parsed_message" where
  "decode_without_token T buf =
     and_then (decode_parts buf True)
       (\<lambda>p. Inr \<lparr>pm_header = pt_header p, pm_token = ot_EMPTY T,
                pm_options = pt_options p, pm_payload = pt_payload p\<rparr>)"

definition decode_options_payload :: "bytes \<Rightarrow> parse_error + options \<times> bytes" where
  "decode_options_payload bs =
     and_then (split_options_and_payload bs 0) (\<lambda>(os, payload). Inr (options_new os, payload))"

text \<open>The borrowed datagram of \<open>extended.rs\<close>: the parts of \<open>decode_parts\<close> under another name.\<close>

definition extended_decode :: "bytes \<Rightarrow> parse_error + parts" where
  "extended_decode buf = decode_parts buf True"

definition datagram_copy_token :: "nat \<Rightarrow> parts \<Rightarrow> capacity_error + ext_token" where
  "datagram_copy_token N d = ext_token_new N (pt_token d)"

definition datagram_with_token :: "parts \<Rightarrow> bytes \<Rightarrow> parts" where
  "datagram_with_token d token = d\<lparr>pt_token := token\<rparr>"

definition pm_iter :: "('t, 'z) parsed_message_scheme \<Rightarrow> opt list" where
  "pm_iter m = options_list (options_new (pm_options m))"

definition pm_is_empty :: "('t, 'z) parsed_message_scheme \<Rightarrow> bool" where
  "pm_is_empty m \<longleftrightarrow> code_is_empty (hdr_code (pm_header m))"

definition pm_is_empty_ack :: "('t, 'z) parsed_message_scheme \<Rightarrow> bool" where
  "pm_is_empty_ack m \<longleftrightarrow> hdr_ty (pm_header m) = Acknowledgement \<and> pm_is_empty m"

definition pm_is_empty_rst :: "('t, 'z) parsed_message_scheme \<Rightarrow> bool" where
  "pm_is_empty_rst m \<longleftrightarrow> hdr_ty (pm_header m) = Reset \<and> pm_is_empty m"

definition pm_is_empty_ack_or_rst :: "('t, 'z) parsed_message_scheme \<Rightarrow> bool" where
  "pm_is_empty_ack_or_rst m \<longleftrightarrow> pm_is_empty_ack m \<or> pm_is_empty_rst m"

text \<open>\<open>Iterator::find_map\<close> on the options, as a recursion over the list they yield.\<close>

fun find_map :: "('a \<Rightarrow> 'b option) \<Rightarrow> 'a list \<Rightarrow> 'b option" where
  "find_map f [] = None"
| "find_map f (x # xs) = (case f x of None \<Rightarrow> find_map f xs | Some y \<Rightarrow> Some y)"

definition unrecognized_critical :: "('t, 'z) parsed_message_scheme \<Rightarrow> option_number option" where
  "unrecognized_critical m =
     find_map (\<lambda>x. let n = opt_number x in
                   if is_critical n \<and> \<not> is_rfc7252 n then Some n else None) (pm_iter m)"

definition unknown_critical :: "('t, 'z) parsed_message_scheme \<Rightarrow> option_number option" where
  "unknown_critical m =
     find_map (\<lambda>x. let n = opt_number x in
                   if is_critical n \<and> \<not> is_known n then Some n else None) (pm_iter m)"

definition check_rfc7252_options :: "('t, 'z) parsed_message_scheme \<Rightarrow> parse_error + unit" where
  "check_rfc7252_options m =
     (case unrecognized_critical m of
        Some n \<Rightarrow> Inl (PE_UnrecognizedCritical n)
      | None \<Rightarrow> Inr ())"

section \<open>Layouts\<close>

record 't message_layout =
  ml_header :: header
  ml_token :: 't
  ml_wire_len :: nat
  ml_options_len :: nat
  ml_payload_len :: nat

definition pm_layout :: "'t parsed_message \<Rightarrow> nat \<Rightarrow> 't message_layout" where
  "pm_layout m wire_len =
     \<lparr>ml_header = pm_header m, ml_token = pm_token m, ml_wire_len = wire_len,
      ml_options_len = length (pm_options m), ml_payload_len = length (pm_payload m)\<rparr>"

definition layout_bind :: "'t message_layout \<Rightarrow> bytes \<Rightarrow> 't parsed_message option" where
  "layout_bind l wire =
     (if length wire \<noteq> ml_wire_len l then None
      else
        Option.bind (checked_sub (length wire) (ml_payload_len l)) (\<lambda>payload_start.
        Option.bind (checked_sub payload_start (if ml_payload_len l \<noteq> 0 then 1 else 0))
          (\<lambda>options_end.
        Option.bind (checked_sub options_end (ml_options_len l)) (\<lambda>options_start.
        Some \<lparr>pm_header = ml_header l, pm_token = ml_token l,
              pm_options = take (options_end - options_start) (drop options_start wire),
              pm_payload = drop payload_start wire\<rparr>))))"

section \<open>Encoding\<close>

record 't message =
  msg_ty :: msg_type
  msg_code :: code
  msg_id :: message_id
  msg_token :: 't
  msg_options :: "opt list"
  msg_payload :: bytes

definition message_new :: "msg_type \<Rightarrow> code \<Rightarrow> message_id \<Rightarrow> token message" where
  "message_new ty code mid =
     \<lparr>msg_ty = ty, msg_code = code, msg_id = mid, msg_token = token_EMPTY,
      msg_options = [], msg_payload = []\<rparr>"

definition message_with_token :: "'t message \<Rightarrow> 'u \<Rightarrow> 'u message" where
  "message_with_token m token =
     \<lparr>msg_ty = msg_ty m, msg_code = msg_code m, msg_id = msg_id m, msg_token = token,
      msg_options = msg_options m, msg_payload = msg_payload m\<rparr>"

definition message_empty_ack :: "message_id \<Rightarrow> token message" where
  "message_empty_ack mid = message_new Acknowledgement CODE_EMPTY mid"

definition message_empty_rst :: "message_id \<Rightarrow> token message" where
  "message_empty_rst mid = message_new Reset CODE_EMPTY mid"

definition message_con :: "code \<Rightarrow> message_id \<Rightarrow> 't \<Rightarrow> 't message" where
  "message_con code mid token = message_with_token (message_new Confirmable code mid) token"

definition message_non :: "code \<Rightarrow> message_id \<Rightarrow> 't \<Rightarrow> 't message" where
  "message_non code mid token = message_with_token (message_new NonConfirmable code mid) token"

definition message_with_options :: "'t message \<Rightarrow> opt list \<Rightarrow> 't message" where
  "message_with_options m os = m\<lparr>msg_options := os\<rparr>"

definition message_with_payload :: "'t message \<Rightarrow> bytes \<Rightarrow> 't message" where
  "message_with_payload m payload = m\<lparr>msg_payload := payload\<rparr>"

definition write_option ::
  "bytes \<Rightarrow> nat \<Rightarrow> u32 \<Rightarrow> bytes \<Rightarrow> (encode_error + nat) \<times> bytes" where
  "write_option buf i delta val =
     (case and_then (ok_or EE_OptionValueTooLong (u32_try_from (length val)))
             (\<lambda>len. and_then (ext_nibble delta)
               (\<lambda>d. and_then (ext_nibble len) (\<lambda>l. Inr (d, l)))) of
        Inl e \<Rightarrow> (Inl e, buf)
      | Inr ((dn, de, dn_n), (ln, le, ln_n)) \<Rightarrow>
          (case Option.bind (checked_add 1 dn_n)
                  (\<lambda>n. Option.bind (checked_add n ln_n) (\<lambda>n. checked_add n (length val))) of
             None \<Rightarrow> (Inl EE_BufferTooSmall, buf)
           | Some need \<Rightarrow>
               (if (case checked_add i need of None \<Rightarrow> True | Some end \<Rightarrow> length buf < end)
                then (Inl EE_BufferTooSmall, buf)
                else
                  let buf = blit buf i [push_bit 4 dn OR ln];
                      i = i + 1;
                      buf = blit buf i (take dn_n de);
                      i = i + dn_n;
                      buf = blit buf i (take ln_n le);
                      i = i + ln_n;
                      buf = blit buf i val;
                      i = i + length val
                  in (Inr i, buf))))"

fun write_options ::
  "bytes \<Rightarrow> nat \<Rightarrow> u16 \<Rightarrow> opt list \<Rightarrow> (encode_error + nat) \<times> bytes" where
  "write_options buf i prev [] = (Inr i, buf)"
| "write_options buf i prev (x # xs) =
     (let number = opt_number x in
      if number < prev then (Inl EE_OptionsNotAscending, buf)
      else
        let delta = number - prev in
        (case write_option buf i (ucast delta) (opt_value x) of
           (Inl e, buf) \<Rightarrow> (Inl e, buf)
         | (Inr i, buf) \<Rightarrow> write_options buf i number xs))"

definition write_payload :: "bytes \<Rightarrow> nat \<Rightarrow> bytes \<Rightarrow> (encode_error + nat) \<times> bytes" where
  "write_payload buf i payload =
     (if payload = [] then (Inr i, buf)
      else if length buf \<le> i then (Inl EE_BufferTooSmall, buf)
      else
        let buf = blit buf i [0xFF];
            i = i + 1 in
        (case checked_add i (length payload) of
           None \<Rightarrow> (Inl EE_BufferTooSmall, buf)
         | Some end \<Rightarrow>
             if length buf < end then (Inl EE_BufferTooSmall, buf)
             else (Inr end, blit buf i payload)))"

definition encode_token_iter ::
  "bytes \<Rightarrow> msg_type \<Rightarrow> code \<Rightarrow> message_id \<Rightarrow> bytes \<Rightarrow> opt list \<Rightarrow> bytes \<Rightarrow>
     (encode_error + nat) \<times> bytes" where
  "encode_token_iter buf ty code mid token os payload =
     (case encode_length (length token) of
        Inl e \<Rightarrow> (Inl e, buf)
      | Inr (tkl, extension, extension_len) \<Rightarrow>
          if code_is_empty code \<and> (token \<noteq> [] \<or> payload \<noteq> [] \<or> os \<noteq> [])
          then (Inl EE_EmptyMessageNotEmpty, buf)
          else
            let token_start = 4 + extension_len;
                header_end = token_start + length token in
            if length buf < header_end then (Inl EE_BufferTooSmall, buf)
            else
              let buf = buf[0 := push_bit 6 1 OR push_bit 4 (type_to_bits ty) OR tkl];
                  buf = buf[1 := code];
                  buf = buf[2 := u16_to_be mid ! 0];
                  buf = buf[3 := u16_to_be mid ! 1];
                  buf = blit buf 4 (take extension_len extension);
                  buf = blit buf token_start token in
              (case write_options buf header_end 0 os of
                 (Inl e, buf) \<Rightarrow> (Inl e, buf)
               | (Inr i, buf) \<Rightarrow> write_payload buf i payload))"

definition encode_iter ::
  "'t owned_token \<Rightarrow> bytes \<Rightarrow> msg_type \<Rightarrow> code \<Rightarrow> message_id \<Rightarrow> 't \<Rightarrow> opt list \<Rightarrow> bytes \<Rightarrow>
     (encode_error + nat) \<times> bytes" where
  "encode_iter T buf ty code mid token os payload =
     encode_token_iter buf ty code mid (ot_as_bytes T token) os payload"

definition encode :: "'t owned_token \<Rightarrow> 't message \<Rightarrow> bytes \<Rightarrow> (encode_error + nat) \<times> bytes" where
  "encode T msg buf =
     (if code_is_empty (msg_code msg) \<and>
         (\<not> ot_is_empty T (msg_token msg) \<or> msg_options msg \<noteq> [] \<or> msg_payload msg \<noteq> [])
      then (Inl EE_EmptyMessageNotEmpty, buf)
      else encode_iter T buf (msg_ty msg) (msg_code msg) (msg_id msg) (msg_token msg)
             (msg_options msg) (msg_payload msg))"

text \<open>Re-encoding a parsed view and a borrowed datagram.\<close>

definition pm_encode ::
  "'t owned_token \<Rightarrow> 't parsed_message \<Rightarrow> bytes \<Rightarrow> (encode_error + nat) \<times> bytes" where
  "pm_encode T m buf =
     encode_iter T buf (hdr_ty (pm_header m)) (hdr_code (pm_header m)) (hdr_id (pm_header m))
       (pm_token m) (pm_iter m) (pm_payload m)"

definition datagram_encode :: "parts \<Rightarrow> bytes \<Rightarrow> (encode_error + nat) \<times> bytes" where
  "datagram_encode d output =
     encode_token_iter output (hdr_ty (pt_header d)) (hdr_code (pt_header d)) (hdr_id (pt_header d))
       (pt_token d) (options_list (options_new (pt_options d))) (pt_payload d)"

section \<open>Messages from an identifier sequence\<close>

definition ids_con :: "ids \<Rightarrow> code \<Rightarrow> token \<Rightarrow> token message \<times> ids" where
  "ids_con s code token = (case ids_take s of (mid, s') \<Rightarrow> (message_con code mid token, s'))"

definition ids_non :: "ids \<Rightarrow> code \<Rightarrow> token \<Rightarrow> token message \<times> ids" where
  "ids_non s code token = (case ids_take s of (mid, s') \<Rightarrow> (message_non code mid token, s'))"

definition ids_request :: "ids \<Rightarrow> msg_type \<Rightarrow> code \<Rightarrow> token \<Rightarrow> token message option \<times> ids" where
  "ids_request s ty code token =
     (if ty = Confirmable \<or> ty = NonConfirmable
      then (case ids_take s of
              (mid, s') \<Rightarrow> (Some (message_with_token (message_new ty code mid) token), s'))
      else (None, s))"

end
