(* ===== verification/Msg_Wire.thy ===== *)
theory Msg_Wire
  imports Msg_Codec
begin

text \<open>
  The abstract wire format of a datagram and the correctness of the codec against it.

  \<open>wire_message\<close> says which byte string a message is. The encoder refines it (it writes exactly
  these bytes, or reports why it cannot), the decoder accepts exactly these byte strings, and both
  directions of the round trip follow.
\<close>

section \<open>Lists of options on the wire\<close>

fun wire_options :: "nat \<Rightarrow> opt list \<Rightarrow> bytes" where
  "wire_options p [] = []"
| "wire_options p (x # xs) =
     wire_option (unat (opt_number x) - p) (opt_value x) @ wire_options (unat (opt_number x)) xs"

fun ascending :: "nat \<Rightarrow> opt list \<Rightarrow> bool" where
  "ascending p [] = True"
| "ascending p (x # xs) = (p \<le> unat (opt_number x) \<and> ascending (unat (opt_number x)) xs)"

definition values_ok :: "opt list \<Rightarrow> bool" where
  "values_ok xs \<longleftrightarrow> list_all (\<lambda>x. length (opt_value x) \<le> max_extended) xs"

definition wire_payload :: "bytes \<Rightarrow> bytes" where
  "wire_payload pl = (if pl = [] then [] else 0xFF # pl)"

lemma values_ok_simps [simp]:
  "values_ok []"
  "values_ok (x # xs) \<longleftrightarrow> length (opt_value x) \<le> max_extended \<and> values_ok xs"
  by (simp_all add: values_ok_def)

lemma ascending_sorted: "ascending 0 xs \<longleftrightarrow> sorted (map (unat \<circ> opt_number) xs)"
proof -
  have "ascending p xs \<longleftrightarrow> sorted (p # map (unat \<circ> opt_number) xs)" for p
    by (induction xs arbitrary: p) (auto intro: order.trans)
  then show ?thesis by simp
qed

lemma read_option_wire_opt:
  assumes "unat prev \<le> unat (opt_number x)" "length (opt_value x) \<le> max_extended"
    "length (pre @ wire_option (unat (opt_number x) - unat prev) (opt_value x) @ rest) \<le> usize_max"
  shows "read_option (pre @ wire_option (unat (opt_number x) - unat prev) (opt_value x) @ rest)
           (length pre) prev =
         (Inr x, length pre + length (wire_option (unat (opt_number x) - unat prev) (opt_value x)),
          ucast (opt_number x))"
proof -
  let ?d = "unat (opt_number x) - unat prev"
  have le: "unat prev + ?d \<le> 65535" "unat prev + ?d = unat (opt_number x)"
    using assms(1) u16_bound [of "opt_number x"] by linarith+
  have "(of_nat (unat (opt_number x)) :: u16) = opt_number x" by simp
  moreover have "prev + of_nat ?d = ucast (opt_number x)"
    using assms(1) le by (simp add: word_unat_eq_iff unat_ucast_le unat_word_ariths unat_of_nat)
  ultimately show ?thesis
    unfolding read_option_wire [OF le(1) assms(2,3)] le(2) by (simp add: opt_new_def)
qed

lemma read_option_sound_opt:
  assumes "read_option bs i prev = (Inr x, i', prev')"
  shows "unat prev \<le> unat (opt_number x) \<and> prev' = ucast (opt_number x) \<and>
         length (opt_value x) \<le> max_extended \<and> i' \<le> length bs \<and>
         i' = i + length (wire_option (unat (opt_number x) - unat prev) (opt_value x)) \<and>
         drop i bs = wire_option (unat (opt_number x) - unat prev) (opt_value x) @ drop i' bs"
proof -
  obtain d where d: "unat prev + d \<le> 65535" "prev' = prev + of_nat d"
      "x = opt_new (of_nat (unat prev + d)) (opt_value x)"
    and rest: "length (opt_value x) \<le> max_extended" "i' \<le> length bs"
      "i' = i + length (wire_option d (opt_value x))"
      "drop i bs = wire_option d (opt_value x) @ drop i' bs"
    using read_option_sound [OF assms] by blast
  have "opt_number x = of_nat (unat prev + d)"
    using arg_cong [OF d(3), of opt_number] by (simp add: opt_new_def)
  then have n: "unat (opt_number x) = unat prev + d"
    using d(1) by (simp only: unat_of_nat_u16)
  moreover have "prev + of_nat d = ucast (opt_number x)"
    using d(1) n by (simp add: word_unat_eq_iff unat_ucast_le unat_word_ariths unat_of_nat)
  ultimately show ?thesis using d(2) rest by simp
qed

lemma options_list_unfold:
  "i < length bs \<Longrightarrow> read_option bs i prev = (Inr x, i', prev') \<Longrightarrow>
   options_list \<lparr>os_bytes = bs, os_i = i, os_prev = prev\<rparr> =
     x # options_list \<lparr>os_bytes = bs, os_i = i', os_prev = prev'\<rparr>"
  by (subst options_list.simps) (simp add: options_next_def)

lemma options_list_end:
  "options_list \<lparr>os_bytes = bs, os_i = length bs, os_prev = prev\<rparr> = []"
  by (subst options_list.simps) (simp add: options_next_def)

lemma options_list_wire:
  "ascending (unat prev) xs \<Longrightarrow> values_ok xs \<Longrightarrow>
   length (pre @ wire_options (unat prev) xs) \<le> usize_max \<Longrightarrow>
   options_list \<lparr>os_bytes = pre @ wire_options (unat prev) xs, os_i = length pre, os_prev = prev\<rparr> = xs"
proof (induction xs arbitrary: pre prev)
  case Nil
  then show ?case using options_list_end [of pre prev] by simp
next
  case (Cons x xs)
  let ?w = "wire_option (unat (opt_number x) - unat prev) (opt_value x)"
  let ?r = "wire_options (unat (opt_number x)) xs"
  have n: "unat (ucast (opt_number x) :: u32) = unat (opt_number x)"
    by (simp add: unat_ucast_le)
  have "read_option (pre @ ?w @ ?r) (length pre) prev =
      (Inr x, length pre + length ?w, ucast (opt_number x))"
    using Cons.prems by (intro read_option_wire_opt) simp_all
  from options_list_unfold [OF _ this] show ?case
    using Cons.IH [of "ucast (opt_number x)" "pre @ ?w"] Cons.prems n by simp
qed

lemma split_loop_wire:
  "ascending (unat prev) xs \<Longrightarrow> values_ok xs \<Longrightarrow> start \<le> length pre \<Longrightarrow>
   length (pre @ wire_options (unat prev) xs @ wire_payload pl) \<le> usize_max \<Longrightarrow>
   split_loop (pre @ wire_options (unat prev) xs @ wire_payload pl) start (length pre) prev =
     Inr (drop start pre @ wire_options (unat prev) xs, pl)"
proof (induction xs arbitrary: pre prev)
  case Nil
  then show ?case
    by (subst split_loop.simps) (simp add: wire_payload_def get_range_def)
next
  case (Cons x xs)
  let ?w = "wire_option (unat (opt_number x) - unat prev) (opt_value x)"
  let ?r = "wire_options (unat (opt_number x)) xs"
  let ?bs = "pre @ ?w @ ?r @ wire_payload pl"
  have n: "unat (ucast (opt_number x) :: u32) = unat (opt_number x)"
    by (simp add: unat_ucast_le)
  have "read_option ?bs (length pre) prev =
      (Inr x, length pre + length ?w, ucast (opt_number x))"
    using Cons.prems by (intro read_option_wire_opt) simp_all
  moreover have "?bs ! length pre \<noteq> 0xFF" "length pre < length ?bs"
    using wire_head_not_marker by (simp_all add: wire_option_def)
  ultimately have "split_loop ?bs start (length pre) prev =
      split_loop ?bs start (length pre + length ?w) (ucast (opt_number x))"
    by (subst split_loop.simps) simp
  then show ?case
    using Cons.IH [of "ucast (opt_number x)" "pre @ ?w"] Cons.prems n by simp
qed

lemma split_loop_sound:
  "split_loop bs start i prev = Inr (os, pl) \<Longrightarrow> start \<le> i \<Longrightarrow> i \<le> length bs \<Longrightarrow>
   \<exists>xs. ascending (unat prev) xs \<and> values_ok xs \<and>
        drop i bs = wire_options (unat prev) xs @ wire_payload pl \<and>
        os = drop start (take i bs) @ wire_options (unat prev) xs"
proof (induction bs start i prev rule: split_loop.induct)
  case (1 bs start i prev)
  show ?case
  proof (cases "i < length bs \<and> bs ! i \<noteq> 0xFF")
    case False
    then show ?thesis
      using "1.prems" by (intro exI [of _ "[]"])
        (auto simp: split_loop.simps [of bs] get_range_Some_iff wire_payload_def drop_take
          Cons_nth_drop_Suc [symmetric] split: if_splits option.splits)
  next
    case True
    then obtain x i' prev' where r: "read_option bs i prev = (Inr x, i', prev')"
      and s: "split_loop bs start i' prev' = Inr (os, pl)"
      using "1.prems"(1) by (auto simp: split_loop.simps [of bs start i] split: prod.splits sum.splits)
    note f = read_option_sound_opt [OF r]
    let ?w = "wire_option (unat (opt_number x) - unat prev) (opt_value x)"
    obtain xs where xs: "ascending (unat prev') xs" "values_ok xs"
        "drop i' bs = wire_options (unat prev') xs @ wire_payload pl"
        "os = drop start (take i' bs) @ wire_options (unat prev') xs"
      using "1.IH" [of "Inr x" "(i', prev')" x i' prev'] True r s "1.prems"(2) f
      by auto
    have p: "unat prev' = unat (opt_number x)" using f by (simp add: unat_ucast_le)
    have "take i' bs = take i bs @ ?w"
      using f by (metis append_eq_conv_conj take_add)
    then have "drop start (take i' bs) = drop start (take i bs) @ ?w"
      using "1.prems"(2,3) by simp
    with xs f p show ?thesis by (intro exI [of _ "x # xs"]) simp
  qed
qed

section \<open>Datagrams on the wire\<close>

definition wire_header :: "msg_type \<Rightarrow> nat \<Rightarrow> code \<Rightarrow> message_id \<Rightarrow> bytes" where
  "wire_header ty tkl code mid =
     of_nat (64 + 16 * unat (type_to_bits ty) + tkl) # code # u16_to_be mid"

definition wire_message ::
  "msg_type \<Rightarrow> code \<Rightarrow> message_id \<Rightarrow> bytes \<Rightarrow> opt list \<Rightarrow> bytes \<Rightarrow> bytes" where
  "wire_message ty code mid token os payload =
     wire_header ty (wire_nibble (length token)) code mid @ wire_ext (length token) @ token @
     wire_options 0 os @ wire_payload payload"

text \<open>What a message has to satisfy to have a datagram at all.\<close>

definition message_ok :: "code \<Rightarrow> bytes \<Rightarrow> opt list \<Rightarrow> bytes \<Rightarrow> bool" where
  "message_ok code token os payload \<longleftrightarrow>
     length token \<le> max_extended \<and>
     (code_is_empty code \<longrightarrow> token = [] \<and> os = [] \<and> payload = []) \<and>
     ascending 0 os \<and> values_ok os"

lemma length_wire_header [simp]: "length (wire_header ty tkl code mid) = 4"
  by (simp add: wire_header_def)

section \<open>The encoder refines the wire format\<close>

lemma ext_nibble_ok:
  assumes "unat n \<le> max_extended"
  shows "\<exists>e. ext_nibble n = Inr (of_nat (wire_nibble (unat n)), e, length (wire_ext (unat n))) \<and>
             take (length (wire_ext (unat n))) e = wire_ext (unat n)"
proof -
  consider "unat n < 13" | "13 \<le> unat n" "unat n < 269" | "269 \<le> unat n" by linarith
  then show ?thesis
  proof cases
    case 1
    then have "(ucast n :: u8) = of_nat (unat n)"
      by (simp add: word_unat_eq_iff unsigned_ucast_eq take_bit_nat_eq_self_iff unat_of_nat)
    with 1 show ?thesis by (simp add: ext_nibble_def wire_nibble_def wire_ext_def word_less_nat_alt)
  next
    case 2
    then have "unat (n - 13) = unat n - 13"
      by (subst unat_sub) (simp_all add: word_le_nat_alt)
    then have "(ucast (n - 13) :: u8) = of_nat (unat n - 13)"
      by (metis of_nat_unat ucast_id unsigned_ucast_eq word_unat_eq_iff)
    with 2 show ?thesis by (simp add: ext_nibble_def wire_nibble_def wire_ext_def word_less_nat_alt)
  next
    case 3
    define e where "e = n - 269"
    have "unat e = unat n - 269"
      unfolding e_def using 3 by (subst unat_sub) (simp_all add: word_le_nat_alt)
    then have e: "of_nat (unat n - 269) = (ucast e :: u16)"
      by (metis of_nat_unat)
    have "e AND 255 = take_bit 8 e" by (simp add: take_bit_eq_mask mask_eq_exp_minus_1)
    then have "u16_to_be (ucast e) = [ucast (drop_bit 8 e), ucast (e AND 255)]"
      unfolding u16_to_be_def by (auto intro!: bit_word_eqI simp: bit_simps)
    with 3 assms e show ?thesis
      by (simp add: ext_nibble_def wire_nibble_def wire_ext_def word_less_nat_alt word_le_nat_alt
          MAX_EXTENDED_def max_extended_def Let_def flip: e_def)
  qed
qed

lemma ext_nibble_err: "max_extended < unat n \<Longrightarrow> ext_nibble n = Inl EE_OptionValueTooLong"
  by (simp add: ext_nibble_def word_less_nat_alt word_le_nat_alt max_extended_def MAX_EXTENDED_def)

lemma encode_length_ok:
  assumes "n \<le> max_extended"
  shows "\<exists>e. encode_length n = Inr (of_nat (wire_nibble n), e, length (wire_ext n)) \<and>
             take (length (wire_ext n)) e = wire_ext n"
proof -
  have u: "unat (of_nat n :: u32) = n" using assms by (simp add: unat_of_nat max_extended_def)
  show ?thesis
    using ext_nibble_ok [of "of_nat n"] assms unfolding u
    by (auto simp: encode_length_def u32_try_from_def max_extended_def)
qed

lemma encode_length_err: "max_extended < n \<Longrightarrow> encode_length n = Inl EE_TokenTooLong"
proof (cases "n < 2 ^ 32")
  case True
  assume n: "max_extended < n"
  have "unat (of_nat n :: u32) = n" using True by (simp add: unat_of_nat)
  with n True show ?thesis
    by (simp add: encode_length_def u32_try_from_def ext_nibble_err)
next
  case False
  then show ?thesis by (simp add: encode_length_def u32_try_from_def)
qed

lemma wire_ext_length_le: "length (wire_ext n) \<le> 2"
  by (simp add: wire_ext_def)

lemma write_option_ok:
  assumes "unat delta \<le> max_extended" "length v \<le> max_extended"
    and fits: "i + length (wire_option (unat delta) v) \<le> length buf" and "length buf \<le> usize_max"
  shows "write_option buf i delta v =
           (Inr (i + length (wire_option (unat delta) v)), blit buf i (wire_option (unat delta) v))"
proof -
  let ?d = "unat delta" and ?l = "length v"
  have u: "unat (of_nat ?l :: u32) = ?l"
    using assms(2) by (simp add: unat_of_nat max_extended_def)
  have t: "u32_try_from ?l = Some (of_nat ?l)"
    using assms(2) by (simp add: u32_try_from_def max_extended_def)
  obtain de where de: "ext_nibble delta = Inr (of_nat (wire_nibble ?d), de, length (wire_ext ?d))"
      "take (length (wire_ext ?d)) de = wire_ext ?d"
    using ext_nibble_ok [OF assms(1)] by blast
  obtain le where le: "ext_nibble (of_nat ?l) = Inr (of_nat (wire_nibble ?l), le, length (wire_ext ?l))"
      "take (length (wire_ext ?l)) le = wire_ext ?l"
    using ext_nibble_ok [of "of_nat ?l"] assms(2) unfolding u by blast
  have nib: "unat (of_nat (wire_nibble n) :: u8) = wire_nibble n" for n
    using wire_nibble_less [of n] by (intro unat_of_nat_u8) simp
  define h :: u8 where "h = of_nat (16 * wire_nibble ?d + wire_nibble ?l)"
  have head: "push_bit 4 (of_nat (wire_nibble ?d)) OR of_nat (wire_nibble ?l) = h"
    unfolding word_unat_eq_iff unat_wire_head h_def
    using wire_nibble_less [of ?d] wire_nibble_less [of ?l] by (subst unat_nibbles) (simp_all add: nib)
  have w: "wire_option ?d v = [h] @ wire_ext ?d @ wire_ext ?l @ v"
    by (simp add: wire_option_def h_def)
  have b: "blit (blit (blit (blit buf i [h]) (i + 1) (wire_ext ?d))
             (i + 1 + length (wire_ext ?d)) (wire_ext ?l))
             (i + 1 + length (wire_ext ?d) + length (wire_ext ?l)) v =
           blit buf i (wire_option ?d v)"
    using fits blit_blit [of i "[h]" "wire_ext ?d" buf]
      blit_blit [of i "[h] @ wire_ext ?d" "wire_ext ?l" buf]
      blit_blit [of i "[h] @ wire_ext ?d @ wire_ext ?l" v buf]
    by (simp add: w add.assoc)
  show ?thesis
    using fits assms(4) b
    by (simp add: write_option_def t de le head checked_add_def Let_def)
qed

lemma write_option_small:
  assumes "unat delta \<le> max_extended" "length v \<le> max_extended"
    and "length buf < i + length (wire_option (unat delta) v)"
  shows "write_option buf i delta v = (Inl EE_BufferTooSmall, buf)"
proof -
  let ?d = "unat delta" and ?l = "length v"
  have u: "unat (of_nat ?l :: u32) = ?l" "u32_try_from ?l = Some (of_nat ?l)"
    using assms(2) by (simp_all add: u32_try_from_def unat_of_nat max_extended_def)
  obtain de le where e: "ext_nibble delta = Inr (of_nat (wire_nibble ?d), de, length (wire_ext ?d))"
      "ext_nibble (of_nat ?l) = Inr (of_nat (wire_nibble ?l), le, length (wire_ext ?l))"
    using ext_nibble_ok [OF assms(1)] ext_nibble_ok [of "of_nat ?l"] assms(2) unfolding u by blast
  show ?thesis
    using assms(3) by (simp add: write_option_def u e checked_add_def)
qed

lemma write_option_long:
  assumes "unat delta \<le> max_extended" "max_extended < length v"
  shows "write_option buf i delta v = (Inl EE_OptionValueTooLong, buf)"
proof (cases "length v < 2 ^ 32")
  case True
  then have "unat (of_nat (length v) :: u32) = length v" by (simp add: unat_of_nat)
  then have "ext_nibble (of_nat (length v)) = Inl EE_OptionValueTooLong"
    using assms(2) by (simp add: ext_nibble_err)
  with True show ?thesis
    using ext_nibble_ok [OF assms(1)] by (auto simp: write_option_def u32_try_from_def)
next
  case False
  then show ?thesis by (simp add: write_option_def u32_try_from_def)
qed

lemma write_option_cases:
  assumes "unat delta \<le> max_extended" "length buf \<le> usize_max"
  obtains
    (ok) "length v \<le> max_extended" "i + length (wire_option (unat delta) v) \<le> length buf"
      "write_option buf i delta v =
         (Inr (i + length (wire_option (unat delta) v)), blit buf i (wire_option (unat delta) v))"
  | (long) "max_extended < length v" "write_option buf i delta v = (Inl EE_OptionValueTooLong, buf)"
  | (small) "length buf < i + length (wire_option (unat delta) v)"
      "write_option buf i delta v = (Inl EE_BufferTooSmall, buf)"
  using write_option_ok [OF assms(1) _ _ assms(2)] write_option_small [OF assms(1)]
    write_option_long [OF assms(1)]
  by (metis linorder_not_le)

lemma delta_bound [simp]: "unat (ucast (d :: u16) :: u32) \<le> max_extended"
  using u16_bound [of d] unfolding max_extended_def by (simp add: unat_ucast_le)

lemma unat_delta:
  "\<not> number < prev \<Longrightarrow> unat (ucast (number - prev :: u16) :: u32) = unat number - unat prev"
  by (simp add: unat_ucast_le unat_sub not_less)

lemma write_options_ok:
  "ascending (unat prev) xs \<Longrightarrow> values_ok xs \<Longrightarrow> length buf \<le> usize_max \<Longrightarrow>
   i + length (wire_options (unat prev) xs) \<le> length buf \<Longrightarrow>
   write_options buf i prev xs =
     (Inr (i + length (wire_options (unat prev) xs)), blit buf i (wire_options (unat prev) xs))"
proof (induction xs arbitrary: buf i prev)
  case Nil
  then show ?case by simp
next
  case (Cons x xs)
  let ?d = "ucast (opt_number x - prev) :: u32"
  let ?w = "wire_option (unat ?d) (opt_value x)"
  have n: "\<not> opt_number x < prev" using Cons.prems by (simp add: word_less_nat_alt)
  note d = unat_delta [OF n]
  have "write_option buf i ?d (opt_value x) = (Inr (i + length ?w), blit buf i ?w)"
    using Cons.prems d by (intro write_option_ok delta_bound) simp_all
  moreover have "write_options (blit buf i ?w) (i + length ?w) (opt_number x) xs =
      (Inr (i + length ?w + length (wire_options (unat (opt_number x)) xs)),
       blit (blit buf i ?w) (i + length ?w) (wire_options (unat (opt_number x)) xs))"
    using Cons.prems d by (intro Cons.IH) simp_all
  moreover have "blit (blit buf i ?w) (i + length ?w) (wire_options (unat (opt_number x)) xs) =
      blit buf i (?w @ wire_options (unat (opt_number x)) xs)"
    using Cons.prems d by (intro blit_blit) simp
  ultimately show ?case using n d by (simp add: add.assoc Let_def)
qed

lemma write_options_inv:
  "write_options buf i prev xs = (Inr n, buf') \<Longrightarrow> i \<le> length buf \<Longrightarrow> length buf \<le> usize_max \<Longrightarrow>
   ascending (unat prev) xs \<and> values_ok xs \<and> n = i + length (wire_options (unat prev) xs) \<and>
   n \<le> length buf"
proof (induction xs arbitrary: buf i prev)
  case Nil
  then show ?case by simp
next
  case (Cons x xs)
  let ?d = "ucast (opt_number x - prev) :: u32"
  have n: "\<not> opt_number x < prev" using Cons.prems by (auto simp: Let_def split: if_splits)
  note d = unat_delta [OF n]
  show ?case
  proof (cases rule: write_option_cases [OF delta_bound Cons.prems(3),
        of "opt_value x" i "opt_number x - prev"])
    case 1
    then have "write_options (blit buf i (wire_option (unat ?d) (opt_value x)))
        (i + length (wire_option (unat ?d) (opt_value x))) (opt_number x) xs = (Inr n, buf')"
      using Cons.prems n by (simp add: Let_def)
    from Cons.IH [OF this] show ?thesis using 1 Cons.prems n d by (simp add: word_less_nat_alt)
  qed (use Cons.prems n in \<open>simp_all add: Let_def\<close>)
qed

lemma write_options_length:
  "length buf \<le> usize_max \<Longrightarrow> length (snd (write_options buf i prev xs)) = length buf"
proof (induction xs arbitrary: buf i prev)
  case Nil
  then show ?case by simp
next
  case (Cons x xs)
  then show ?case
    by (cases rule: write_option_cases [OF delta_bound Cons.prems,
          of "opt_value x" i "opt_number x - prev"]) (auto simp: Let_def)
qed

lemma write_options_small:
  "ascending (unat prev) xs \<Longrightarrow> values_ok xs \<Longrightarrow> length buf \<le> usize_max \<Longrightarrow> i \<le> length buf \<Longrightarrow>
   length buf < i + length (wire_options (unat prev) xs) \<Longrightarrow>
   fst (write_options buf i prev xs) = Inl EE_BufferTooSmall"
proof (induction xs arbitrary: buf i prev)
  case Nil
  then show ?case by simp
next
  case (Cons x xs)
  have n: "\<not> opt_number x < prev" using Cons.prems by (simp add: word_less_nat_alt)
  note d = unat_delta [OF n]
  show ?case
  proof (cases rule: write_option_cases [OF delta_bound Cons.prems(3),
        of "opt_value x" i "opt_number x - prev"])
    case 1
    with Cons.prems n d show ?thesis by (simp add: Cons.IH Let_def)
  qed (use Cons.prems n in \<open>simp_all add: Let_def\<close>)
qed

lemma write_payload_ok:
  assumes "i + length (wire_payload pl) \<le> length buf" "length buf \<le> usize_max"
  shows "write_payload buf i pl = (Inr (i + length (wire_payload pl)), blit buf i (wire_payload pl))"
proof (cases "pl = []")
  case True
  then show ?thesis by (simp add: write_payload_def wire_payload_def)
next
  case False
  then show ?thesis
    using assms blit_blit [of i "[0xFF]" pl buf]
    by (simp add: write_payload_def wire_payload_def checked_add_def Let_def)
qed

lemma write_payload_small:
  assumes "length buf < i + length (wire_payload pl)" "i \<le> length buf"
  shows "fst (write_payload buf i pl) = Inl EE_BufferTooSmall"
  using assms by (cases "pl = []") (auto simp: write_payload_def wire_payload_def checked_add_def Let_def)

lemma write_payload_length:
  "i \<le> length buf \<Longrightarrow> length (snd (write_payload buf i pl)) = length buf"
  by (auto simp: write_payload_def checked_add_def Let_def)

lemma update_four:
  assumes "4 \<le> length buf"
  shows "buf[0 := a, Suc 0 := b, 2 := c, 3 := d] = blit buf 0 [a, b, c, d]"
proof -
  obtain w x y z r where "buf = w # x # y # z # r"
    using assms by (auto simp: numeral_eq_Suc Suc_le_length_iff)
  then show ?thesis by (simp add: blit_def numeral_eq_Suc)
qed

lemma header_byte:
  assumes "t < 16"
  shows "push_bit 6 1 OR push_bit 4 (type_to_bits ty) OR of_nat t =
           (of_nat (64 + 16 * unat (type_to_bits ty) + t) :: u8)" (is "?l = ?r")
proof -
  have "push_bit 6 1 OR push_bit 4 (type_to_bits ty) = push_bit 4 (4 + type_to_bits ty)"
    by (cases ty) simp_all
  then have "?l = push_bit 4 (4 + type_to_bits ty) OR of_nat t"
    by (simp flip: or.assoc)
  also have "unat \<dots> = 16 * unat (4 + type_to_bits ty) + t"
    using assms by (subst unat_nibbles) (cases ty, simp_all add: unat_of_nat)
  also have "16 * unat (4 + type_to_bits ty) = 64 + 16 * unat (type_to_bits ty)"
    by (cases ty) simp_all
  also have "64 + 16 * unat (type_to_bits ty) + t = unat ?r"
    using assms type_to_bits_bound [of ty] by (intro unat_of_nat_u8 [symmetric]) linarith
  finally show ?thesis by (simp only: word_unat_eq_iff)
qed

text \<open>The fixed part of a datagram: header, token-length extension, token.\<close>

definition wire_prefix :: "msg_type \<Rightarrow> code \<Rightarrow> message_id \<Rightarrow> bytes \<Rightarrow> bytes" where
  "wire_prefix ty code mid token =
     wire_header ty (wire_nibble (length token)) code mid @ wire_ext (length token) @ token"

lemma wire_message_prefix:
  "wire_message ty code mid token os payload =
     wire_prefix ty code mid token @ wire_options 0 os @ wire_payload payload"
  by (simp add: wire_message_def wire_prefix_def)

lemma encode_unfold:
  assumes tok: "length token \<le> max_extended"
    and ne: "code_is_empty code \<longrightarrow> token = [] \<and> os = [] \<and> payload = []"
    and fits: "length (wire_prefix ty code mid token) \<le> length buf"
  shows "encode_token_iter buf ty code mid token os payload =
     (case write_options (blit buf 0 (wire_prefix ty code mid token))
             (length (wire_prefix ty code mid token)) 0 os of
        (Inl e, buf) \<Rightarrow> (Inl e, buf)
      | (Inr i, buf) \<Rightarrow> write_payload buf i payload)"
proof -
  let ?n = "length token" and ?h = "wire_header ty (wire_nibble (length token)) code mid"
  obtain e where e: "encode_length ?n = Inr (of_nat (wire_nibble ?n), e, length (wire_ext ?n))"
      "take (length (wire_ext ?n)) e = wire_ext ?n"
    using encode_length_ok [OF tok] by blast
  have len: "4 + length (wire_ext ?n) + ?n \<le> length buf"
    using fits by (simp add: wire_prefix_def)
  have h: "buf[0 := push_bit 6 1 OR push_bit 4 (type_to_bits ty) OR of_nat (wire_nibble ?n),
      Suc 0 := code, 2 := u16_to_be mid ! 0, 3 := u16_to_be mid ! Suc 0] = blit buf 0 ?h"
  proof -
    have "wire_nibble ?n < 16" using wire_nibble_less [of ?n] by simp
    note b = header_byte [OF this, of ty]
    show ?thesis
      unfolding b using len
      by (subst update_four) (simp_all add: wire_header_def u16_to_be_def)
  qed
  have "blit (blit (blit buf 0 ?h) 4 (wire_ext ?n)) (4 + length (wire_ext ?n)) token =
      blit buf 0 (wire_prefix ty code mid token)"
    using len blit_blit [of 0 ?h "wire_ext ?n" buf] blit_blit [of 0 "?h @ wire_ext ?n" token buf]
    by (simp add: wire_prefix_def del: blit_0)
  moreover have "(code_is_empty code \<and> (token \<noteq> [] \<or> payload \<noteq> [] \<or> os \<noteq> [])) = False"
    using ne by blast
  moreover have "4 + length (wire_ext ?n) + ?n = length (wire_prefix ty code mid token)"
    by (simp add: wire_prefix_def)
  ultimately show ?thesis
    using fits unfolding encode_token_iter_def e by (simp only: if_False) (simp add: e Let_def h [simplified] del: blit_0)
qed

lemma encode_too_small_prefix:
  assumes "length token \<le> max_extended"
    and "code_is_empty code \<longrightarrow> token = [] \<and> os = [] \<and> payload = []"
    and "length buf < length (wire_prefix ty code mid token)"
  shows "encode_token_iter buf ty code mid token os payload = (Inl EE_BufferTooSmall, buf)"
proof -
  obtain e where "encode_length (length token) =
      Inr (of_nat (wire_nibble (length token)), e, length (wire_ext (length token)))"
    using encode_length_ok [OF assms(1)] by blast
  then show ?thesis
    using assms by (auto simp: encode_token_iter_def wire_prefix_def Let_def)
qed

lemma encode_ok:
  assumes ok: "message_ok code token os payload"
    and fits: "length (wire_message ty code mid token os payload) \<le> length buf"
    and slice: "length buf \<le> usize_max"
  shows "encode_token_iter buf ty code mid token os payload =
     (Inr (length (wire_message ty code mid token os payload)),
      wire_message ty code mid token os payload @
      drop (length (wire_message ty code mid token os payload)) buf)"
proof -
  let ?p = "wire_prefix ty code mid token" and ?o = "wire_options 0 os"
  let ?b = "blit buf 0 ?p"
  have f: "length ?p + length ?o + length (wire_payload payload) \<le> length buf"
    using fits by (simp add: wire_message_prefix)
  have o: "write_options ?b (length ?p) 0 os = (Inr (length ?p + length ?o), blit buf 0 (?p @ ?o))"
    using write_options_ok [of 0 os ?b "length ?p"] ok f slice blit_blit [of 0 ?p ?o buf]
    by (simp add: message_ok_def del: blit_0)
  have p: "write_payload (blit buf 0 (?p @ ?o)) (length ?p + length ?o) payload =
      (Inr (length (wire_message ty code mid token os payload)),
       blit buf 0 (wire_message ty code mid token os payload))"
    using write_payload_ok [of "length ?p + length ?o" payload "blit buf 0 (?p @ ?o)"] f slice
      blit_blit [of 0 "?p @ ?o" "wire_payload payload" buf]
    by (simp add: wire_message_prefix add.assoc del: blit_0)
  have "encode_token_iter buf ty code mid token os payload =
      (Inr (length (wire_message ty code mid token os payload)),
       blit buf 0 (wire_message ty code mid token os payload))"
    using ok f by (subst encode_unfold) (simp_all add: message_ok_def o p del: blit_0)
  then show ?thesis using fits by simp
qed

lemma encode_inv:
  assumes enc: "encode_token_iter buf ty code mid token os payload = (Inr n, buf')"
    and slice: "length buf \<le> usize_max"
  shows "message_ok code token os payload \<and>
         n = length (wire_message ty code mid token os payload) \<and> n \<le> length buf"
proof -
  let ?p = "wire_prefix ty code mid token" and ?o = "wire_options 0 os"
  let ?b = "blit buf 0 ?p"
  have tok: "length token \<le> max_extended"
    using enc encode_length_err [of "length token"]
    by (fastforce simp: encode_token_iter_def not_le [symmetric])
  have ne: "code_is_empty code \<longrightarrow> token = [] \<and> os = [] \<and> payload = []"
    using enc by (auto simp: encode_token_iter_def split: sum.splits if_splits)
  have fit: "length ?p \<le> length buf"
    using enc encode_too_small_prefix [OF tok ne, of buf ty mid] by (metis Inl_Inr_False linorder_not_le prod.inject)
  obtain i b' where o: "write_options ?b (length ?p) 0 os = (Inr i, b')"
    and p: "write_payload b' i payload = (Inr n, buf')"
    using enc unfolding encode_unfold [OF tok ne fit]
    by (auto split: prod.splits sum.splits)
  have lb: "length ?b = length buf" using fit by simp
  have oi: "ascending 0 os" "values_ok os" "i = length ?p + length ?o" "i \<le> length buf"
    using write_options_inv [OF o] fit lb slice by simp_all
  have b': "length b' = length buf"
    using write_options_length [of ?b "length ?p" 0 os] o lb slice by simp
  have "i + length (wire_payload payload) \<le> length buf"
    using write_payload_small [of b' i payload] p oi b' by force
  with oi p b' slice tok ne show ?thesis
    using write_payload_ok [of i payload b'] by (simp add: message_ok_def wire_message_prefix)
qed

lemma encode_small:
  assumes ok: "message_ok code token os payload" and slice: "length buf \<le> usize_max"
    and small: "length buf < length (wire_message ty code mid token os payload)"
  shows "fst (encode_token_iter buf ty code mid token os payload) = Inl EE_BufferTooSmall"
proof (cases "length (wire_prefix ty code mid token) \<le> length buf")
  case False
  then show ?thesis using ok by (subst encode_too_small_prefix) (simp_all add: message_ok_def)
next
  case True
  let ?p = "wire_prefix ty code mid token" and ?o = "wire_options 0 os"
  let ?b = "blit buf 0 ?p"
  have lb: "length ?b = length buf" using True by simp
  have u: "encode_token_iter buf ty code mid token os payload =
      (case write_options ?b (length ?p) 0 os of
         (Inl e, buf) \<Rightarrow> (Inl e, buf) | (Inr i, buf) \<Rightarrow> write_payload buf i payload)"
    using ok True by (intro encode_unfold) (simp_all add: message_ok_def)
  show ?thesis
  proof (cases "length ?p + length ?o \<le> length buf")
    case True
    then show ?thesis
      using ok small lb slice write_options_ok [of 0 os ?b "length ?p"] unfolding u
      by (simp add: message_ok_def wire_message_prefix write_payload_small del: blit_0)
  next
    case False
    then have "fst (write_options ?b (length ?p) 0 os) = Inl EE_BufferTooSmall"
      using ok lb slice True by (intro write_options_small) (simp_all add: message_ok_def del: blit_0)
    then show ?thesis unfolding u by (auto split: prod.splits sum.splits)
  qed
qed

lemma encode_keeps_length:
  assumes "length buf \<le> usize_max"
  shows "length (snd (encode_token_iter buf ty code mid token os payload)) = length buf"
proof (cases "length token \<le> max_extended \<and> \<not> (code_is_empty code \<and> (token \<noteq> [] \<or> os \<noteq> [] \<or> payload \<noteq> [])) \<and>
    length (wire_prefix ty code mid token) \<le> length buf")
  case True
  let ?p = "wire_prefix ty code mid token"
  let ?b = "blit buf 0 ?p"
  have lb: "length ?b = length buf" using True by simp
  obtain r b' where o: "write_options ?b (length ?p) 0 os = (r, b')" by fastforce
  have b': "length b' = length buf"
    using write_options_length [of ?b "length ?p" 0 os] o lb assms by simp
  have "r = Inr i \<Longrightarrow> i \<le> length b'" for i
    using write_options_inv [of ?b "length ?p" 0 os i b'] o True lb assms b' by simp
  then show ?thesis
    using True b' by (subst encode_unfold) (auto simp: o write_payload_length split: sum.splits simp del: blit_0)
next
  case False
  then show ?thesis
    using encode_length_err [of "length token"] encode_too_small_prefix [of token code os payload buf ty mid]
    by (cases "length token \<le> max_extended") (auto simp: encode_token_iter_def not_le split: sum.splits)
qed

end
