(* ===== verification/Msg_Roundtrip.thy ===== *)
theory Msg_Roundtrip
  imports Msg_Wire
begin

text \<open>
  The decoder accepts exactly the byte strings of \<open>wire_message\<close>, with and without the extended
  token syntax, and recovers the fields; the round trips of the codec follow.
\<close>

section \<open>The first byte\<close>

lemma header_byte_fields:
  assumes "t < 16"
  shows "drop_bit 6 (of_nat (64 + 16 * unat (type_to_bits ty) + t) :: u8) = 1"
    "drop_bit 4 (of_nat (64 + 16 * unat (type_to_bits ty) + t) :: u8) AND 3 = type_to_bits ty"
    "(of_nat (64 + 16 * unat (type_to_bits ty) + t) :: u8) AND 15 = of_nat t"
proof -
  let ?n = "64 + 16 * unat (type_to_bits ty) + t"
  have b: "unat (type_to_bits ty) < 4" by (rule type_to_bits_bound)
  have u: "unat (of_nat ?n :: u8) = ?n"
    using assms b by (intro unat_of_nat_u8) linarith
  have "?n div 64 = 1" using assms b by (simp add: div_nat_eqI)
  then show "drop_bit 6 (of_nat ?n :: u8) = 1"
    unfolding word_unat_eq_iff unat_drop_6 u by simp
  have d: "?n = t + (4 + unat (type_to_bits ty)) * 16" by simp
  then have "?n div 16 = 4 + unat (type_to_bits ty)" using assms by (simp only: div_mult_self1)
  then have "?n div 16 mod 4 = unat (type_to_bits ty)" using b by simp
  then show "drop_bit 4 (of_nat ?n :: u8) AND 3 = type_to_bits ty"
    unfolding word_unat_eq_iff unat_and_3 unat_high_nibble u .
  have "?n mod 16 = t" using assms unfolding d by (simp only: mod_mult_self1 mod_less)
  then show "(of_nat ?n :: u8) AND 15 = of_nat t"
    unfolding word_unat_eq_iff unat_low_nibble u using assms by (simp add: unat_of_nat)
qed

lemma header_byte_of_fields:
  assumes "drop_bit 6 b = (1 :: u8)"
  shows "b = of_nat (64 + 16 * unat (drop_bit 4 b AND 3) + unat (b AND 15))"
proof -
  have v: "unat b div 64 = 1" using assms by (simp add: word_unat_eq_iff unat_drop_6)
  have "unat b = 64 + 16 * (unat b div 16 mod 4) + unat b mod 16"
  proof -
    have "unat b div 16 div 4 = 1" using v by (simp flip: div_mult2_eq)
    then have "unat b div 16 = 4 + unat b div 16 mod 4" by (metis mult_div_mod_eq mult.right_neutral)
    moreover have "unat b = 16 * (unat b div 16) + unat b mod 16" by simp
    ultimately show ?thesis by linarith
  qed
  then show ?thesis
    unfolding word_unat_eq_iff unat_and_3 unat_high_nibble unat_low_nibble
    using u8_bound [of b] by (metis unat_of_nat_u8)
qed

text \<open>The type as \<open>decode_parts\<close> matches it.\<close>

definition ty_of_bits :: "u8 \<Rightarrow> msg_type" where
  "ty_of_bits t = (if t = 0 then Confirmable else if t = 1 then NonConfirmable
     else if t = 2 then Acknowledgement else Reset)"

lemma ty_of_bits_to_bits [simp]: "ty_of_bits (type_to_bits ty) = ty"
  by (cases ty) (simp_all add: ty_of_bits_def)

lemma to_bits_ty_of_bits: "unat t < 4 \<Longrightarrow> type_to_bits (ty_of_bits t) = t"
proof -
  assume "unat t < 4"
  then have "unat t = 0 \<or> unat t = 1 \<or> unat t = 2 \<or> unat t = 3" by linarith
  then show ?thesis by (auto simp: ty_of_bits_def word_unat_eq_iff)
qed

section \<open>Token length\<close>

lemma nibble_word_simps:
  "unat (of_nat (wire_nibble n) :: u8) = wire_nibble n"
  using wire_nibble_less [of n] by (intro unat_of_nat_u8) simp

lemma decode_length_wire:
  assumes "n \<le> max_extended"
  shows "decode_length (of_nat (wire_nibble n)) (wire_ext n @ rest) = Inr (n, length (wire_ext n))"
proof -
  consider "n < 13" | "13 \<le> n" "n < 269" | "269 \<le> n" by linarith
  then show ?thesis
  proof cases
    case 1
    then show ?thesis
      by (simp add: decode_length_def wire_nibble_def wire_ext_def word_le_nat_alt unat_of_nat)
  next
    case 2
    have "unat (of_nat (n - 13) :: u8) = n - 13" using 2 by (intro unat_of_nat_u8) simp
    with 2 show ?thesis
      by (simp add: decode_length_def wire_nibble_def wire_ext_def get_at_def)
  next
    case 3
    have "unat (of_nat (n - 269) :: u16) = n - 269"
      using 3 assms by (intro unat_of_nat_u16) (simp add: max_extended_def)
    with 3 show ?thesis
      by (simp add: decode_length_def wire_nibble_def wire_ext_def get_range_def u16_to_be_def)
  qed
qed

lemma decode_length_sound:
  assumes "decode_length k rest = Inr (n, m)" "unat k < 16"
  shows "n \<le> max_extended \<and> unat k = wire_nibble n \<and> m = length (wire_ext n) \<and>
         rest = wire_ext n @ drop m rest"
proof -
  consider "unat k < 13" | "k = 13" | "k = 14" | "k = 15"
    using assms(2) by (force simp: word_unat_eq_iff)
  then show ?thesis
  proof cases
    case 1
    with assms show ?thesis
      by (auto simp: decode_length_def wire_nibble_def wire_ext_def max_extended_def word_le_nat_alt)
  next
    case 2
    then obtain b r where "rest = b # r" "n = 13 + unat b" "m = 1"
      using assms(1) by (cases rest) (auto simp: decode_length_def get_at_def split: if_splits)
    with 2 show ?thesis
      using u8_bound [of b] by (simp add: wire_nibble_def wire_ext_def max_extended_def)
  next
    case 3
    then obtain a b r where "rest = a # b # r" "n = 269 + unat (u16_from_be a b)" "m = 2"
      using assms(1)
      by (cases rest; cases "tl rest")
        (auto simp: decode_length_def get_range_def split: if_splits)
    with 3 show ?thesis
      using u16_bound [of "u16_from_be a b"] by (simp add: wire_nibble_def wire_ext_def max_extended_def)
  next
    case 4
    with assms show ?thesis by (simp add: decode_length_def)
  qed
qed

section \<open>Decoding a wire message\<close>

lemma drop_prefix [simp]:
  "drop (length (wire_prefix ty code mid token)) (wire_prefix ty code mid token @ rest) = rest"
  by simp

lemma wire_prefix_nth:
  "(wire_prefix ty code mid token @ rest) ! 0 =
     of_nat (64 + 16 * unat (type_to_bits ty) + wire_nibble (length token))"
  "(wire_prefix ty code mid token @ rest) ! 1 = code"
  "u16_from_be ((wire_prefix ty code mid token @ rest) ! 2)
     ((wire_prefix ty code mid token @ rest) ! 3) = mid"
  "drop 4 (wire_prefix ty code mid token @ rest) = wire_ext (length token) @ token @ rest"
  by (simp_all add: wire_prefix_def wire_header_def u16_to_be_def)

lemma decode_parts_wire:
  assumes ok: "message_ok code token os payload"
    and slice: "length (wire_message ty code mid token os payload) \<le> usize_max"
    and ext: "extended \<or> length token \<le> 8"
  shows "decode_parts (wire_message ty code mid token os payload) extended =
     Inr \<lparr>pt_header = header_new 1 ty (of_nat (wire_nibble (length token))) code mid,
          pt_token = token, pt_options = wire_options 0 os, pt_payload = payload\<rparr>"
proof -
  let ?n = "length token" and ?o = "wire_options 0 os @ wire_payload payload"
  let ?p = "wire_prefix ty code mid token"
  define buf where "buf = wire_message ty code mid token os payload"
  have buf: "buf = ?p @ ?o" by (simp add: buf_def wire_message_prefix)
  have n: "wire_nibble ?n < 16" using wire_nibble_less [of ?n] by simp
  note b = wire_prefix_nth [of ty code mid token ?o, folded buf]
  have h0: "drop_bit 6 (buf ! 0) = 1" "drop_bit 4 (buf ! 0) AND 3 = type_to_bits ty"
      "buf ! 0 AND 15 = of_nat (wire_nibble ?n)"
    unfolding b(1) by (rule header_byte_fields [OF n])+
  have lp: "length ?p = 4 + length (wire_ext ?n) + ?n" by (simp add: wire_prefix_def)
  have len: "\<not> length buf < 4" by (simp add: buf lp)
  have nib: "\<not> (\<not> extended \<and> 8 < (of_nat (wire_nibble ?n) :: u8))"
    using ext by (auto simp: word_less_nat_alt nibble_word_simps wire_nibble_def)
  have dl: "(if extended then decode_length (of_nat (wire_nibble ?n)) (drop 4 buf)
      else Inr (unat (of_nat (wire_nibble ?n) :: u8), 0)) = Inr (?n, length (wire_ext ?n))"
  proof (cases extended)
    case True
    then show ?thesis using ok unfolding b(4) by (simp add: decode_length_wire message_ok_def)
  next
    case False
    then show ?thesis
      using ext unfolding nibble_word_simps by (simp add: wire_nibble_def wire_ext_def)
  qed
  have ca: "checked_add 4 (length (wire_ext ?n)) = Some (4 + length (wire_ext ?n))"
      "checked_add (4 + length (wire_ext ?n)) ?n = Some (length ?p)"
    using slice unfolding buf_def [symmetric] buf by (simp_all add: checked_add_def lp)
  have gr: "get_range buf (4 + length (wire_ext ?n)) (length ?p) = Some token"
    by (simp add: get_range_def buf lp) (simp add: wire_prefix_def)
  have sp: "split_options_and_payload buf (length ?p) = Inr (wire_options 0 os, payload)"
    using split_loop_wire [of 0 os "length ?p" ?p payload] ok slice
    unfolding buf_def [symmetric]
    by (simp add: split_options_and_payload_def buf message_ok_def)
  have ty: "(if type_to_bits ty = 0 then Confirmable else if type_to_bits ty = 1 then NonConfirmable
      else if type_to_bits ty = 2 then Acknowledgement else Reset) = ty"
    by (cases ty) simp_all
  have em: "code_is_empty code \<Longrightarrow> length ?p = length buf \<and> of_nat (wire_nibble ?n) = (0 :: u8) \<and>
      wire_options 0 os = [] \<and> payload = []"
    using ok by (simp add: message_ok_def buf wire_payload_def wire_nibble_def)
  show ?thesis
    unfolding buf_def [symmetric] decode_parts_def Let_def if_not_P [OF len] h0 ty if_not_P [OF nib]
      b(2,3) dl
    unfolding ca ok_or_simps and_then_simps prod.case gr
    using em by (cases "code_is_empty code") (simp_all add: ca gr sp del: One_nat_def)
qed

lemma decode_parts_sound:
  assumes dec: "decode_parts buf extended = Inr p"
  shows "\<exists>os. buf = wire_message (hdr_ty (pt_header p)) (hdr_code (pt_header p))
                      (hdr_id (pt_header p)) (pt_token p) os (pt_payload p) \<and>
              message_ok (hdr_code (pt_header p)) (pt_token p) os (pt_payload p) \<and>
              pt_options p = wire_options 0 os \<and>
              hdr_version (pt_header p) = 1 \<and>
              hdr_tkl (pt_header p) = of_nat (wire_nibble (length (pt_token p))) \<and>
              (extended \<or> length (pt_token p) \<le> 8)"
proof -
  obtain b0 b1 b2 b3 rest where buf: "buf = b0 # b1 # b2 # b3 # rest"
    using dec by (auto simp: decode_parts_def numeral_eq_Suc Suc_le_length_iff not_less
        split: if_splits)
  define t where "t = drop_bit 4 b0 AND 3"
  define k where "k = b0 AND 15"
  obtain n m where v: "drop_bit 6 b0 = 1" and nib: "extended \<or> k \<le> 8"
    and dl: "(if extended then decode_length k rest else Inr (unat k, 0)) = Inr (n, m)"
    and gr: "4 + m + n \<le> length buf"
    and tok: "pt_token p = take n (drop (4 + m) buf)"
    and hdr: "pt_header p = header_new 1 (ty_of_bits t) k b1 (u16_from_be b2 b3)"
    and fin: "if code_is_empty b1
              then k = 0 \<and> 4 + m + n = length buf \<and> pt_options p = [] \<and> pt_payload p = []
              else split_options_and_payload buf (4 + m + n) = Inr (pt_options p, pt_payload p)"
    using dec
    by (auto simp: decode_parts_def buf Let_def and_then_Inr_iff get_range_Some_iff t_def [symmetric]
        k_def [symmetric] ty_of_bits_def not_less not_le split: if_splits)
  let ?ty = "ty_of_bits t" and ?mid = "u16_from_be b2 b3" and ?tok = "pt_token p"
  have k: "unat k < 16" unfolding k_def by (simp add: unat_low_nibble)
  have A: "n \<le> max_extended \<and> unat k = wire_nibble n \<and> m = length (wire_ext n) \<and>
      rest = wire_ext n @ drop m rest"
  proof (cases extended)
    case True
    with dl have "decode_length k rest = Inr (n, m)" by simp
    then show ?thesis using k by (rule decode_length_sound)
  next
    case False
    with dl nib have "n = unat k" "m = 0" "unat k \<le> 8" by (auto simp: word_le_nat_alt)
    then show ?thesis by (simp add: wire_nibble_def wire_ext_def max_extended_def)
  qed
  then have N: "n \<le> max_extended" "unat k = wire_nibble n" "m = length (wire_ext n)" by blast+
  have len: "length ?tok = n" using tok gr by simp
  have d4: "drop (4 + m) buf = drop m rest" "drop (4 + m + n) buf = drop (m + n) rest"
    by (simp_all add: buf eval_nat_numeral)
  have "drop m rest = ?tok @ drop (m + n) rest"
    unfolding tok d4 by (metis add.commute append_take_drop_id drop_drop)
  with A len have rest: "wire_ext (length ?tok) @ ?tok @ drop (m + n) rest = rest" by metis
  have kn: "k = of_nat (wire_nibble (length ?tok))" using N len by (simp add: word_unat_eq_iff nibble_word_simps)
  have "unat t < 4" unfolding t_def by (simp add: unat_and_3)
  then have "b0 = of_nat (64 + 16 * unat (type_to_bits ?ty) + wire_nibble (length ?tok))"
    using header_byte_of_fields [OF v] N len
    by (simp only: to_bits_ty_of_bits flip: t_def k_def)
  then have pre: "buf = wire_prefix ?ty b1 ?mid ?tok @ drop (m + n) rest"
    by (simp add: buf wire_prefix_def wire_header_def rest)
  have lp: "length (wire_prefix ?ty b1 ?mid ?tok) = 4 + m + n"
    using N len by (simp add: wire_prefix_def)
  have "\<exists>os. drop (m + n) rest = wire_options 0 os @ wire_payload (pt_payload p) \<and>
      pt_options p = wire_options 0 os \<and> message_ok b1 ?tok os (pt_payload p)"
  proof (cases "code_is_empty b1")
    case True
    with fin N len have "?tok = []" "drop (m + n) rest = []"
      by (auto simp: buf wire_nibble_def split: if_splits)
    with True fin show ?thesis by (intro exI [of _ "[]"]) (simp add: wire_payload_def message_ok_def)
  next
    case False
    then have "split_loop buf (4 + m + n) (4 + m + n) 0 = Inr (pt_options p, pt_payload p)"
      using fin by (simp add: split_options_and_payload_def)
    from split_loop_sound [OF this] obtain os where "ascending 0 os" "values_ok os"
        "drop (4 + m + n) buf = wire_options 0 os @ wire_payload (pt_payload p)"
        "pt_options p = wire_options 0 os"
      using gr by auto
    with False N len d4 show ?thesis
      by (intro exI [of _ os]) (simp add: message_ok_def)
  qed
  then obtain os where os: "drop (m + n) rest = wire_options 0 os @ wire_payload (pt_payload p)"
      "pt_options p = wire_options 0 os" "message_ok b1 ?tok os (pt_payload p)"
    by blast
  have "extended \<or> length ?tok \<le> 8" using nib dl len by (auto simp: word_le_nat_alt split: if_splits)
  with os pre hdr kn show ?thesis
    by (intro exI [of _ os]) (simp add: header_new_def wire_message_prefix)
qed

lemma options_new_wire:
  "ascending 0 os \<Longrightarrow> values_ok os \<Longrightarrow> length (wire_options 0 os) \<le> usize_max \<Longrightarrow>
   options_list (options_new (wire_options 0 os)) = os"
  using options_list_wire [of 0 os "[]"] by (simp add: options_new_def)

text \<open>
  A decoded view, seen from outside: the datagram is the wire form of its fields and of the options
  that its iterator yields.
\<close>

lemma decode_parts_view:
  assumes "decode_parts buf extended = Inr p" "length buf \<le> usize_max"
  defines "os \<equiv> options_list (options_new (pt_options p))"
  shows "buf = wire_message (hdr_ty (pt_header p)) (hdr_code (pt_header p)) (hdr_id (pt_header p))
                 (pt_token p) os (pt_payload p)"
    "message_ok (hdr_code (pt_header p)) (pt_token p) os (pt_payload p)"
    "pt_options p = wire_options 0 os" "hdr_version (pt_header p) = 1"
    "hdr_tkl (pt_header p) = of_nat (wire_nibble (length (pt_token p)))"
    "extended \<or> length (pt_token p) \<le> 8"
proof -
  obtain xs where xs: "buf = wire_message (hdr_ty (pt_header p)) (hdr_code (pt_header p))
        (hdr_id (pt_header p)) (pt_token p) xs (pt_payload p)"
      "message_ok (hdr_code (pt_header p)) (pt_token p) xs (pt_payload p)"
      "pt_options p = wire_options 0 xs" "hdr_version (pt_header p) = 1"
      "hdr_tkl (pt_header p) = of_nat (wire_nibble (length (pt_token p)))"
      "extended \<or> length (pt_token p) \<le> 8"
    using decode_parts_sound [OF assms(1)] by blast
  have "length (wire_options 0 xs) \<le> usize_max"
    using arg_cong [OF xs(1), of length] assms(2) by (simp add: wire_message_def)
  then have "os = xs" using xs(2,3) by (simp add: os_def options_new_wire message_ok_def)
  with xs show "buf = wire_message (hdr_ty (pt_header p)) (hdr_code (pt_header p))
      (hdr_id (pt_header p)) (pt_token p) os (pt_payload p)"
    "message_ok (hdr_code (pt_header p)) (pt_token p) os (pt_payload p)"
    "pt_options p = wire_options 0 os" "hdr_version (pt_header p) = 1"
    "hdr_tkl (pt_header p) = of_nat (wire_nibble (length (pt_token p)))"
    "extended \<or> length (pt_token p) \<le> 8"
    by simp_all
qed

lemma decode_parts_wire_fields:
  assumes "message_ok code token os payload" "extended \<or> length token \<le> 8"
    "length (wire_message ty code mid token os payload) \<le> usize_max"
    "decode_parts (wire_message ty code mid token os payload) extended = Inr p"
  shows "options_list (options_new (pt_options p)) = os"
proof -
  have "length (wire_options 0 os) \<le> usize_max" using assms(3) by (simp add: wire_message_def)
  then have "options_list (options_new (wire_options 0 os)) = os"
    using assms(1) by (simp add: options_new_wire message_ok_def)
  with assms(4) show ?thesis
    unfolding decode_parts_wire [OF assms(1,3,2)] by auto
qed

lemma token_from_checked_as_bytes [simp]:
  "token_wf t \<Longrightarrow> token_from_checked (token_as_bytes t) = t"
  by (rule token_eqI) (simp_all add: token_from_checked_wf token_from_checked_bytes,
    simp add: token_as_bytes_def token_wf_def)

lemma token_as_bytes_len: "token_wf t \<Longrightarrow> length (token_as_bytes t) \<le> 8"
  by (simp add: token_wf_def token_as_bytes_def)

lemma encode_eq_token_iter:
  "encode T msg buf =
     (if code_is_empty (msg_code msg) \<and>
         (ot_as_bytes T (msg_token msg) \<noteq> [] \<or> msg_options msg \<noteq> [] \<or> msg_payload msg \<noteq> [])
      then (Inl EE_EmptyMessageNotEmpty, buf)
      else encode_token_iter buf (msg_ty msg) (msg_code msg) (msg_id msg)
             (ot_as_bytes T (msg_token msg)) (msg_options msg) (msg_payload msg))"
  unfolding encode_def encode_iter_def ot_is_empty_def ..

text \<open>The datagram a message stands for.\<close>

definition message_wire :: "'t owned_token \<Rightarrow> 't message \<Rightarrow> bytes" where
  "message_wire T msg =
     wire_message (msg_ty msg) (msg_code msg) (msg_id msg) (ot_as_bytes T (msg_token msg))
       (msg_options msg) (msg_payload msg)"

definition message_encodable :: "'t owned_token \<Rightarrow> 't message \<Rightarrow> bool" where
  "message_encodable T msg \<longleftrightarrow>
     message_ok (msg_code msg) (ot_as_bytes T (msg_token msg)) (msg_options msg) (msg_payload msg)"

lemma encode_success_iff:
  assumes "length buf \<le> usize_max"
  shows "(\<exists>buf'. encode T msg buf = (Inr n, buf')) \<longleftrightarrow>
           message_encodable T msg \<and> n = length (message_wire T msg) \<and> n \<le> length buf"
proof
  assume "\<exists>buf'. encode T msg buf = (Inr n, buf')"
  then obtain buf' where "encode_token_iter buf (msg_ty msg) (msg_code msg) (msg_id msg)
      (ot_as_bytes T (msg_token msg)) (msg_options msg) (msg_payload msg) = (Inr n, buf')"
    by (auto simp: encode_eq_token_iter split: if_splits)
  from encode_inv [OF this assms]
  show "message_encodable T msg \<and> n = length (message_wire T msg) \<and> n \<le> length buf"
    by (simp add: message_encodable_def message_wire_def)
next
  assume "message_encodable T msg \<and> n = length (message_wire T msg) \<and> n \<le> length buf"
  then show "\<exists>buf'. encode T msg buf = (Inr n, buf')"
    using encode_ok assms
    by (auto simp: encode_eq_token_iter message_encodable_def message_wire_def message_ok_def)
qed

lemma encode_buffer:
  assumes "encode T msg buf = (Inr n, buf')" "length buf \<le> usize_max"
  shows "buf' = message_wire T msg @ drop n buf"
proof -
  have "message_encodable T msg" "n = length (message_wire T msg)" "n \<le> length buf"
    using encode_success_iff [OF assms(2), of T msg n] assms(1) by blast+
  then show ?thesis
    using assms encode_ok [of "msg_code msg" "ot_as_bytes T (msg_token msg)" "msg_options msg"
        "msg_payload msg" "msg_ty msg" "msg_id msg" buf]
    by (auto simp: encode_eq_token_iter message_wire_def message_encodable_def split: if_splits)
qed

section \<open>Properties of the codec\<close>

text \<open>
  C1: encode then decode. Whenever \<open>Message::encode\<close> succeeds, \<open>decode\<close> accepts the bytes it
  wrote and gives back every field: type, code, identifier, token, the options in order with their
  numbers and values, and the payload. The hypotheses are the type invariants of the two Rust values
  (a token made by its constructors, a slice no longer than the address space).
\<close>

theorem encode_decode_roundtrip:
  assumes "token_wf (msg_token msg)" "length buf \<le> usize_max"
    and "encode compact_owned msg buf = (Inr n, buf')"
  shows "\<exists>m. decode (take n buf') = Inr m \<and>
    pm_header m = header_new 1 (msg_ty msg) (tok_len (msg_token msg)) (msg_code msg) (msg_id msg) \<and>
    pm_token m = msg_token msg \<and> pm_iter m = msg_options msg \<and> pm_payload m = msg_payload msg"
proof -
  let ?tok = "token_as_bytes (msg_token msg)"
  let ?w = "wire_message (msg_ty msg) (msg_code msg) (msg_id msg) ?tok (msg_options msg)
    (msg_payload msg)"
  have e: "message_encodable compact_owned msg" "n = length ?w" "n \<le> length buf"
    using encode_success_iff [OF assms(2), of compact_owned msg n] assms(3)
    by (simp_all add: message_wire_def compact_owned_def)
  have w: "take n buf' = ?w"
    using encode_buffer [OF assms(3,2)] e(2) by (simp add: message_wire_def compact_owned_def)
  have ok: "message_ok (msg_code msg) ?tok (msg_options msg) (msg_payload msg)"
    using e(1) by (simp add: message_encodable_def compact_owned_def)
  have l: "False \<or> length ?tok \<le> 8" "length ?w \<le> usize_max"
    using token_as_bytes_len [OF assms(1)] e assms(2) by simp_all
  have t: "of_nat (wire_nibble (length ?tok)) = tok_len (msg_token msg)"
    using assms(1) l(1) by (simp add: wire_nibble_def token_as_bytes_def token_wf_def)
  note d = decode_parts_wire [OF ok l(2,1), unfolded t]
  show ?thesis
    unfolding w using d decode_parts_wire_fields [OF ok l d] assms(1)
    by (simp add: decode_def pm_iter_def)
qed

theorem encode_decode_roundtrip_witness:
  "\<exists>m. decode (take 12 [0x42, 1, 0x12, 0x34, 0xAA, 0xBB, 0xB1, 0x61, 0x31, 0x62, 0xFF, 7]) = Inr m \<and>
     pm_iter m = [opt_new OPT_URI_PATH [0x61], opt_new 14 [0x62]] \<and> pm_payload m = [7]"
proof -
  let ?msg = "message_with_payload (message_with_options
      (message_con CODE_GET 0x1234 (token_from_checked [0xAA, 0xBB]))
      [opt_new OPT_URI_PATH [0x61], opt_new 14 [0x62]]) [7]"
  have e: "encode compact_owned ?msg (replicate 12 0) =
      (Inr 12, [0x42, 1, 0x12, 0x34, 0xAA, 0xBB, 0xB1, 0x61, 0x31, 0x62, 0xFF, 7])"
    by code_simp
  have w: "token_wf (msg_token ?msg)" by code_simp
  have l: "length (replicate 12 0 :: bytes) \<le> usize_max" by (simp add: usize_max_def)
  have "msg_options ?msg = [opt_new OPT_URI_PATH [0x61], opt_new 14 [0x62]]" "msg_payload ?msg = [7]"
    by (simp_all add: message_with_payload_def message_with_options_def)
  with encode_decode_roundtrip [OF w l e] show ?thesis by metis
qed

text \<open>
  C2: decode then encode. A datagram that \<open>decode\<close> accepts is reproduced byte for byte by
  \<open>ParsedMessage::encode\<close> into any buffer that can hold it, so the accepted encoding of a message is
  unique; the rest of the buffer is left alone.
\<close>

theorem decode_encode_roundtrip:
  assumes "decode wire = Inr m" "length wire \<le> length buf" "length buf \<le> usize_max"
  shows "pm_encode compact_owned m buf = (Inr (length wire), wire @ drop (length wire) buf)"
proof -
  obtain p where p: "decode_parts wire False = Inr p"
      "m = \<lparr>pm_header = pt_header p, pm_token = token_from_checked (pt_token p),
            pm_options = pt_options p, pm_payload = pt_payload p\<rparr>"
    using assms(1) by (auto simp: decode_def and_then_Inr_iff)
  have l: "length wire \<le> usize_max" using assms(2,3) by simp
  note v = decode_parts_view [OF p(1) l]
  have tok: "token_as_bytes (token_from_checked (pt_token p)) = pt_token p"
    using v(6) by (simp add: token_from_checked_bytes)
  show ?thesis
    using encode_ok [OF v(2) _ assms(3), of "hdr_ty (pt_header p)" "hdr_id (pt_header p)"] assms(2)
    by (simp add: pm_encode_def encode_iter_def p(2) pm_iter_def tok compact_owned_def
        flip: v(1))
qed

theorem decode_encode_roundtrip_witness:
  "is_ok (decode [0x51, 2, 0, 9, 0x77, 0xB1, 0x61, 0xFF, 5]) \<and>
   (\<exists>m. pm_encode compact_owned m (replicate 10 1) =
      (Inr 9, [0x51, 2, 0, 9, 0x77, 0xB1, 0x61, 0xFF, 5, 1]))"
proof -
  have ok: "is_ok (decode [0x51, 2, 0, 9, 0x77, 0xB1, 0x61, 0xFF, 5])" by code_simp
  then obtain m where "decode [0x51, 2, 0, 9, 0x77, 0xB1, 0x61, 0xFF, 5] = Inr m"
    by (auto simp: is_ok_def split: sum.splits)
  from decode_encode_roundtrip [OF this, of "replicate 10 1"]
  have "pm_encode compact_owned m (replicate 10 1) =
      (Inr 9, [0x51, 2, 0, 9, 0x77, 0xB1, 0x61, 0xFF, 5, 1])"
    by (simp add: usize_max_def)
  with ok show ?thesis by blast
qed

text \<open>
  C3: the encoder refines the wire format. For every token type and message, \<open>encode\<close> returns \<open>n\<close>
  exactly when the message has a datagram, \<open>n\<close> is its length and it fits; then the buffer is the
  datagram followed by the old bytes. A message that has a datagram which does not fit is refused with
  \<open>BufferTooSmall\<close>. In no case does the buffer change its length: no write is out of range.
\<close>

theorem encode_refines_wire:
  assumes "length buf \<le> usize_max"
  shows "(fst (encode T msg buf) = Inr n \<longleftrightarrow>
            message_encodable T msg \<and> n = length (message_wire T msg) \<and> n \<le> length buf) \<and>
         (message_encodable T msg \<and> length (message_wire T msg) \<le> length buf \<longrightarrow>
            snd (encode T msg buf) = message_wire T msg @ drop (length (message_wire T msg)) buf) \<and>
         (message_encodable T msg \<and> length buf < length (message_wire T msg) \<longrightarrow>
            fst (encode T msg buf) = Inl EE_BufferTooSmall) \<and>
         length (snd (encode T msg buf)) = length buf"
proof (intro conjI)
  show "fst (encode T msg buf) = Inr n \<longleftrightarrow>
      message_encodable T msg \<and> n = length (message_wire T msg) \<and> n \<le> length buf"
    using encode_success_iff [OF assms, of T msg n] by (metis fst_conv prod.collapse)
  show "message_encodable T msg \<and> length (message_wire T msg) \<le> length buf \<longrightarrow>
      snd (encode T msg buf) = message_wire T msg @ drop (length (message_wire T msg)) buf"
    using encode_success_iff [OF assms, of T msg "length (message_wire T msg)"]
      encode_buffer [OF _ assms, of T msg "length (message_wire T msg)"]
    by (metis snd_conv)
  show "message_encodable T msg \<and> length buf < length (message_wire T msg) \<longrightarrow>
      fst (encode T msg buf) = Inl EE_BufferTooSmall"
    using encode_small assms
    by (auto simp: encode_eq_token_iter message_encodable_def message_wire_def message_ok_def)
  show "length (snd (encode T msg buf)) = length buf"
    using encode_keeps_length [OF assms] by (simp add: encode_eq_token_iter)
qed

theorem encode_refines_wire_witness:
  "length (replicate 3 (0 :: u8)) \<le> usize_max \<and>
   fst (encode compact_owned (message_empty_ack 7) (replicate 3 0)) = Inl EE_BufferTooSmall"
proof -
  have l: "length (replicate 3 (0 :: u8)) \<le> usize_max" by (simp add: usize_max_def)
  have "message_encodable compact_owned (message_empty_ack 7)"
    "length (message_wire compact_owned (message_empty_ack 7)) = 4"
    by code_simp+
  with encode_refines_wire [OF l, of compact_owned "message_empty_ack 7"] l show ?thesis by simp
qed

text \<open>
  C4: the language of the decoder. \<open>decode_parts\<close> accepts exactly the wire forms of messages that
  satisfy the format's rules: a token of at most eight bytes unless the extended syntax is enabled, at
  most 65804 bytes in any case, options in ascending order, and nothing after the header when the code
  is 0.00.
\<close>

theorem decode_parts_language:
  assumes "length buf \<le> usize_max"
  shows "is_ok (decode_parts buf extended) \<longleftrightarrow>
     (\<exists>ty code mid token os payload.
        buf = wire_message ty code mid token os payload \<and> message_ok code token os payload \<and>
        (extended \<or> length token \<le> 8))"
proof
  assume "is_ok (decode_parts buf extended)"
  then obtain p where "decode_parts buf extended = Inr p"
    by (auto simp: is_ok_def split: sum.splits)
  from decode_parts_view [OF this assms]
  show "\<exists>ty code mid token os payload.
      buf = wire_message ty code mid token os payload \<and> message_ok code token os payload \<and>
      (extended \<or> length token \<le> 8)"
    by blast
qed (use decode_parts_wire assms in auto)

theorem decode_parts_language_witness:
  "is_ok (decode_parts [0x60, 0, 0, 7] False) \<and>
   (\<exists>ty code mid token os payload.
      [0x60, 0, 0, 7] = wire_message ty code mid token os payload \<and>
      message_ok code token os payload \<and> (False \<or> length token \<le> 8))"
proof -
  have ok: "is_ok (decode_parts [0x60, 0, 0, 7] False)" by code_simp
  have "length [0x60, 0, 0, 7 :: u8] \<le> usize_max" by (simp add: usize_max_def)
  from decode_parts_language [OF this, of False] ok show ?thesis by blast
qed

text \<open>
  C5: the two decoders agree on compact tokens. \<open>decode_with_token::<Token>\<close> (the RFC 8974 syntax
  with capacity eight) accepts a datagram with a view \<open>m\<close> exactly when \<open>decode\<close> accepts it with the
  same view: switching a receiver from one to the other changes no accepted message.
\<close>

theorem decode_with_token_agrees:
  "length buf \<le> usize_max \<Longrightarrow> decode_with_token compact_owned buf = Inr m \<longleftrightarrow> decode buf = Inr m"
proof
  assume l: "length buf \<le> usize_max" and "decode_with_token compact_owned buf = Inr m"
  then obtain p where p: "decode_parts buf True = Inr p"
      "ot_try_from_bytes compact_owned (pt_token p) = Inr (pm_token m)"
      "m = \<lparr>pm_header = pt_header p, pm_token = pm_token m, pm_options = pt_options p,
            pm_payload = pt_payload p\<rparr>"
    by (auto simp: decode_with_token_def and_then_Inr_iff)
  have t: "length (pt_token p) \<le> 8" "token_from_checked (pt_token p) = pm_token m"
    using p(2) by (simp_all add: compact_owned_def token_try_from_bytes_def token_new_def
        TOKEN_MAX_LEN_def split: if_splits)
  note v = decode_parts_view [OF p(1) l]
  have "decode_parts buf False = Inr p"
    using decode_parts_wire [OF v(2), of "hdr_ty (pt_header p)" "hdr_id (pt_header p)" False]
      v(3,4,5) t(1) l
    by (simp add: header_new_def flip: v(1))
  then show "decode buf = Inr m" using p(3) t(2) by (simp add: decode_def)
next
  assume l: "length buf \<le> usize_max" and "decode buf = Inr m"
  then obtain p where p: "decode_parts buf False = Inr p"
      "m = \<lparr>pm_header = pt_header p, pm_token = token_from_checked (pt_token p),
            pm_options = pt_options p, pm_payload = pt_payload p\<rparr>"
    by (auto simp: decode_def and_then_Inr_iff)
  note v = decode_parts_view [OF p(1) l]
  have "decode_parts buf True = Inr p"
    using decode_parts_wire [OF v(2), of "hdr_ty (pt_header p)" "hdr_id (pt_header p)" True]
      v(3,4,5) l
    by (simp add: header_new_def flip: v(1))
  then show "decode_with_token compact_owned buf = Inr m"
    using p(2) v(6) by (simp add: decode_with_token_def compact_owned_def token_try_from_bytes_def
        token_new_def TOKEN_MAX_LEN_def)
qed

theorem decode_with_token_agrees_witness:
  "\<exists>m. decode [0x51, 1, 0, 9, 0x77] = Inr m \<and>
       decode_with_token compact_owned [0x51, 1, 0, 9, 0x77] = Inr m"
proof -
  have "is_ok (decode [0x51, 1, 0, 9, 0x77])" by code_simp
  then obtain m where m: "decode [0x51, 1, 0, 9, 0x77] = Inr m"
    by (auto simp: is_ok_def split: sum.splits)
  have "length [0x51, 1, 0, 9, 0x77 :: u8] \<le> usize_max" by (simp add: usize_max_def)
  from decode_with_token_agrees [OF this, of m] m show ?thesis by blast
qed

text \<open>
  Capacity is separate from syntax. On a datagram the extended decoder accepts,
  \<open>decode_with_token::<extended::Token<N>>\<close> either keeps the token unchanged or, exactly when it is
  longer than \<open>N\<close>, reports \<open>Capacity\<close> with the token's length and \<open>N\<close>; it never reports it as
  malformed, and the borrowed view still has the whole token to echo.
\<close>

theorem decode_with_token_capacity:
  assumes "extended_decode buf = Inr d" "N \<le> MAX_TOKEN_LEN"
  shows "decode_with_token (extended_owned N) buf =
     (if N < length (pt_token d)
      then Inl (Capacity \<lparr>required = length (pt_token d), available = N\<rparr>)
      else Inr \<lparr>pm_header = pt_header d,
                pm_token = \<lparr>ext_bytes = pt_token d @ replicate (N - length (pt_token d)) 0,
                            ext_len = length (pt_token d)\<rparr>,
                pm_options = pt_options d, pm_payload = pt_payload d\<rparr>)"
  using assms
  by (simp add: decode_with_token_def extended_decode_def extended_owned_def ext_token_new_def
      ext_token_EMPTY_def min_absorb1)

theorem decode_with_token_capacity_witness:
  "decode_with_token (extended_owned 2) [0x43, 1, 0, 9, 7, 8, 9] =
     Inl (Capacity \<lparr>required = 3, available = 2\<rparr>)"
proof -
  have "is_ok (extended_decode [0x43, 1, 0, 9, 7, 8, 9])" by code_simp
  moreover have "to_ok (map_ok pt_token (extended_decode [0x43, 1, 0, 9, 7, 8, 9])) = Some [7, 8, 9]"
    by code_simp
  ultimately obtain d where d: "extended_decode [0x43, 1, 0, 9, 7, 8, 9] = Inr d"
      "pt_token d = [7, 8, 9]"
    by (auto simp: is_ok_def map_ok_def split: sum.splits)
  show ?thesis
    using decode_with_token_capacity [OF d(1), of 2] d(2) by (simp add: MAX_TOKEN_LEN_def)
qed

text \<open>
  C6: the iterator yields the whole validated region. For a decoded message, running \<open>Options\<close> to
  its end returns options in ascending order whose wire form is exactly the borrowed option bytes: no
  option is skipped, no parse error cuts the iteration short, and no byte is left over.
\<close>

theorem decoded_options_complete:
  assumes "decode buf = Inr m" "length buf \<le> usize_max"
  shows "wire_options 0 (pm_iter m) = pm_options m \<and>
         sorted (map (unat \<circ> opt_number) (pm_iter m))"
proof -
  obtain p where p: "decode_parts buf False = Inr p" "pm_options m = pt_options p"
    using assms(1) by (auto simp: decode_def and_then_Inr_iff)
  show ?thesis
    using decode_parts_view [OF p(1) assms(2)] p(2)
    by (simp add: pm_iter_def message_ok_def ascending_sorted)
qed

theorem decoded_options_complete_witness:
  "\<exists>m. decode [0x40, 1, 0, 9, 0xB1, 0x61, 0x01, 0x62] = Inr m \<and>
       wire_options 0 (pm_iter m) = pm_options m"
proof -
  have "is_ok (decode [0x40, 1, 0, 9, 0xB1, 0x61, 0x01, 0x62])" by code_simp
  then obtain m where m: "decode [0x40, 1, 0, 9, 0xB1, 0x61, 0x01, 0x62] = Inr m"
    by (auto simp: is_ok_def split: sum.splits)
  have "length [0x40, 1, 0, 9, 0xB1, 0x61, 0x01, 0x62 :: u8] \<le> usize_max"
    by (simp add: usize_max_def)
  from decoded_options_complete [OF m this] m show ?thesis by blast
qed

text \<open>
  Rebinding a layout. Detaching the ranges of a decoded message with \<open>layout\<close> and binding them
  to the same bytes again gives back the same view, so the receive buffer can be released in between.
\<close>

theorem layout_bind_layout:
  assumes "decode_with_token T buf = Inr m" "length buf \<le> usize_max"
  shows "layout_bind (pm_layout m (length buf)) buf = Some m"
proof -
  obtain p where p: "decode_parts buf True = Inr p" "pm_header m = pt_header p"
      "pm_options m = pt_options p" "pm_payload m = pt_payload p"
    using assms(1) by (auto simp: decode_with_token_def and_then_Inr_iff)
  note v = decode_parts_view [OF p(1) assms(2)]
  let ?pre = "wire_prefix (hdr_ty (pt_header p)) (hdr_code (pt_header p)) (hdr_id (pt_header p))
    (pt_token p)"
  have buf: "buf = ?pre @ pm_options m @ wire_payload (pm_payload m)"
    using v(1,3) p(3,4) by (simp add: wire_message_prefix)
  show ?thesis
    by (cases "pm_payload m = []")
      (simp_all add: layout_bind_def pm_layout_def buf wire_payload_def checked_sub_def)
qed

theorem layout_bind_layout_witness:
  "\<exists>m. decode_with_token compact_owned [0x40, 1, 0, 9, 0xB1, 0x61, 0xFF, 0x62] = Inr m \<and>
       layout_bind (pm_layout m 8) [0x40, 1, 0, 9, 0xB1, 0x61, 0xFF, 0x62] = Some m"
proof -
  have "is_ok (decode_with_token compact_owned [0x40, 1, 0, 9, 0xB1, 0x61, 0xFF, 0x62])" by code_simp
  then obtain m where m: "decode_with_token compact_owned [0x40, 1, 0, 9, 0xB1, 0x61, 0xFF, 0x62] = Inr m"
    by (auto simp: is_ok_def split: sum.splits)
  have "length [0x40, 1, 0, 9, 0xB1, 0x61, 0xFF, 0x62 :: u8] \<le> usize_max" by (simp add: usize_max_def)
  from layout_bind_layout [OF m this] m show ?thesis by (simp add: eval_nat_numeral)
qed

end
