(* ===== verification/Msg_Value.thy ===== *)
theory Msg_Value
  imports Msg_Roundtrip
begin

text \<open>
  Option value formats and the typed accessors of a parsed message (\<open>src/message/value.rs\<close>): the
  uint codec, Observe and Block values, the early-exit option lookup, the Table 4 format check and the
  precondition test. A \<open>&str\<close> is its bytes; \<open>str::from_utf8\<close> is the test \<open>utf8_valid\<close>.
\<close>

section \<open>Constants and formats\<close>

definition MAX_AGE_DEFAULT :: u32 where "MAX_AGE_DEFAULT = 60"
definition OBSERVE_REGISTER :: u32 where "OBSERVE_REGISTER = 0"
definition OBSERVE_DEREGISTER :: u32 where "OBSERVE_DEREGISTER = 1"
definition OBSERVE_SEQUENCE_MASK :: u32 where "OBSERVE_SEQUENCE_MASK = 0x00ffffff"

definition is_observe_method :: "code \<Rightarrow> bool" where
  "is_observe_method c \<longleftrightarrow> c = CODE_GET \<or> c = CODE_FETCH"

datatype option_value_format = FmtEmpty | FmtOpaque | FmtUint | FmtString

section \<open>Unsigned integers\<close>

record encoded_uint =
  eu_buf :: bytes
  eu_len :: u8

definition encoded_uint_new :: "u32 \<Rightarrow> encoded_uint" where
  "encoded_uint_new n =
     (let b = u32_to_be n;
          start = (if b ! 0 \<noteq> 0 then 0 else if b ! 1 \<noteq> 0 then 1 else if b ! 2 \<noteq> 0 then 2
                   else if b ! 3 \<noteq> 0 then 3 else 4 :: nat);
          len = 4 - start
      in \<lparr>eu_buf = blit (replicate 4 0) 0 (take len (drop start b)), eu_len = of_nat len\<rparr>)"

definition eu_as_bytes :: "encoded_uint \<Rightarrow> bytes" where
  "eu_as_bytes e = take (unat (eu_len e)) (eu_buf e)"

definition eu_length :: "encoded_uint \<Rightarrow> nat" where
  "eu_length e = unat (eu_len e)"

definition eu_is_empty :: "encoded_uint \<Rightarrow> bool" where
  "eu_is_empty e \<longleftrightarrow> eu_len e = 0"

definition encode_uint :: "u32 \<Rightarrow> encoded_uint" where
  "encode_uint n = encoded_uint_new n"

fun decode_uint_from :: "u32 \<Rightarrow> bytes \<Rightarrow> value_error + u32" where
  "decode_uint_from n [] = Inr n"
| "decode_uint_from n (b # bs) =
     (case Option.bind (checked_mul_w n 256) (\<lambda>n. checked_add_w n (ucast b)) of
        None \<Rightarrow> Inl VE_UintOverflow
      | Some n \<Rightarrow> decode_uint_from n bs)"

definition decode_uint :: "bytes \<Rightarrow> value_error + u32" where
  "decode_uint bs = decode_uint_from 0 bs"

definition decode_uint16 :: "bytes \<Rightarrow> value_error + u16" where
  "decode_uint16 bs =
     and_then (decode_uint bs)
       (\<lambda>n. if unat n < 65536 then Inr (ucast n) else Inl VE_UintOverflow)"

definition encode_observe :: "u32 \<Rightarrow> encoded_uint" where
  "encode_observe n = encode_uint (n AND OBSERVE_SEQUENCE_MASK)"

definition decode_observe :: "bytes \<Rightarrow> value_error + u32" where
  "decode_observe bs = (if 3 < length bs then Inl VE_UintOverflow else decode_uint bs)"

section \<open>UTF-8\<close>

text \<open>Well-formed UTF-8 (Unicode table 3-7), the language accepted by \<open>core::str::from_utf8\<close>.\<close>

definition utf8_cont :: "u8 \<Rightarrow> bool" where
  "utf8_cont b \<longleftrightarrow> 0x80 \<le> b \<and> b \<le> 0xBF"

function utf8_valid :: "bytes \<Rightarrow> bool" where
  "utf8_valid bs =
     (case bs of
        [] \<Rightarrow> True
      | a # r \<Rightarrow>
          if a \<le> 0x7F then utf8_valid r
          else if 0xC2 \<le> a \<and> a \<le> 0xDF then
            (case r of b # r' \<Rightarrow> utf8_cont b \<and> utf8_valid r' | _ \<Rightarrow> False)
          else if 0xE0 \<le> a \<and> a \<le> 0xEF then
            (case r of
               b # c # r' \<Rightarrow>
                 utf8_cont b \<and> utf8_cont c \<and> (a = 0xE0 \<longrightarrow> 0xA0 \<le> b) \<and> (a = 0xED \<longrightarrow> b \<le> 0x9F) \<and>
                 utf8_valid r'
             | _ \<Rightarrow> False)
          else if 0xF0 \<le> a \<and> a \<le> 0xF4 then
            (case r of
               b # c # d # r' \<Rightarrow>
                 utf8_cont b \<and> utf8_cont c \<and> utf8_cont d \<and> (a = 0xF0 \<longrightarrow> 0x90 \<le> b) \<and>
                 (a = 0xF4 \<longrightarrow> b \<le> 0x8F) \<and> utf8_valid r'
             | _ \<Rightarrow> False)
          else False)"
  by pat_completeness auto
termination
  by (relation "measure length") auto

declare utf8_valid.simps [simp del]

definition as_str :: "bytes \<Rightarrow> value_error + bytes" where
  "as_str bs = (if utf8_valid bs then Inr bs else Inl VE_InvalidUtf8)"

section \<open>Content formats\<close>

type_synonym content_format = u16

definition CF_CBOR :: content_format where "CF_CBOR = 60"
definition CF_TEXT_PLAIN :: content_format where "CF_TEXT_PLAIN = 0"
definition CF_LINK_FORMAT :: content_format where "CF_LINK_FORMAT = 40"
definition CF_PROBLEM_DETAILS :: content_format where "CF_PROBLEM_DETAILS = 257"
definition CF_MISSING_BLOCKS :: content_format where "CF_MISSING_BLOCKS = 272"

definition content_format_encode :: "content_format \<Rightarrow> encoded_uint" where
  "content_format_encode cf = encoded_uint_new (ucast cf)"

section \<open>Block values\<close>

record block_value =
  bv_num :: u32
  bv_more :: bool
  bv_szx :: u8

definition SZX_MAX :: u8 where "SZX_MAX = 6"
definition SZX_BERT :: u8 where "SZX_BERT = 7"
definition NUM_MAX :: u32 where "NUM_MAX = 0x000fffff"
definition SIZE_MIN :: u16 where "SIZE_MIN = 16"
definition SIZE_MAX :: u16 where "SIZE_MAX = 1024"

definition block_new :: "u32 \<Rightarrow> bool \<Rightarrow> u8 \<Rightarrow> value_error + block_value" where
  "block_new num mo szx =
     (if SZX_BERT < szx then Inl VE_IllegalSzx
      else if NUM_MAX < num then Inl VE_BlockNumOverflow
      else Inr \<lparr>bv_num = num, bv_more = mo, bv_szx = szx\<rparr>)"

definition szx_from_size :: "u16 \<Rightarrow> value_error + u8" where
  "szx_from_size sz =
     (if sz = 16 then Inr 0 else if sz = 32 then Inr 1 else if sz = 64 then Inr 2
      else if sz = 128 then Inr 3 else if sz = 256 then Inr 4 else if sz = 512 then Inr 5
      else if sz = 1024 then Inr 6 else Inl VE_IllegalSzx)"

definition size_from_szx :: "u8 \<Rightarrow> value_error + u16" where
  "size_from_szx szx =
     (if szx = SZX_BERT then Inr SIZE_MAX
      else if SZX_MAX < szx then Inl VE_IllegalSzx
      else Inr (push_bit (unat szx) 16))"

definition block_from_size :: "u32 \<Rightarrow> bool \<Rightarrow> u16 \<Rightarrow> value_error + block_value" where
  "block_from_size num mo sz =
     (case szx_from_size sz of Inr szx \<Rightarrow> block_new num mo szx | Inl e \<Rightarrow> Inl e)"

definition block_is_bert :: "block_value \<Rightarrow> bool" where
  "block_is_bert b \<longleftrightarrow> bv_szx b = SZX_BERT"

definition block_bert :: "u32 \<Rightarrow> bool \<Rightarrow> value_error + block_value" where
  "block_bert num mo = block_new num mo SZX_BERT"

definition block_size :: "block_value \<Rightarrow> u16" where
  "block_size b = (if block_is_bert b then SIZE_MAX else push_bit (unat (bv_szx b)) 16)"

definition block_as_uint :: "block_value \<Rightarrow> u32" where
  "block_as_uint b =
     push_bit 4 (bv_num b) OR push_bit 3 (if bv_more b then 1 else 0) OR ucast (bv_szx b)"

definition block_encode :: "block_value \<Rightarrow> encoded_uint" where
  "block_encode b = encoded_uint_new (block_as_uint b)"

definition block_from_uint :: "u32 \<Rightarrow> value_error + block_value" where
  "block_from_uint val =
     (if 0x00ffffff < val then Inl VE_BlockNumOverflow
      else
        let szx = ucast (val AND 7);
            mo = (val AND 8 \<noteq> 0);
            num = drop_bit 4 val
        in block_new num mo szx)"

definition block_decode :: "bytes \<Rightarrow> value_error + block_value" where
  "block_decode bs =
     (if 3 < length bs then Inl VE_UintOverflow else and_then (decode_uint bs) block_from_uint)"

section \<open>Looking options up by number\<close>

record options_by_number =
  obn_inner :: options
  obn_number :: option_number

function obn_next :: "options_by_number \<Rightarrow> opt option \<times> options_by_number" where
  "obn_next s =
     (case options_next (obn_inner s) of
        (None, i) \<Rightarrow> (None, s\<lparr>obn_inner := i\<rparr>)
      | (Some x, i) \<Rightarrow>
          if opt_number x = obn_number s then (Some x, s\<lparr>obn_inner := i\<rparr>)
          else if obn_number s < opt_number x then (None, s\<lparr>obn_inner := options_new []\<rparr>)
          else obn_next (s\<lparr>obn_inner := i\<rparr>))"
  by pat_completeness auto
termination
  by (relation "measure (\<lambda>s. length (os_bytes (obn_inner s)) - os_i (obn_inner s))")
    (auto dest: options_next_advance)

declare obn_next.simps [simp del]

lemma obn_next_advance:
  "obn_next s = (Some x, s') \<Longrightarrow>
     length (os_bytes (obn_inner s')) - os_i (obn_inner s') <
     length (os_bytes (obn_inner s)) - os_i (obn_inner s)"
proof (induction s rule: obn_next.induct)
  case (1 s)
  then show ?case
    by (subst (asm) (2) obn_next.simps)
      (fastforce split: prod.splits option.splits if_splits dest: options_next_advance [OF sym])
qed

function obn_list :: "options_by_number \<Rightarrow> opt list" where
  "obn_list s =
     (case obn_next s of
        (None, _) \<Rightarrow> []
      | (Some x, s') \<Rightarrow> x # obn_list s')"
  by pat_completeness auto
termination
  by (relation "measure (\<lambda>s. length (os_bytes (obn_inner s)) - os_i (obn_inner s))")
    (auto dest: obn_next_advance [OF sym])

declare obn_list.simps [simp del]

section \<open>Building options\<close>

definition opt_empty :: "option_number \<Rightarrow> opt" where "opt_empty n = opt_new n []"
definition opt_opaque :: "option_number \<Rightarrow> bytes \<Rightarrow> opt" where "opt_opaque n v = opt_new n v"
definition opt_string :: "option_number \<Rightarrow> bytes \<Rightarrow> opt" where "opt_string n s = opt_new n s"
definition opt_uint :: "option_number \<Rightarrow> encoded_uint \<Rightarrow> opt" where
  "opt_uint n e = opt_new n (eu_as_bytes e)"

definition opt_if_match :: "bytes \<Rightarrow> opt" where "opt_if_match v = opt_opaque OPT_IF_MATCH v"
definition opt_etag :: "bytes \<Rightarrow> opt" where "opt_etag v = opt_opaque OPT_ETAG v"
definition opt_request_tag :: "bytes \<Rightarrow> opt" where "opt_request_tag v = opt_opaque OPT_REQUEST_TAG v"
definition opt_echo :: "bytes \<Rightarrow> opt" where "opt_echo v = opt_opaque OPT_ECHO v"
definition opt_oscore :: "bytes \<Rightarrow> opt" where "opt_oscore v = opt_opaque OPT_OSCORE v"
definition opt_uri_host :: "bytes \<Rightarrow> opt" where "opt_uri_host s = opt_string OPT_URI_HOST s"
definition opt_location_path :: "bytes \<Rightarrow> opt" where "opt_location_path s = opt_string OPT_LOCATION_PATH s"
definition opt_uri_path :: "bytes \<Rightarrow> opt" where "opt_uri_path s = opt_string OPT_URI_PATH s"
definition opt_uri_query :: "bytes \<Rightarrow> opt" where "opt_uri_query s = opt_string OPT_URI_QUERY s"
definition opt_location_query :: "bytes \<Rightarrow> opt" where "opt_location_query s = opt_string OPT_LOCATION_QUERY s"
definition opt_proxy_uri :: "bytes \<Rightarrow> opt" where "opt_proxy_uri s = opt_string OPT_PROXY_URI s"
definition opt_proxy_scheme :: "bytes \<Rightarrow> opt" where "opt_proxy_scheme s = opt_string OPT_PROXY_SCHEME s"
definition opt_uri_port :: "encoded_uint \<Rightarrow> opt" where "opt_uri_port e = opt_uint OPT_URI_PORT e"
definition opt_content_format :: "encoded_uint \<Rightarrow> opt" where "opt_content_format e = opt_uint OPT_CONTENT_FORMAT e"
definition opt_max_age :: "encoded_uint \<Rightarrow> opt" where "opt_max_age e = opt_uint OPT_MAX_AGE e"
definition opt_accept :: "encoded_uint \<Rightarrow> opt" where "opt_accept e = opt_uint OPT_ACCEPT e"
definition opt_size1 :: "encoded_uint \<Rightarrow> opt" where "opt_size1 e = opt_uint OPT_SIZE1 e"
definition opt_hop_limit :: "encoded_uint \<Rightarrow> opt" where "opt_hop_limit e = opt_uint OPT_HOP_LIMIT e"
definition opt_no_response :: "encoded_uint \<Rightarrow> opt" where "opt_no_response e = opt_uint OPT_NO_RESPONSE e"
definition opt_size2 :: "encoded_uint \<Rightarrow> opt" where "opt_size2 e = opt_uint OPT_SIZE2 e"
definition opt_block1 :: "encoded_uint \<Rightarrow> opt" where "opt_block1 e = opt_uint OPT_BLOCK1 e"
definition opt_block2 :: "encoded_uint \<Rightarrow> opt" where "opt_block2 e = opt_uint OPT_BLOCK2 e"
definition opt_q_block1 :: "encoded_uint \<Rightarrow> opt" where "opt_q_block1 e = opt_uint OPT_Q_BLOCK1 e"
definition opt_q_block2 :: "encoded_uint \<Rightarrow> opt" where "opt_q_block2 e = opt_uint OPT_Q_BLOCK2 e"
definition opt_observe :: "encoded_uint \<Rightarrow> opt" where "opt_observe e = opt_uint OPT_OBSERVE e"

definition opt_if_none_match :: opt where "opt_if_none_match = opt_empty OPT_IF_NONE_MATCH"
definition opt_observe_register :: opt where "opt_observe_register = opt_empty OPT_OBSERVE"
definition opt_observe_deregister :: opt where "opt_observe_deregister = opt_new OPT_OBSERVE [1]"

section \<open>Reading options\<close>

definition opt_as_str :: "opt \<Rightarrow> value_error + bytes" where "opt_as_str x = as_str (opt_value x)"
definition opt_as_uint :: "opt \<Rightarrow> value_error + u32" where "opt_as_uint x = decode_uint (opt_value x)"
definition opt_as_uint16 :: "opt \<Rightarrow> value_error + u16" where
  "opt_as_uint16 x = decode_uint16 (opt_value x)"
definition opt_as_block :: "opt \<Rightarrow> value_error + block_value" where
  "opt_as_block x = block_decode (opt_value x)"

definition table4_spec :: "option_number \<Rightarrow> (option_value_format \<times> nat \<times> nat) option" where
  "table4_spec n =
     (if n = 1 then Some (FmtOpaque, 0, 8)
      else if n = 3 then Some (FmtString, 1, 255)
      else if n = 4 then Some (FmtOpaque, 1, 8)
      else if n = 5 then Some (FmtEmpty, 0, 0)
      else if n = 7 then Some (FmtUint, 0, 2)
      else if n = 8 then Some (FmtString, 0, 255)
      else if n = 11 then Some (FmtString, 0, 255)
      else if n = 12 then Some (FmtUint, 0, 2)
      else if n = 14 then Some (FmtUint, 0, 4)
      else if n = 15 then Some (FmtString, 0, 255)
      else if n = 17 then Some (FmtUint, 0, 2)
      else if n = 20 then Some (FmtString, 0, 255)
      else if n = 35 then Some (FmtString, 1, 1034)
      else if n = 39 then Some (FmtString, 1, 255)
      else if n = 60 then Some (FmtUint, 0, 4)
      else None)"

definition option_value_format_of :: "option_number \<Rightarrow> option_value_format option" where
  "option_value_format_of n = (case table4_spec n of Some (kind, _, _) \<Rightarrow> Some kind | None \<Rightarrow> None)"

definition check_format :: "opt \<Rightarrow> parse_error + unit" where
  "check_format x =
     (case table4_spec (opt_number x) of
        None \<Rightarrow> Inr ()
      | Some (kind, mn, mx) \<Rightarrow>
          (let len = length (opt_value x);
               in_range = (mn \<le> len \<and> len \<le> mx);
               ok = (case kind of
                       FmtEmpty \<Rightarrow> len = 0
                     | FmtOpaque \<Rightarrow> in_range
                     | FmtUint \<Rightarrow> in_range
                     | FmtString \<Rightarrow> in_range \<and> is_ok (as_str (opt_value x)))
           in if ok then Inr () else Inl (PE_BadOptionFormat (opt_number x))))"

section \<open>Accessors of a parsed message\<close>

definition get_options :: "('t, 'z) parsed_message_scheme \<Rightarrow> option_number \<Rightarrow> options_by_number" where
  "get_options m n = \<lparr>obn_inner = options_new (pm_options m), obn_number = n\<rparr>"

definition get_option :: "('t, 'z) parsed_message_scheme \<Rightarrow> option_number \<Rightarrow> opt option" where
  "get_option m n = fst (obn_next (get_options m n))"

definition pm_uri_host :: "('t, 'z) parsed_message_scheme \<Rightarrow> (value_error + bytes) option" where
  "pm_uri_host m = map_option opt_as_str (get_option m OPT_URI_HOST)"

definition pm_uri_port :: "('t, 'z) parsed_message_scheme \<Rightarrow> (value_error + u16) option" where
  "pm_uri_port m = map_option opt_as_uint16 (get_option m OPT_URI_PORT)"

definition pm_oscore :: "('t, 'z) parsed_message_scheme \<Rightarrow> bytes option" where
  "pm_oscore m = map_option opt_value (get_option m OPT_OSCORE)"

definition pm_proxy_uri :: "('t, 'z) parsed_message_scheme \<Rightarrow> (value_error + bytes) option" where
  "pm_proxy_uri m = map_option opt_as_str (get_option m OPT_PROXY_URI)"

definition pm_proxy_scheme :: "('t, 'z) parsed_message_scheme \<Rightarrow> (value_error + bytes) option" where
  "pm_proxy_scheme m = map_option opt_as_str (get_option m OPT_PROXY_SCHEME)"

definition pm_content_format :: "('t, 'z) parsed_message_scheme \<Rightarrow> (value_error + content_format) option" where
  "pm_content_format m = map_option opt_as_uint16 (get_option m OPT_CONTENT_FORMAT)"

definition pm_accept :: "('t, 'z) parsed_message_scheme \<Rightarrow> (value_error + content_format) option" where
  "pm_accept m = map_option opt_as_uint16 (get_option m OPT_ACCEPT)"

definition pm_max_age :: "('t, 'z) parsed_message_scheme \<Rightarrow> (value_error + u32) option" where
  "pm_max_age m = map_option opt_as_uint (get_option m OPT_MAX_AGE)"

definition pm_size1 :: "('t, 'z) parsed_message_scheme \<Rightarrow> (value_error + u32) option" where
  "pm_size1 m = map_option opt_as_uint (get_option m OPT_SIZE1)"

definition pm_size2 :: "('t, 'z) parsed_message_scheme \<Rightarrow> (value_error + u32) option" where
  "pm_size2 m = map_option opt_as_uint (get_option m OPT_SIZE2)"

definition pm_block1 :: "('t, 'z) parsed_message_scheme \<Rightarrow> (value_error + block_value) option" where
  "pm_block1 m = map_option opt_as_block (get_option m OPT_BLOCK1)"

definition pm_block2 :: "('t, 'z) parsed_message_scheme \<Rightarrow> (value_error + block_value) option" where
  "pm_block2 m = map_option opt_as_block (get_option m OPT_BLOCK2)"

definition pm_q_block1 :: "('t, 'z) parsed_message_scheme \<Rightarrow> (value_error + block_value) option" where
  "pm_q_block1 m = map_option opt_as_block (get_option m OPT_Q_BLOCK1)"

definition pm_observe :: "('t, 'z) parsed_message_scheme \<Rightarrow> (value_error + u32) option" where
  "pm_observe m = map_option (\<lambda>x. decode_observe (opt_value x)) (get_option m OPT_OBSERVE)"

definition pm_echo :: "('t, 'z) parsed_message_scheme \<Rightarrow> bytes option" where
  "pm_echo m = map_option opt_value (get_option m OPT_ECHO)"

definition pm_uri_path :: "('t, 'z) parsed_message_scheme \<Rightarrow> (value_error + bytes) list" where
  "pm_uri_path m = map opt_as_str (obn_list (get_options m OPT_URI_PATH))"

definition pm_uri_query :: "('t, 'z) parsed_message_scheme \<Rightarrow> (value_error + bytes) list" where
  "pm_uri_query m = map opt_as_str (obn_list (get_options m OPT_URI_QUERY))"

definition pm_location_path :: "('t, 'z) parsed_message_scheme \<Rightarrow> (value_error + bytes) list" where
  "pm_location_path m = map opt_as_str (obn_list (get_options m OPT_LOCATION_PATH))"

definition pm_location_query :: "('t, 'z) parsed_message_scheme \<Rightarrow> (value_error + bytes) list" where
  "pm_location_query m = map opt_as_str (obn_list (get_options m OPT_LOCATION_QUERY))"

definition pm_q_block2 :: "('t, 'z) parsed_message_scheme \<Rightarrow> (value_error + block_value) list" where
  "pm_q_block2 m = map opt_as_block (obn_list (get_options m OPT_Q_BLOCK2))"

definition pm_if_match :: "('t, 'z) parsed_message_scheme \<Rightarrow> bytes list" where
  "pm_if_match m = map opt_value (obn_list (get_options m OPT_IF_MATCH))"

definition pm_etag :: "('t, 'z) parsed_message_scheme \<Rightarrow> bytes list" where
  "pm_etag m = map opt_value (obn_list (get_options m OPT_ETAG))"

definition pm_request_tag :: "('t, 'z) parsed_message_scheme \<Rightarrow> bytes list" where
  "pm_request_tag m = map opt_value (obn_list (get_options m OPT_REQUEST_TAG))"

definition is_observe_register :: "('t, 'z) parsed_message_scheme \<Rightarrow> bool" where
  "is_observe_register m \<longleftrightarrow>
     is_observe_method (hdr_code (pm_header m)) \<and> pm_observe m = Some (Inr OBSERVE_REGISTER)"

definition is_observe_deregister :: "('t, 'z) parsed_message_scheme \<Rightarrow> bool" where
  "is_observe_deregister m \<longleftrightarrow>
     is_observe_method (hdr_code (pm_header m)) \<and> pm_observe m = Some (Inr OBSERVE_DEREGISTER)"

definition pm_if_none_match :: "('t, 'z) parsed_message_scheme \<Rightarrow> bool" where
  "pm_if_none_match m \<longleftrightarrow> get_option m OPT_IF_NONE_MATCH \<noteq> None"

fun if_match_loop :: "bool \<Rightarrow> bytes option \<Rightarrow> bool \<Rightarrow> bytes list \<Rightarrow> bool" where
  "if_match_loop exist etag saw [] = (\<not> saw)"
| "if_match_loop exist etag saw (v # vs) =
     (if v = [] then (if exist then True else if_match_loop exist etag True vs)
      else if exist \<and> etag = Some v then True
      else if_match_loop exist etag True vs)"

definition if_match_holds :: "('t, 'z) parsed_message_scheme \<Rightarrow> bool \<Rightarrow> bytes option \<Rightarrow> bool" where
  "if_match_holds m exist etag = if_match_loop exist etag False (pm_if_match m)"

datatype precondition = Unconditional | Satisfied | FailedIfMatch | FailedIfNoneMatch

definition pm_precondition ::
  "('t, 'z) parsed_message_scheme \<Rightarrow> bool \<Rightarrow> bytes option \<Rightarrow> precondition" where
  "pm_precondition m exist etag =
     (if pm_if_none_match m \<and> exist then FailedIfNoneMatch
      else if \<not> if_match_holds m exist etag then FailedIfMatch
      else if pm_if_none_match m \<or> get_option m OPT_IF_MATCH \<noteq> None then Satisfied
      else Unconditional)"

definition precondition_holds :: "precondition \<Rightarrow> bool" where
  "precondition_holds p \<longleftrightarrow> p = Unconditional \<or> p = Satisfied"

definition bad_option_format :: "('t, 'z) parsed_message_scheme \<Rightarrow> option_number option" where
  "bad_option_format m =
     find_map (\<lambda>x. case check_format x of Inr _ \<Rightarrow> None | Inl _ \<Rightarrow> Some (opt_number x)) (pm_iter m)"

definition check_rfc7252_formats :: "('t, 'z) parsed_message_scheme \<Rightarrow> parse_error + unit" where
  "check_rfc7252_formats m =
     (case bad_option_format m of Some n \<Rightarrow> Inl (PE_BadOptionFormat n) | None \<Rightarrow> Inr ())"

section \<open>The uint codec\<close>

lemma unat_ucast_u8: "unat (ucast (w :: u32) :: u8) = unat w mod 256"
  by (simp add: unsigned_ucast_eq take_bit_eq_mod)

lemma be_val_u32 [simp]: "be_val (u32_to_be n) = unat n"
proof -
  have d: "unat (drop_bit k n) = unat n div 2 ^ k" for k
    by (subst unat_drop_bit_eq) (simp add: drop_bit_eq_div)
  have "unat n < 4294967296" using unat_bound [of n] by simp
  then have "unat n div 256 div 256 div 256 < 256" by simp
  moreover have "unat n div 16777216 = unat n div 256 div 256 div 256"
    "unat n div 65536 = unat n div 256 div 256"
    by (simp_all flip: div_mult2_eq)
  ultimately show ?thesis
    by (simp add: u32_to_be_def be_val_def unat_ucast_u8 d)
qed

lemma encoded_uint_bytes:
  defines "e \<equiv> \<lambda>n. eu_as_bytes (encoded_uint_new n)"
  shows "be_val (e n) = unat n" "length (e n) \<le> 4" "e n = [] \<or> hd (e n) \<noteq> 0"
proof -
  obtain a b c d where w: "u32_to_be n = [a, b, c, d]" by (simp add: u32_to_be_def)
  have v: "unat n = be_val [a, b, c, d]" using be_val_u32 [of n] w by simp
  have e: "e n = (if a \<noteq> 0 then [a, b, c, d] else if b \<noteq> 0 then [b, c, d] else if c \<noteq> 0 then [c, d]
      else if d \<noteq> 0 then [d] else [])"
    by (simp add: e_def eu_as_bytes_def encoded_uint_new_def w blit_def)
  show "be_val (e n) = unat n" unfolding v e by (simp add: be_val_def)
  show "length (e n) \<le> 4" "e n = [] \<or> hd (e n) \<noteq> 0" unfolding e by simp_all
qed

lemma decode_uint_from_spec:
  "decode_uint_from n bs =
     (if unat n * 256 ^ length bs + be_val bs < 2 ^ 32
      then Inr (of_nat (unat n * 256 ^ length bs + be_val bs)) else Inl VE_UintOverflow)"
proof (induction bs arbitrary: n)
  case Nil
  then show ?case using unat_bound [of n] by simp
next
  case (Cons b bs)
  let ?m = "unat n * 256 + unat b"
  have total: "unat n * 256 ^ length (b # bs) + be_val (b # bs) = ?m * 256 ^ length bs + be_val bs"
    by (simp add: be_val_Cons algebra_simps)
  show ?case
  proof (cases "?m < 2 ^ 32")
    case True
    then have m: "unat (n * 256) = unat n * 256" "unat n * 256 < 2 ^ 32"
      by (simp_all add: unat_word_ariths)
    moreover have "unat (n * 256 + ucast b) = ?m"
      using True m by (simp add: unat_word_ariths unat_ucast_le)
    ultimately show ?thesis
      using True Cons.IH [of "n * 256 + ucast b"] unfolding total
      by (simp add: checked_mul_w_def checked_add_w_def unat_ucast_le)
  next
    case False
    have "?m \<le> ?m * 256 ^ length bs" by simp
    with False have "\<not> ?m * 256 ^ length bs + be_val bs < 2 ^ 32" by linarith
    moreover have "Option.bind (checked_mul_w n 256) (\<lambda>n. checked_add_w n (ucast b)) = None"
      using False
      by (auto simp: checked_mul_w_def checked_add_w_def unat_mul_less unat_ucast_le bind_eq_None_conv)
    ultimately show ?thesis unfolding total by simp
  qed
qed

lemma decode_uint_spec:
  "decode_uint bs = (if be_val bs < 2 ^ 32 then Inr (of_nat (be_val bs)) else Inl VE_UintOverflow)"
  by (simp add: decode_uint_def decode_uint_from_spec)

lemma decode_uint_encoded [simp]: "decode_uint (eu_as_bytes (encoded_uint_new n)) = Inr n"
  using unat_bound [of n] by (simp add: decode_uint_spec encoded_uint_bytes(1))

lemma encoded_uint_length:
  assumes "unat n < 256 ^ k"
  shows "length (eu_as_bytes (encoded_uint_new n)) \<le> k"
proof (rule ccontr)
  let ?e = "eu_as_bytes (encoded_uint_new n)"
  assume "\<not> length ?e \<le> k"
  then obtain b bs where e: "?e = b # bs" "k \<le> length bs" by (cases ?e) auto
  then have "1 \<le> unat b" using encoded_uint_bytes(3) [of n] by (simp add: Suc_le_eq unat_gt_0)
  then have "256 ^ length bs \<le> be_val ?e"
    unfolding e(1) be_val_Cons by (metis add_increasing2 le0 mult_1 mult_le_mono1 order_refl)
  moreover have "(256 :: nat) ^ k \<le> 256 ^ length bs" using e(2) by (simp add: power_increasing)
  ultimately show False using assms by (simp add: encoded_uint_bytes(1))
qed

section \<open>Block values\<close>

definition block_wf :: "block_value \<Rightarrow> bool" where
  "block_wf b \<longleftrightarrow> bv_num b \<le> NUM_MAX \<and> bv_szx b \<le> SZX_BERT"

lemma block_new_Inr_iff:
  "block_new num mo szx = Inr b \<longleftrightarrow>
     b = \<lparr>bv_num = num, bv_more = mo, bv_szx = szx\<rparr> \<and> block_wf b"
  by (auto simp: block_new_def block_wf_def)

lemma unat_block_as_uint:
  assumes "block_wf b"
  shows "unat (block_as_uint b) =
           16 * unat (bv_num b) + 8 * (if bv_more b then 1 else 0) + unat (bv_szx b)"
proof -
  let ?s = "ucast (bv_szx b) :: u32" and ?m = "if bv_more b then 1 else 0 :: u32"
  have s: "unat ?s < 8" "unat (bv_num b) < 1048576"
    using assms by (simp_all add: block_wf_def SZX_BERT_def NUM_MAX_def word_le_nat_alt unat_ucast_le)
  have ts: "take_bit 3 ?s = ?s" "take_bit 1 ?m = ?m"
    using s by (simp_all add: word_unat_eq_iff unsigned_take_bit_eq take_bit_nat_eq_self_iff)
  have 1: "push_bit 3 ?m AND ?s = 0"
    by (subst ts(1) [symmetric]) (rule bit_word_eqI, auto simp: bit_simps)
  have 2: "push_bit 4 (bv_num b) AND (push_bit 3 ?m OR ?s) = 0"
    by (subst ts(1) [symmetric], subst ts(2) [symmetric]) (rule bit_word_eqI, auto simp: bit_simps)
  have "block_as_uint b = push_bit 4 (bv_num b) + (push_bit 3 ?m + ?s)"
    using 1 2 by (simp add: block_as_uint_def disjunctive_add_eq_or)
  moreover have "unat (push_bit 3 ?m + ?s) = 8 * unat ?m + unat ?s"
    using s by (simp add: push_bit_eq_mult unat_word_ariths)
  ultimately show ?thesis
    using s by (simp add: push_bit_eq_mult unat_word_ariths unat_ucast_le split: if_splits)
qed

lemma unat_and_7: "unat (val AND 7 :: u32) = unat val mod 8"
proof -
  have "val AND 7 = take_bit 3 val" by (simp add: take_bit_eq_mask mask_eq_exp_minus_1)
  then show ?thesis by (simp add: take_bit_eq_mod unat_mod_distrib)
qed

lemma and_8_iff: "(val AND 8 :: u32) \<noteq> 0 \<longleftrightarrow> odd (unat val div 8)"
proof -
  have "(val AND 8 = 0) = (\<not> bit val 3)"
    using and_exp_eq_0_iff_not_bit [of val 3] by simp
  also have "bit val 3 = odd (unat val div 2 ^ 3)"
    by (simp only: bit_unsigned_iff flip: bit_iff_odd) simp
  finally show ?thesis by simp
qed

lemma block_from_uint_spec:
  assumes "unat val < 16777216"
  shows "\<exists>b. block_from_uint val = Inr b \<and> block_wf b \<and> block_as_uint b = val"
proof -
  let ?b = "\<lparr>bv_num = drop_bit 4 val, bv_more = (val AND 8 \<noteq> 0), bv_szx = ucast (val AND 7)\<rparr>"
  have n: "unat (drop_bit 4 val) = unat val div 16"
    by (subst unat_drop_bit_eq) (simp add: drop_bit_eq_div)
  have s: "unat (ucast (val AND 7) :: u8) = unat val mod 8"
    by (simp add: unat_ucast_u8 unat_and_7)
  have wf: "block_wf ?b"
    using less_mult_imp_div_less [of "unat val" 1048576 16] assms n s
    by (simp add: block_wf_def NUM_MAX_def SZX_BERT_def word_le_nat_alt)
  have "16 * (unat val div 16) + 8 * (if odd (unat val div 8) then 1 else 0) + unat val mod 8 =
      unat val"
  proof -
    have "unat val div 8 = 2 * (unat val div 8 div 2) + (if odd (unat val div 8) then 1 else 0)"
      by simp
    moreover have "unat val div 8 div 2 = unat val div 16" by (simp flip: div_mult2_eq)
    moreover have "unat val = 8 * (unat val div 8) + unat val mod 8" by simp
    ultimately show ?thesis by linarith
  qed
  then have "unat (block_as_uint ?b) = unat val"
    unfolding unat_block_as_uint [OF wf] by (simp add: n s and_8_iff)
  then have "block_as_uint ?b = val" by (rule word_unat_eq_iff [THEN iffD2])
  moreover have "block_from_uint val = Inr ?b"
    using assms wf by (simp add: block_from_uint_def word_less_nat_alt block_new_Inr_iff)
  ultimately show ?thesis using wf by blast
qed

lemma block_as_uint_bound: "block_wf b \<Longrightarrow> unat (block_as_uint b) < 16777216"
  by (simp add: unat_block_as_uint) (simp add: block_wf_def NUM_MAX_def SZX_BERT_def word_le_nat_alt)

lemma pack_fields_inj:
  fixes n n' m m' s s' :: nat
  shows "16 * n + 8 * m + s = 16 * n' + 8 * m' + s' \<Longrightarrow> s < 8 \<Longrightarrow> s' < 8 \<Longrightarrow> m < 2 \<Longrightarrow> m' < 2 \<Longrightarrow>
    n = n' \<and> m = m' \<and> s = s'"
proof -
  assume eq: "16 * n + 8 * m + s = 16 * n' + 8 * m' + s'" and l: "s < 8" "s' < 8" "m < 2" "m' < 2"
  have "s + (2 * n + m) * 8 = s' + (2 * n' + m') * 8" using eq by simp
  then have "(s + (2 * n + m) * 8) mod 8 = (s' + (2 * n' + m') * 8) mod 8" by (rule arg_cong)
  then have s: "s = s'" using l by (simp only: mod_mult_self1 mod_less)
  with eq have "m + n * 2 = m' + n' * 2" by simp
  then have "(m + n * 2) mod 2 = (m' + n' * 2) mod 2" by (rule arg_cong)
  then have "m = m'" using l by (simp only: mod_mult_self1 mod_less)
  with s eq show ?thesis by simp
qed

lemma block_as_uint_inj:
  assumes "block_wf a" "block_wf b" "block_as_uint a = block_as_uint b"
  shows "a = b"
proof -
  have s: "unat (bv_szx a) < 8" "unat (bv_szx b) < 8"
    using assms(1,2) by (simp_all add: block_wf_def SZX_BERT_def word_le_nat_alt)
  have eq: "16 * unat (bv_num a) + 8 * (if bv_more a then 1 else 0) + unat (bv_szx a) =
      16 * unat (bv_num b) + 8 * (if bv_more b then 1 else 0) + unat (bv_szx b)"
    using assms by (simp flip: unat_block_as_uint)
  have "unat (bv_num a) = unat (bv_num b) \<and>
      (if bv_more a then 1 else 0 :: nat) = (if bv_more b then 1 else 0) \<and>
      unat (bv_szx a) = unat (bv_szx b)"
    using s by (intro pack_fields_inj [OF eq]) simp_all
  then show ?thesis by (auto simp: word_unat_eq_iff split: if_splits)
qed

section \<open>Lookup by number\<close>

lemma options_list_Cons:
  "options_list s = x # xs \<longleftrightarrow> (\<exists>s'. options_next s = (Some x, s') \<and> options_list s' = xs)"
  by (subst options_list.simps) (auto split: prod.splits option.splits)

lemma options_list_Nil: "options_list s = [] \<longleftrightarrow> fst (options_next s) = None"
  by (subst options_list.simps) (auto split: prod.splits option.splits)

lemma ascending_ge: "ascending p xs \<Longrightarrow> y \<in> set xs \<Longrightarrow> p \<le> unat (opt_number y)"
  by (induction xs arbitrary: p) (auto intro: order.trans)

lemma ascending_mono: "ascending p xs \<Longrightarrow> q \<le> p \<Longrightarrow> ascending q xs"
  by (cases xs) auto

lemma obn_next_spec:
  "options_list (obn_inner s) = xs \<Longrightarrow> ascending p xs \<Longrightarrow>
   dropWhile (\<lambda>x. opt_number x \<noteq> obn_number s) xs = zs \<Longrightarrow>
   (case zs of
      [] \<Rightarrow> fst (obn_next s) = None
    | x # ys \<Rightarrow> \<exists>s'. obn_next s = (Some x, s') \<and> options_list (obn_inner s') = ys \<and>
                    obn_number s' = obn_number s)"
proof (induction xs arbitrary: s p)
  case Nil
  then show ?case
    by (subst obn_next.simps) (auto simp: options_list_Nil split: prod.splits option.splits)
next
  case (Cons x xs)
  then obtain i where i: "options_next (obn_inner s) = (Some x, i)" "options_list i = xs"
    by (auto simp: options_list_Cons)
  consider "opt_number x = obn_number s" | "obn_number s < opt_number x" | "opt_number x < obn_number s"
    by fastforce
  then show ?case
  proof cases
    case 1
    with i Cons.prems(3) have "zs = x # xs" by auto
    with 1 i show ?thesis by (subst obn_next.simps) simp
  next
    case 2
    have "opt_number y \<noteq> obn_number s" if "y \<in> set xs" for y
      using ascending_ge [of "unat (opt_number x)" xs y] Cons.prems(2) 2 that
      by (auto simp: word_less_nat_alt)
    with 2 Cons.prems(3) have "zs = []" by auto
    with 2 i show ?thesis by (subst obn_next.simps) simp
  next
    case 3
    then have n: "\<not> obn_number s < opt_number x" "opt_number x \<noteq> obn_number s" by auto
    then have "obn_next s = obn_next (s\<lparr>obn_inner := i\<rparr>)"
      using i by (subst obn_next.simps) simp
    moreover have "dropWhile (\<lambda>x. opt_number x \<noteq> obn_number s) xs = zs"
      using Cons.prems(3) n by simp
    ultimately show ?thesis
      using i Cons.prems(2) Cons.IH [of "s\<lparr>obn_inner := i\<rparr>" "unat (opt_number x)"]
      by (cases zs) simp_all
  qed
qed

lemma filter_dropWhile: "dropWhile (\<lambda>x. \<not> P x) xs = zs \<Longrightarrow> filter P xs = filter P zs"
  by (induction xs) (auto split: if_splits)

lemma ascending_dropWhile:
  "ascending p xs \<Longrightarrow> dropWhile P xs = y # ys \<Longrightarrow> ascending p ys"
  by (induction xs arbitrary: p) (auto split: if_splits intro: ascending_mono)

lemma obn_list_spec:
  "options_list (obn_inner s) = xs \<Longrightarrow> ascending p xs \<Longrightarrow>
   obn_list s = filter (\<lambda>x. opt_number x = obn_number s) xs"
proof (induction "length xs" arbitrary: s xs rule: less_induct)
  case less
  let ?n = "obn_number s"
  obtain zs where zs: "dropWhile (\<lambda>x. opt_number x \<noteq> ?n) xs = zs" by simp
  note sp = obn_next_spec [OF less.prems zs]
  have f: "filter (\<lambda>x. opt_number x = ?n) xs = filter (\<lambda>x. opt_number x = ?n) zs"
    using zs by (rule filter_dropWhile)
  show ?case
  proof (cases zs)
    case Nil
    with sp have "fst (obn_next s) = None" by simp
    then have "obn_list s = []" by (subst obn_list.simps) (auto split: prod.splits option.splits)
    with f Nil show ?thesis by simp
  next
    case (Cons x ys)
    then obtain s' where s': "obn_next s = (Some x, s')" "options_list (obn_inner s') = ys"
        "obn_number s' = ?n"
      using sp by auto
    have "length ys < length xs"
      using length_dropWhile_le [of "\<lambda>x. opt_number x \<noteq> ?n" xs] Cons zs by simp
    moreover have "ascending p ys" using ascending_dropWhile [OF less.prems(2)] Cons zs by blast
    ultimately have "obn_list s' = filter (\<lambda>x. opt_number x = ?n) ys"
      using less.hyps [of ys s'] s' by simp
    moreover have "opt_number x = ?n"
      using Cons zs by (metis (mono_tags, lifting) dropWhile_eq_Cons_conv)
    moreover have "obn_list s = x # obn_list s'" using s' by (subst obn_list.simps) simp
    ultimately show ?thesis using f Cons by simp
  qed
qed

text \<open>The lookups of a decoded message, in terms of the options its iterator yields.\<close>

lemma decoded_ascending:
  assumes "decode_parts buf extended = Inr p" "length buf \<le> usize_max" "pm_options m = pt_options p"
  shows "ascending 0 (pm_iter m)"
  using decode_parts_view(2) [OF assms(1,2)] assms(3) by (simp add: pm_iter_def message_ok_def)

lemma get_options_filter:
  "ascending 0 (pm_iter m) \<Longrightarrow> obn_list (get_options m n) = filter (\<lambda>x. opt_number x = n) (pm_iter m)"
  using obn_list_spec [of "get_options m n"] by (simp add: get_options_def pm_iter_def)

lemma find_dropWhile:
  "dropWhile (\<lambda>x. \<not> P x) xs = zs \<Longrightarrow> find P xs = (case zs of [] \<Rightarrow> None | x # _ \<Rightarrow> Some x)"
  by (induction xs) (auto split: if_splits)

lemma get_option_find:
  assumes "ascending 0 (pm_iter m)"
  shows "get_option m n = find (\<lambda>x. opt_number x = n) (pm_iter m)"
proof -
  obtain zs where zs: "dropWhile (\<lambda>x. opt_number x \<noteq> n) (pm_iter m) = zs" by simp
  have "case zs of [] \<Rightarrow> fst (obn_next (get_options m n)) = None
      | x # ys \<Rightarrow> \<exists>s'. obn_next (get_options m n) = (Some x, s') \<and>
          options_list (obn_inner s') = ys \<and> obn_number s' = obn_number (get_options m n)"
    using assms zs by (intro obn_next_spec [of _ "pm_iter m" 0]) (simp_all add: get_options_def pm_iter_def)
  then show ?thesis
    using find_dropWhile [OF zs] by (auto simp: get_option_def split: list.splits)
qed

lemma get_option_none_iff:
  "ascending 0 (pm_iter m) \<Longrightarrow> get_option m n = None \<longleftrightarrow> n \<notin> opt_number ` set (pm_iter m)"
  by (auto simp: get_option_find find_None_iff)

lemma if_match_loop_spec:
  "if_match_loop exist etag saw vs \<longleftrightarrow>
     (\<not> saw \<and> vs = []) \<or> (exist \<and> (\<exists>v\<in>set vs. v = [] \<or> etag = Some v))"
proof (induction vs arbitrary: saw)
  case (Cons v vs)
  show ?case
    unfolding if_match_loop.simps Cons.IH by (cases exist; cases "v = []"; cases "etag = Some v") simp_all
qed simp

section \<open>Properties\<close>

text \<open>
  The uint codec. Decoding an encoded \<open>u32\<close> returns it, and no byte string that decodes to it
  is shorter: \<open>EncodedUint\<close> is the minimal encoding.
\<close>

theorem uint_codec:
  "decode_uint (eu_as_bytes (encode_uint n)) = Inr n \<and>
   (decode_uint bs = Inr n \<longrightarrow> length (eu_as_bytes (encode_uint n)) \<le> length bs)"
proof -
  have "unat n < 256 ^ length bs" if "decode_uint bs = Inr n"
  proof -
    from that have "be_val bs < 2 ^ 32" "n = of_nat (be_val bs)"
      by (simp_all add: decode_uint_spec split: if_splits)
    then have "unat n = be_val bs" by (simp add: unat_of_nat)
    with be_val_bound [of bs] show ?thesis by simp
  qed
  then show ?thesis by (simp add: encode_uint_def encoded_uint_length)
qed

theorem uint_codec_witness:
  "decode_uint [0, 1, 2] = Inr 258 \<and> length (eu_as_bytes (encode_uint 258)) \<le> length [0, 1, 2 :: u8]"
proof -
  have d: "decode_uint [0, 1, 2] = Inr 258" by code_simp
  with uint_codec [of 258 "[0, 1, 2]"] show ?thesis by blast
qed

text \<open>
  C8: the Block codec. A legal NUM/M/SZX survives encoding and decoding and takes at most three
  bytes; conversely every value of at most three bytes decodes, to the one legal block whose packed
  integer it is, and every longer value is refused.
\<close>

theorem block_codec:
  assumes "block_wf b"
  shows "block_decode (eu_as_bytes (block_encode b)) = Inr b \<and>
         length (eu_as_bytes (block_encode b)) \<le> 3 \<and>
         (length bs \<le> 3 \<longrightarrow> (\<exists>c. block_decode bs = Inr c \<and> block_wf c \<and>
            unat (block_as_uint c) = be_val bs)) \<and>
         (3 < length bs \<longrightarrow> block_decode bs = Inl VE_UintOverflow)"
proof (intro conjI impI)
  have u: "unat (block_as_uint b) < 256 ^ 3" using block_as_uint_bound [OF assms] by simp
  from encoded_uint_length [OF u] show l: "length (eu_as_bytes (block_encode b)) \<le> 3"
    by (simp add: block_encode_def)
  obtain c where c: "block_from_uint (block_as_uint b) = Inr c" "block_wf c"
      "block_as_uint c = block_as_uint b"
    using block_from_uint_spec [OF block_as_uint_bound [OF assms]] by blast
  then have "c = b" using block_as_uint_inj assms by blast
  with c l show "block_decode (eu_as_bytes (block_encode b)) = Inr b"
    by (simp add: block_decode_def block_encode_def)
next
  assume l: "length bs \<le> 3"
  then have "(256 :: nat) ^ length bs \<le> 256 ^ 3" by (intro power_increasing) simp_all
  with be_val_bound [of bs] have v: "be_val bs < 16777216" by simp
  then have "unat (of_nat (be_val bs) :: u32) = be_val bs" by (simp add: unat_of_nat)
  with block_from_uint_spec [of "of_nat (be_val bs)"] v l
  show "\<exists>c. block_decode bs = Inr c \<and> block_wf c \<and> unat (block_as_uint c) = be_val bs"
    by (auto simp: block_decode_def decode_uint_spec)
qed (simp add: block_decode_def)

theorem block_codec_witness:
  "block_wf \<lparr>bv_num = 5, bv_more = True, bv_szx = 6\<rparr> \<and>
   block_decode (eu_as_bytes (block_encode \<lparr>bv_num = 5, bv_more = True, bv_szx = 6\<rparr>)) =
     Inr \<lparr>bv_num = 5, bv_more = True, bv_szx = 6\<rparr>"
proof -
  have "block_wf \<lparr>bv_num = 5, bv_more = True, bv_szx = 6\<rparr>" by code_simp
  with block_codec [of "\<lparr>bv_num = 5, bv_more = True, bv_szx = 6\<rparr>"] show ?thesis by blast
qed

text \<open>
  C7: early exit loses nothing. On a decoded message the lookup iterator \<open>OptionsByNumber\<close>, which
  stops at the first larger option number, yields exactly the options with that number, in wire order,
  and \<open>get_option\<close> is the first of them.
\<close>

theorem option_lookup_complete:
  assumes "decode buf = Inr m" "length buf \<le> usize_max"
  shows "obn_list (get_options m n) = filter (\<lambda>x. opt_number x = n) (pm_iter m) \<and>
         get_option m n = find (\<lambda>x. opt_number x = n) (pm_iter m)"
proof -
  obtain p where "decode_parts buf False = Inr p" "pm_options m = pt_options p"
    using assms(1) by (auto simp: decode_def and_then_Inr_iff)
  from decoded_ascending [OF this(1) assms(2) this(2)] show ?thesis
    by (simp add: get_options_filter get_option_find)
qed

theorem option_lookup_complete_witness:
  "\<exists>m. decode [0x40, 1, 0, 9, 0xB1, 0x61, 0x01, 0x62, 0x40] = Inr m \<and>
       obn_list (get_options m OPT_URI_PATH) = filter (\<lambda>x. opt_number x = OPT_URI_PATH) (pm_iter m)"
proof -
  have "is_ok (decode [0x40, 1, 0, 9, 0xB1, 0x61, 0x01, 0x62, 0x40])" by code_simp
  then obtain m where m: "decode [0x40, 1, 0, 9, 0xB1, 0x61, 0x01, 0x62, 0x40] = Inr m"
    by (auto simp: is_ok_def split: sum.splits)
  have "length [0x40, 1, 0, 9, 0xB1, 0x61, 0x01, 0x62, 0x40 :: u8] \<le> usize_max"
    by (simp add: usize_max_def)
  from option_lookup_complete [OF m this] m show ?thesis by blast
qed

text \<open>
  C9: conditional requests. The classification of If-Match and If-None-Match holds exactly when
  If-None-Match, if present, meets no stored representation, and If-Match, if present, has an empty
  value or the current ETag among its values while a representation exists; it is \<open>Unconditional\<close>
  exactly when neither option is present.
\<close>

theorem precondition_classification:
  assumes "decode buf = Inr m" "length buf \<le> usize_max"
  shows "(precondition_holds (pm_precondition m exist etag) \<longleftrightarrow>
            \<not> (OPT_IF_NONE_MATCH \<in> opt_number ` set (pm_iter m) \<and> exist) \<and>
            (OPT_IF_MATCH \<notin> opt_number ` set (pm_iter m) \<or>
             exist \<and> (\<exists>x\<in>set (pm_iter m). opt_number x = OPT_IF_MATCH \<and>
                       (opt_value x = [] \<or> etag = Some (opt_value x))))) \<and>
         (pm_precondition m exist etag = Unconditional \<longleftrightarrow>
            OPT_IF_NONE_MATCH \<notin> opt_number ` set (pm_iter m) \<and>
            OPT_IF_MATCH \<notin> opt_number ` set (pm_iter m))"
proof -
  obtain p where "decode_parts buf False = Inr p" "pm_options m = pt_options p"
    using assms(1) by (auto simp: decode_def and_then_Inr_iff)
  from decoded_ascending [OF this(1) assms(2) this(2)] have a: "ascending 0 (pm_iter m)" .
  define NM where "NM \<longleftrightarrow> OPT_IF_NONE_MATCH \<in> opt_number ` set (pm_iter m)"
  define IM where "IM \<longleftrightarrow> OPT_IF_MATCH \<in> opt_number ` set (pm_iter m)"
  define V where "V \<longleftrightarrow> (\<exists>x\<in>set (pm_iter m). opt_number x = OPT_IF_MATCH \<and>
    (opt_value x = [] \<or> etag = Some (opt_value x)))"
  have h: "if_match_holds m exist etag \<longleftrightarrow> \<not> IM \<or> exist \<and> V"
    using a by (auto simp: if_match_holds_def if_match_loop_spec pm_if_match_def get_options_filter
        filter_empty_conv IM_def V_def image_iff)
  have g: "pm_if_none_match m \<longleftrightarrow> NM" "get_option m OPT_IF_MATCH \<noteq> None \<longleftrightarrow> IM"
    using get_option_none_iff [OF a] by (simp_all add: pm_if_none_match_def NM_def IM_def)
  show ?thesis
    unfolding pm_precondition_def precondition_holds_def h g V_def [symmetric] NM_def [symmetric]
      IM_def [symmetric]
    by (cases NM; cases IM; cases exist; cases V) simp_all
qed

theorem precondition_classification_witness:
  "\<exists>m. decode [0x40, 3, 0, 9, 0x11, 7] = Inr m \<and> \<not> precondition_holds (pm_precondition m True (Some [8]))"
proof -
  have "is_ok (decode [0x40, 3, 0, 9, 0x11, 7])" by code_simp
  then obtain m where m: "decode [0x40, 3, 0, 9, 0x11, 7] = Inr m"
    by (auto simp: is_ok_def split: sum.splits)
  have l: "length [0x40, 3, 0, 9, 0x11, 7 :: u8] \<le> usize_max" by (simp add: usize_max_def)
  have "map_ok pm_iter (decode [0x40, 3, 0, 9, 0x11, 7]) = Inr [opt_new OPT_IF_MATCH [7]]"
    by code_simp
  with m have "pm_iter m = [opt_new OPT_IF_MATCH [7]]" by simp
  with precondition_classification [OF m l, of True "Some [8]"] m show ?thesis
    by (auto simp: opt_new_def)
qed

end
