(* ===== verification/Msg_Fields.thy ===== *)
theory Msg_Fields
  imports Msg_Value
begin

text \<open>
  The small option types (\<open>src/message/hop.rs\<close>, \<open>no_response.rs\<close>, \<open>echo.rs\<close>) and the
  fixed-capacity option list (\<open>src/message/builder.rs\<close>). The builder is an array of \<open>N\<close> slots and a
  length; its insertion loop shifts slots to the right one at a time, and is shown to be a stable sort.
\<close>

section \<open>Hop-Limit\<close>

type_synonym hop_limit = u8

definition HOP_DEFAULT :: hop_limit where "HOP_DEFAULT = 16"
definition HOP_MIN :: u8 where "HOP_MIN = 1"

definition hop_new :: "u8 \<Rightarrow> value_error + hop_limit" where
  "hop_new n = (if n < HOP_MIN then Inl VE_HopLimit else Inr n)"

definition hop_decode :: "bytes \<Rightarrow> value_error + hop_limit" where
  "hop_decode bs = (case bs of [n] \<Rightarrow> hop_new n | _ \<Rightarrow> Inl VE_HopLimit)"

definition hop_from_option :: "bytes option \<Rightarrow> hop_limit option" where
  "hop_from_option o1 = Option.bind o1 (\<lambda>b. to_ok (hop_decode b))"

definition pm_hop_limit :: "('t, 'z) parsed_message_scheme \<Rightarrow> (value_error + hop_limit) option" where
  "pm_hop_limit m = map_option (\<lambda>x. hop_decode (opt_value x)) (get_option m OPT_HOP_LIMIT)"

definition hop_from_message ::
  "('t, 'z) parsed_message_scheme \<Rightarrow> value_error + hop_limit option" where
  "hop_from_message m = (case pm_hop_limit m of None \<Rightarrow> Inr None | Some r \<Rightarrow> map_ok Some r)"

definition hop_decrement :: "hop_limit \<Rightarrow> hop_limit option" where
  "hop_decrement h = to_ok (hop_new (saturating_sub h 1))"

definition hop_encode :: "hop_limit \<Rightarrow> encoded_uint" where
  "hop_encode h = encoded_uint_new (ucast h)"

section \<open>No-Response\<close>

type_synonym no_response = u8

definition NR_DEFAULT :: no_response where "NR_DEFAULT = 0"
definition SUPPRESS_2 :: u8 where "SUPPRESS_2 = 2"
definition SUPPRESS_4 :: u8 where "SUPPRESS_4 = 8"
definition SUPPRESS_5 :: u8 where "SUPPRESS_5 = 16"
definition SUPPRESS_ALL :: u8 where "SUPPRESS_ALL = SUPPRESS_2 OR SUPPRESS_4 OR SUPPRESS_5"

definition nr_decode :: "bytes \<Rightarrow> value_error + no_response" where
  "nr_decode bs = (case bs of [] \<Rightarrow> Inr NR_DEFAULT | [b] \<Rightarrow> Inr b | _ \<Rightarrow> Inl VE_NoResponseLength)"

definition nr_from_option :: "bytes option \<Rightarrow> no_response option" where
  "nr_from_option o1 = Option.bind o1 (\<lambda>b. to_ok (nr_decode b))"

definition pm_no_response ::
  "('t, 'z) parsed_message_scheme \<Rightarrow> (value_error + no_response) option" where
  "pm_no_response m = map_option (\<lambda>x. nr_decode (opt_value x)) (get_option m OPT_NO_RESPONSE)"

definition nr_from_message :: "('t, 'z) parsed_message_scheme \<Rightarrow> value_error + no_response" where
  "nr_from_message m = (case pm_no_response m of None \<Rightarrow> Inr NR_DEFAULT | Some r \<Rightarrow> r)"

definition nr_suppresses :: "no_response \<Rightarrow> code \<Rightarrow> bool" where
  "nr_suppresses nr code =
     (if \<not> code_is_response code then False
      else
        let cls = code_class code in
        if cls = 0 \<or> 8 < cls then False
        else nr AND push_bit (unat (cls - 1)) 1 \<noteq> 0)"

definition nr_encode :: "no_response \<Rightarrow> encoded_uint" where
  "nr_encode nr = encoded_uint_new (ucast nr)"

section \<open>Echo\<close>

record echo =
  echo_bytes :: bytes
  echo_len :: u8

definition ECHO_MAX_LEN :: nat where "ECHO_MAX_LEN = 40"
definition TIME_PREFIX_LEN :: nat where "TIME_PREFIX_LEN = 8"

definition echo_new :: "bytes \<Rightarrow> value_error + echo" where
  "echo_new bs =
     (if bs = [] \<or> ECHO_MAX_LEN < length bs then Inl VE_EchoLength
      else Inr \<lparr>echo_bytes = blit (replicate ECHO_MAX_LEN 0) 0 bs, echo_len = of_nat (length bs)\<rparr>)"

definition echo_from_option :: "bytes option \<Rightarrow> echo option" where
  "echo_from_option o1 = Option.bind o1 (\<lambda>b. to_ok (echo_new b))"

definition echo_from_message :: "('t, 'z) parsed_message_scheme \<Rightarrow> value_error + echo option" where
  "echo_from_message m =
     (case pm_echo m of None \<Rightarrow> Inr None | Some bs \<Rightarrow> map_ok Some (echo_new bs))"

definition echo_mint :: "u64 \<Rightarrow> bytes \<Rightarrow> value_error + echo" where
  "echo_mint now_ms pad =
     (let total = min (TIME_PREFIX_LEN + length pad) usize_max in
      if ECHO_MAX_LEN < total then Inl VE_EchoLength
      else
        let bytes = replicate ECHO_MAX_LEN 0;
            bytes = blit bytes 0 (u64_to_be now_ms);
            bytes = blit bytes TIME_PREFIX_LEN pad
        in echo_new (take total bytes))"

definition echo_as_slice :: "echo \<Rightarrow> bytes" where
  "echo_as_slice e = take (unat (echo_len e)) (echo_bytes e)"

definition echo_issued_at :: "echo \<Rightarrow> u64 option" where
  "echo_issued_at e =
     (if unat (echo_len e) < TIME_PREFIX_LEN then None
      else Some (word_from_be (take TIME_PREFIX_LEN (echo_bytes e))))"

definition echo_age_ms :: "echo \<Rightarrow> u64 \<Rightarrow> u64 option" where
  "echo_age_ms e now_ms = Option.bind (echo_issued_at e) (\<lambda>t. checked_sub_w now_ms t)"

definition echo_is_time_fresh :: "echo \<Rightarrow> u64 \<Rightarrow> u64 \<Rightarrow> bool" where
  "echo_is_time_fresh e now_ms fresh_ms =
     (case echo_age_ms e now_ms of Some age \<Rightarrow> age < fresh_ms | None \<Rightarrow> False)"

datatype echo_freshness = EchoMissing | EchoInvalid | EchoStale | EchoFresh

definition needs_challenge :: "echo_freshness \<Rightarrow> bool" where
  "needs_challenge f \<longleftrightarrow> f \<noteq> EchoFresh"

definition echo_freshness_of ::
  "('t, 'z) parsed_message_scheme \<Rightarrow> u64 \<Rightarrow> u64 \<Rightarrow> echo_freshness" where
  "echo_freshness_of m now_ms fresh_ms =
     (case echo_from_message m of
        Inr None \<Rightarrow> EchoMissing
      | Inl _ \<Rightarrow> EchoInvalid
      | Inr (Some e) \<Rightarrow> if echo_is_time_fresh e now_ms fresh_ms then EchoFresh else EchoStale)"

section \<open>The options builder\<close>

record options_builder =
  ob_items :: "opt list"
  ob_len :: nat

datatype options_full = OptionsFull

definition PLACEHOLDER :: opt where "PLACEHOLDER = opt_new 0 []"

definition builder_new :: "nat \<Rightarrow> options_builder" where
  "builder_new N = \<lparr>ob_items = replicate N PLACEHOLDER, ob_len = 0\<rparr>"

fun push_shift :: "opt \<Rightarrow> opt list \<Rightarrow> nat \<Rightarrow> opt list" where
  "push_shift x items 0 = items[0 := x]"
| "push_shift x items (Suc i) =
     (if opt_number x < opt_number (items ! i)
      then push_shift x (items[Suc i := items ! i]) i
      else items[Suc i := x])"

definition builder_push ::
  "nat \<Rightarrow> options_builder \<Rightarrow> opt \<Rightarrow> (options_full + unit) \<times> options_builder" where
  "builder_push N b x =
     (if N \<le> ob_len b then (Inl OptionsFull, b)
      else (Inr (), \<lparr>ob_items = push_shift x (ob_items b) (ob_len b), ob_len = ob_len b + 1\<rparr>))"

definition builder_as_slice :: "options_builder \<Rightarrow> opt list" where
  "builder_as_slice b = take (ob_len b) (ob_items b)"

definition builder_is_full :: "nat \<Rightarrow> options_builder \<Rightarrow> bool" where
  "builder_is_full N b \<longleftrightarrow> ob_len b = N"

definition builder_remaining :: "nat \<Rightarrow> options_builder \<Rightarrow> nat" where
  "builder_remaining N b = N - ob_len b"

definition builder_clear :: "options_builder \<Rightarrow> options_builder" where
  "builder_clear b = b\<lparr>ob_len := 0\<rparr>"

section \<open>The builder is a stable sort\<close>

definition builder_wf :: "nat \<Rightarrow> options_builder \<Rightarrow> bool" where
  "builder_wf N b \<longleftrightarrow> length (ob_items b) = N \<and> ob_len b \<le> N \<and>
     sorted (map opt_number (builder_as_slice b))"

text \<open>Insertion behind every element that is not larger.\<close>

definition insert_behind :: "opt \<Rightarrow> opt list \<Rightarrow> opt list" where
  "insert_behind x xs =
     takeWhile (\<lambda>y. opt_number y \<le> opt_number x) xs @
     x # dropWhile (\<lambda>y. opt_number y \<le> opt_number x) xs"

lemma push_shift_length [simp]: "length (push_shift x items i) = length items"
  by (induction x items i rule: push_shift.induct) auto

lemma insert_behind_snoc:
  assumes "sorted (map opt_number (xs @ [y]))"
  shows "insert_behind x (xs @ [y]) =
     (if opt_number x < opt_number y then insert_behind x xs @ [y] else xs @ [y, x])"
proof (cases "opt_number x < opt_number y")
  case True
  then show ?thesis
    by (cases "\<forall>z\<in>set xs. opt_number z \<le> opt_number x")
      (auto simp: insert_behind_def takeWhile_append dropWhile_append not_le
        dropWhile_eq_Nil_conv [THEN iffD2] takeWhile_eq_all_conv [THEN iffD2])
next
  case False
  then have "\<forall>z\<in>set (xs @ [y]). opt_number z \<le> opt_number x"
    using assms by (auto simp: sorted_append not_less intro: order.trans)
  then show ?thesis using False by (simp add: insert_behind_def)
qed

lemma push_shift_above: "i < j \<Longrightarrow> push_shift x items i ! j = items ! j"
  by (induction x items i rule: push_shift.induct) auto

lemma push_shift_spec:
  "i < length items \<Longrightarrow> sorted (map opt_number (take i items)) \<Longrightarrow>
   take (Suc i) (push_shift x items i) = insert_behind x (take i items)"
proof (induction x items i rule: push_shift.induct)
  case (1 x items)
  then show ?case by (cases items) (simp_all add: insert_behind_def)
next
  case (2 x items i)
  have tk: "take (Suc i) items = take i items @ [items ! i]"
    using "2.prems"(1) by (simp add: take_Suc_conv_app_nth)
  note ib = insert_behind_snoc [of "take i items" "items ! i" x, folded tk, OF "2.prems"(2)]
  show ?case
  proof (cases "opt_number x < opt_number (items ! i)")
    case True
    let ?s = "push_shift x (items[Suc i := items ! i]) i"
    have srt: "sorted (map opt_number (take i items))"
      using "2.prems"(2) unfolding tk by (simp add: sorted_append)
    have "take (Suc i) ?s = insert_behind x (take i items)"
      using "2.IH" [OF True] "2.prems"(1) srt by simp
    moreover have "?s ! Suc i = items ! i"
      using "2.prems"(1) by (simp add: push_shift_above)
    ultimately show ?thesis
      using True ib "2.prems"(1) by (simp add: take_Suc_conv_app_nth [of "Suc i"])
  next
    case False
    then show ?thesis
      using ib "2.prems"(1) by (simp add: take_Suc_conv_app_nth [of "Suc i"] tk)
  qed
qed

lemma insert_behind_simps [simp]:
  "insert_behind x [] = [x]"
  "insert_behind x (y # ys) =
     (if opt_number y \<le> opt_number x then y # insert_behind x ys else x # y # ys)"
  by (simp_all add: insert_behind_def)

lemma mset_insert_behind [simp]: "mset (insert_behind x xs) = add_mset x (mset xs)"
  by (induction xs) auto

lemma set_insert_behind [simp]: "set (insert_behind x xs) = insert x (set xs)"
  by (induction xs) auto

lemma sorted_insert_behind:
  "sorted (map opt_number xs) \<Longrightarrow> sorted (map opt_number (insert_behind x xs))"
  by (induction xs) (auto intro: order.trans less_imp_le)

lemma filter_insert_behind:
  "sorted (map opt_number xs) \<Longrightarrow>
   filter (\<lambda>y. opt_number y = n) (insert_behind x xs) =
   filter (\<lambda>y. opt_number y = n) xs @ (if opt_number x = n then [x] else [])"
proof (induction xs)
  case (Cons y ys)
  show ?case
  proof (cases "opt_number y \<le> opt_number x")
    case False
    with Cons.prems have "\<forall>z\<in>set (y # ys). opt_number x < opt_number z"
      by (auto intro: less_le_trans)
    then have "opt_number x = n \<longrightarrow> filter (\<lambda>y. opt_number y = n) (y # ys) = []"
      by (auto simp: filter_empty_conv simp del: filter.simps)
    with False show ?thesis by (auto simp del: filter.simps simp: filter.simps(2) [of _ x])
  qed (use Cons in auto)
qed simp

definition push_all :: "nat \<Rightarrow> opt list \<Rightarrow> options_builder \<Rightarrow> options_builder" where
  "push_all N xs b = foldl (\<lambda>b x. snd (builder_push N b x)) b xs"

lemma builder_push_spec:
  assumes "builder_wf N b" "ob_len b < N"
  shows "fst (builder_push N b x) = Inr ()"
    "builder_as_slice (snd (builder_push N b x)) = insert_behind x (builder_as_slice b)"
    "ob_len (snd (builder_push N b x)) = ob_len b + 1"
    "builder_wf N (snd (builder_push N b x))"
proof -
  show "fst (builder_push N b x) = Inr ()" "ob_len (snd (builder_push N b x)) = ob_len b + 1"
    using assms(2) by (simp_all add: builder_push_def)
  show s: "builder_as_slice (snd (builder_push N b x)) = insert_behind x (builder_as_slice b)"
    using assms push_shift_spec [of "ob_len b" "ob_items b" x]
    by (simp add: builder_push_def builder_as_slice_def builder_wf_def)
  show "builder_wf N (snd (builder_push N b x))"
    unfolding builder_wf_def s using assms
    by (simp add: builder_push_def builder_wf_def sorted_insert_behind)
qed

lemma push_all_spec:
  assumes "length xs \<le> N"
  shows "builder_wf N (push_all N xs (builder_new N)) \<and>
    ob_len (push_all N xs (builder_new N)) = length xs \<and>
    mset (builder_as_slice (push_all N xs (builder_new N))) = mset xs \<and>
    (\<forall>n. filter (\<lambda>y. opt_number y = n) (builder_as_slice (push_all N xs (builder_new N))) =
         filter (\<lambda>y. opt_number y = n) xs)"
  using assms
proof (induction xs rule: rev_induct)
  case Nil
  show ?case by (simp add: push_all_def builder_new_def builder_wf_def builder_as_slice_def)
next
  case (snoc x xs)
  let ?b = "push_all N xs (builder_new N)"
  have b: "builder_wf N ?b" "ob_len ?b < N" using snoc by simp_all
  have p: "push_all N (xs @ [x]) (builder_new N) = snd (builder_push N ?b x)"
    by (simp add: push_all_def)
  have "sorted (map opt_number (builder_as_slice ?b))" using b(1) by (simp add: builder_wf_def)
  with builder_push_spec [OF b, of x] snoc show ?case
    unfolding p by (simp add: filter_insert_behind)
qed

lemma push_all_sort:
  assumes "length xs \<le> N"
  shows "builder_as_slice (push_all N xs (builder_new N)) = sort_key opt_number xs"
proof -
  note s = push_all_spec [OF assms]
  have c: "(\<lambda>x. opt_number k = opt_number x) = (\<lambda>y. opt_number y = opt_number k)" for k by auto
  have "sort_key opt_number xs = builder_as_slice (push_all N xs (builder_new N))"
  proof (rule properties_for_sort_key)
    show "mset (builder_as_slice (push_all N xs (builder_new N))) = mset xs" using s by blast
    show "filter (\<lambda>x. opt_number k = opt_number x) (builder_as_slice (push_all N xs (builder_new N))) =
        filter (\<lambda>x. opt_number k = opt_number x) xs" for k
      unfolding c using s by blast
    show "sorted (map opt_number (builder_as_slice (push_all N xs (builder_new N))))"
      using s by (simp add: builder_wf_def)
  qed
  then show ?thesis by simp
qed

section \<open>Properties\<close>

text \<open>
  C38: the builder sorts stably. Pushing any sequence of at most \<open>N\<close> options into an empty builder
  succeeds and leaves exactly that sequence sorted by option number, with options of equal number in
  the order they were pushed; a push into a full builder is refused and changes nothing.
\<close>

theorem builder_stable_sort:
  "(length xs \<le> N \<longrightarrow>
      builder_as_slice (push_all N xs (builder_new N)) = sort_key opt_number xs \<and>
      ob_len (push_all N xs (builder_new N)) = length xs) \<and>
   (ob_len b = N \<longrightarrow> builder_push N b x = (Inl OptionsFull, b))"
  using push_all_sort push_all_spec by (simp add: builder_push_def)

theorem builder_stable_sort_witness:
  "builder_as_slice (push_all 3 [opt_new 11 [1], opt_new 3 [], opt_new 11 [2]] (builder_new 3)) =
     [opt_new 3 [], opt_new 11 [1], opt_new 11 [2]]"
proof -
  let ?xs = "[opt_new 11 [1], opt_new 3 [], opt_new 11 [2]]"
  have "length ?xs \<le> 3" by simp
  then have "builder_as_slice (push_all 3 ?xs (builder_new 3)) = sort_key opt_number ?xs"
    using builder_stable_sort [of ?xs 3] by blast
  also have "\<dots> = [opt_new 3 [], opt_new 11 [1], opt_new 11 [2]]"
    by (simp add: opt_new_def)
  finally show ?thesis .
qed

text \<open>
  Time-based Echo. A value minted at \<open>now\<close> carries exactly that timestamp, and is fresh at a
  later reading \<open>t\<close> exactly when the clock has not gone back and less than \<open>fresh\<close> milliseconds have
  passed; a reading before the minting time is never fresh.
\<close>

theorem echo_mint_freshness:
  assumes "echo_mint now pad = Inr e"
  shows "echo_as_slice e = u64_to_be now @ pad \<and> echo_issued_at e = Some now \<and>
         (echo_is_time_fresh e t fresh \<longleftrightarrow> unat now \<le> unat t \<and> unat t - unat now < unat fresh)"
proof -
  let ?s = "u64_to_be now @ pad"
  have l: "length pad \<le> 32" "min (8 + length pad) usize_max = 8 + length pad"
    using assms
    by (auto simp: echo_mint_def Let_def ECHO_MAX_LEN_def TIME_PREFIX_LEN_def usize_max_def min_def
        split: if_splits)
  have "blit (blit (replicate 40 0) 0 (u64_to_be now)) 8 pad = ?s @ replicate (32 - length pad) 0"
    using l(1) blit_blit [of 0 "u64_to_be now" pad "replicate 40 0"] by simp
  then have "echo_mint now pad = echo_new ?s"
    using l by (simp add: echo_mint_def ECHO_MAX_LEN_def TIME_PREFIX_LEN_def Let_def)
  moreover have "u64_to_be now \<noteq> []" "length ?s \<le> 40" using l by (auto simp flip: length_0_conv)
  ultimately have e: "e = \<lparr>echo_bytes = ?s @ replicate (32 - length pad) 0,
      echo_len = of_nat (8 + length pad)\<rparr>"
    using assms l(1) by (simp add: echo_new_def ECHO_MAX_LEN_def)
  have u: "unat (of_nat (8 + length pad) :: u8) = 8 + length pad"
    using l(1) by (intro unat_of_nat_u8) simp
  have s: "echo_as_slice e = ?s" unfolding echo_as_slice_def e using u by simp
  have i: "echo_issued_at e = Some now"
    unfolding echo_issued_at_def e using u by (simp add: TIME_PREFIX_LEN_def)
  show ?thesis
    using s i by (auto simp: echo_is_time_fresh_def echo_age_ms_def checked_sub_w_def word_le_nat_alt
        word_less_nat_alt unat_sub)
qed

theorem echo_mint_freshness_witness:
  "\<exists>e. echo_mint 1000 [7] = Inr e \<and> echo_issued_at e = Some 1000 \<and> \<not> echo_is_time_fresh e 999 5000"
proof -
  have "is_ok (echo_mint 1000 [7])" by code_simp
  then obtain e where e: "echo_mint 1000 [7] = Inr e" by (auto simp: is_ok_def split: sum.splits)
  from echo_mint_freshness [OF this, of 999 5000] e show ?thesis by simp
qed

end
