(* ===== verification/Msg_Missing.thy ===== *)
theory Msg_Missing
  imports Msg_Fields
begin

text \<open>
  The missing-blocks CBOR sequence (\<open>src/message/missing_blocks.rs\<close>). Writing goes byte by byte
  through \<open>put\<close>, which advances the cursor before the next byte can fail; the model keeps buffer and
  cursor on every branch, so that what an interrupted integer leaves behind is visible.
\<close>

datatype missing_blocks_error = ME_BufferTooSmall | ME_Invalid

definition put :: "bytes \<Rightarrow> nat \<Rightarrow> u8 \<Rightarrow> (missing_blocks_error + unit) \<times> bytes \<times> nat" where
  "put buf pos byte =
     (if length buf \<le> pos then (Inl ME_BufferTooSmall, buf, pos)
      else (Inr (), buf[pos := byte], pos + 1))"

fun put_seq :: "bytes \<Rightarrow> nat \<Rightarrow> bytes \<Rightarrow> (missing_blocks_error + unit) \<times> bytes \<times> nat" where
  "put_seq buf pos [] = (Inr (), buf, pos)"
| "put_seq buf pos (b # bs) =
     (case put buf pos b of
        (Inl e, buf, pos) \<Rightarrow> (Inl e, buf, pos)
      | (Inr _, buf, pos) \<Rightarrow> put_seq buf pos bs)"

text \<open>The bytes \<open>put_uint\<close> puts, in order.\<close>

definition uint_bytes :: "u64 \<Rightarrow> bytes" where
  "uint_bytes n =
     (if n \<le> 23 then [ucast n]
      else if n \<le> 255 then [24, ucast n]
      else if n \<le> 65535 then [25, ucast (drop_bit 8 n), ucast n]
      else if n \<le> 4294967295 then 26 # map (\<lambda>s. ucast (drop_bit s n)) [24, 16, 8, 0]
      else 27 # map (\<lambda>s. ucast (drop_bit s n)) [56, 48, 40, 32, 24, 16, 8, 0])"

definition put_uint :: "bytes \<Rightarrow> nat \<Rightarrow> u64 \<Rightarrow> (missing_blocks_error + unit) \<times> bytes \<times> nat" where
  "put_uint buf pos n = put_seq buf pos (uint_bytes n)"

fun missing_encode_loop ::
  "bytes \<Rightarrow> nat \<Rightarrow> u32 option \<Rightarrow> bool \<Rightarrow> u32 list \<Rightarrow> (missing_blocks_error + nat) \<times> bytes" where
  "missing_encode_loop buf pos prev wrote [] =
     (if wrote then (Inr pos, buf) else (Inl ME_Invalid, buf))"
| "missing_encode_loop buf pos prev wrote (num # nums) =
     (if (case prev of Some p \<Rightarrow> num \<le> p | None \<Rightarrow> False)
      then missing_encode_loop buf pos prev wrote nums
      else
        (case put_uint buf pos (ucast num) of
           (Inr _, buf, pos) \<Rightarrow> missing_encode_loop buf pos (Some num) True nums
         | (Inl e, buf, pos) \<Rightarrow>
             if e = ME_BufferTooSmall \<and> wrote then (Inr pos, buf) else (Inl e, buf)))"

definition missing_encode :: "u32 list \<Rightarrow> bytes \<Rightarrow> (missing_blocks_error + nat) \<times> bytes" where
  "missing_encode nums buf = missing_encode_loop buf 0 None False nums"

definition need_bytes :: "bytes \<Rightarrow> nat \<Rightarrow> nat \<Rightarrow> missing_blocks_error + unit" where
  "need_bytes bytes pos n = (if length bytes - pos < n then Inl ME_Invalid else Inr ())"

definition read_uint :: "bytes \<Rightarrow> nat \<Rightarrow> missing_blocks_error + u64 \<times> nat" where
  "read_uint bytes pos =
     and_then (need_bytes bytes pos 1) (\<lambda>_.
     let b = bytes ! pos;
         pos = pos + 1 in
     if drop_bit 5 b \<noteq> 0 then Inl ME_Invalid
     else
       let ai = b AND 0x1f in
       if ai \<le> 23 then Inr (ucast ai, pos)
       else if ai = 24 then
         and_then (need_bytes bytes pos 1) (\<lambda>_. Inr (ucast (bytes ! pos), pos + 1))
       else if ai = 25 then
         and_then (need_bytes bytes pos 2)
           (\<lambda>_. Inr (ucast (u16_from_be (bytes ! pos) (bytes ! (pos + 1))), pos + 2))
       else if ai = 26 then
         and_then (need_bytes bytes pos 4)
           (\<lambda>_. Inr (ucast (word_from_be (take 4 (drop pos bytes)) :: u32), pos + 4))
       else if ai = 27 then
         and_then (need_bytes bytes pos 8)
           (\<lambda>_. Inr (word_from_be (take 8 (drop pos bytes)), pos + 8))
       else Inl ME_Invalid)"

lemma read_uint_advance: "read_uint bytes pos = Inr (n, pos') \<Longrightarrow> pos < pos' \<and> pos < length bytes"
  by (auto simp: read_uint_def need_bytes_def Let_def and_then_Inr_iff split: if_splits)

function missing_decode_loop ::
  "bytes \<Rightarrow> nat \<Rightarrow> nat \<Rightarrow> u32 option \<Rightarrow> u32 list \<Rightarrow> (missing_blocks_error + nat) \<times> u32 list" where
  "missing_decode_loop bytes pos n prev out =
     (if pos < length bytes then
        (case read_uint bytes pos of
           Inl e \<Rightarrow> (Inl e, out)
         | Inr (raw, pos') \<Rightarrow>
             if 4294967295 < raw then (Inl ME_Invalid, out)
             else
               let num = ucast raw in
               if (case prev of Some p \<Rightarrow> num \<le> p | None \<Rightarrow> False) then (Inl ME_Invalid, out)
               else if length out \<le> n then (Inl ME_BufferTooSmall, out)
               else missing_decode_loop bytes pos' (n + 1) (Some num) (out[n := num]))
      else if n = 0 then (Inl ME_Invalid, out)
      else (Inr n, out))"
  by pat_completeness auto
termination
  by (relation "measure (\<lambda>(bytes, pos, n, prev, out). length bytes - pos)")
    (auto dest!: read_uint_advance intro: diff_less_mono2)

declare missing_decode_loop.simps [simp del]

definition missing_decode :: "bytes \<Rightarrow> u32 list \<Rightarrow> (missing_blocks_error + nat) \<times> u32 list" where
  "missing_decode bytes out =
     (if bytes = [] then (Inl ME_Invalid, out) else missing_decode_loop bytes 0 0 None out)"

section \<open>Writing\<close>

text \<open>The numbers that get written: each one strictly above the last one written.\<close>

fun records_above :: "u32 option \<Rightarrow> u32 list \<Rightarrow> u32 list" where
  "records_above prev [] = []"
| "records_above prev (n # ns) =
     (if (case prev of Some p \<Rightarrow> n \<le> p | None \<Rightarrow> False) then records_above prev ns
      else n # records_above (Some n) ns)"

definition uint_seq :: "u32 list \<Rightarrow> bytes" where
  "uint_seq ns = concat (map (\<lambda>n. uint_bytes (ucast n)) ns)"

lemma uint_seq_simps [simp]:
  "uint_seq [] = []"
  "uint_seq (n # ns) = uint_bytes (ucast n) @ uint_seq ns"
  by (simp_all add: uint_seq_def)

lemma put_seq_ok:
  "pos + length bs \<le> length buf \<Longrightarrow> put_seq buf pos bs = (Inr (), blit buf pos bs, pos + length bs)"
proof (induction bs arbitrary: buf pos)
  case Nil
  then show ?case by simp
next
  case (Cons b bs)
  have "buf[pos := b] = blit buf pos [b]"
    using Cons.prems by (simp add: blit_def upd_conv_take_nth_drop)
  then show ?case
    using Cons blit_blit [of pos "[b]" bs buf] by (simp add: put_def)
qed

lemma missing_encode_loop_ok:
  "pos + length (uint_seq (records_above prev nums)) \<le> length buf \<Longrightarrow>
   missing_encode_loop buf pos prev wrote nums =
     (if wrote \<or> records_above prev nums \<noteq> []
      then (Inr (pos + length (uint_seq (records_above prev nums))),
            blit buf pos (uint_seq (records_above prev nums)))
      else (Inl ME_Invalid, buf))"
proof (induction nums arbitrary: buf pos prev wrote)
  case Nil
  then show ?case by simp
next
  case (Cons n ns)
  show ?case
  proof (cases "case prev of Some p \<Rightarrow> n \<le> p | None \<Rightarrow> False")
    case True
    then show ?thesis using Cons by simp
  next
    case False
    let ?u = "uint_bytes (ucast n)" and ?r = "uint_seq (records_above (Some n) ns)"
    have "put_uint buf pos (ucast n) = (Inr (), blit buf pos ?u, pos + length ?u)"
      using False Cons.prems by (simp add: put_uint_def put_seq_ok)
    moreover have "blit (blit buf pos ?u) (pos + length ?u) ?r = blit buf pos (?u @ ?r)"
      using False Cons.prems by (intro blit_blit) simp
    ultimately show ?thesis
      using False Cons.prems Cons.IH [of "pos + length ?u" "Some n" "blit buf pos ?u" True]
      by (simp add: add.assoc)
  qed
qed

lemma records_above_Nil: "records_above None nums = [] \<longleftrightarrow> nums = []"
  by (cases nums) simp_all

lemma missing_encode_ok:
  assumes "nums \<noteq> []" "length (uint_seq (records_above None nums)) \<le> length buf"
  shows "missing_encode nums buf =
     (Inr (length (uint_seq (records_above None nums))),
      uint_seq (records_above None nums) @ drop (length (uint_seq (records_above None nums))) buf)"
  using assms by (simp add: missing_encode_def missing_encode_loop_ok records_above_Nil)

section \<open>Reading\<close>

lemma need_bytes_ok [simp]: "n \<le> length bytes - pos \<Longrightarrow> need_bytes bytes pos n = Inr ()"
  by (simp add: need_bytes_def)

lemma unat_ucast_u8_u64: "unat (ucast (w :: u64) :: u8) = unat w mod 256"
  by (simp add: unsigned_ucast_eq take_bit_eq_mod)

lemma unat_low_5: "unat (b AND 31 :: u8) = unat b mod 32"
proof -
  have "b AND 31 = take_bit 5 b" by (simp add: take_bit_eq_mask mask_eq_exp_minus_1)
  then show ?thesis by (simp add: take_bit_eq_mod unat_mod_distrib)
qed

lemma small_uint_head:
  assumes "unat n \<le> 23"
  shows "drop_bit 5 (ucast (n :: u64) :: u8) = 0" "(ucast n :: u8) AND 31 = ucast n"
    "(ucast n :: u8) \<le> 23" "ucast (ucast n :: u8) = n"
  using assms
  by (simp_all add: word_unat_eq_iff word_le_nat_alt unat_low_5 unat_ucast_u8_u64 unat_ucast_le
      drop_bit_eq_div unat_div_distrib)

lemma ucast_be_16:
  assumes "unat n \<le> 65535"
  shows "ucast (u16_from_be (ucast (drop_bit 8 n)) (ucast n)) = (n :: u64)"
proof -
  have "unat (drop_bit 8 n) = unat n div 256"
    by (subst unat_drop_bit_eq) (simp add: drop_bit_eq_div)
  moreover have "unat n div 256 mod 256 = unat n div 256" using assms by simp
  ultimately show ?thesis
    by (simp add: word_unat_eq_iff unat_ucast_le unat_u16_from_be unat_ucast_u8_u64)
qed

lemma ucast_be_32:
  assumes "unat n \<le> 4294967295"
  shows "ucast (word_from_be (map (\<lambda>s. ucast (drop_bit s n) :: u8) [24, 16, 8, 0]) :: u32) = (n :: u64)"
proof -
  have "be_val (map (\<lambda>s. ucast (drop_bit s n) :: u8) [24, 16, 8, 0]) = unat n mod 256 ^ 4"
    using be_val_digits [of n 4] by (simp add: upt_rec)
  also have "\<dots> = unat n" using assms by simp
  finally have "be_val (map (\<lambda>s. ucast (drop_bit s n) :: u8) [24, 16, 8, 0]) = unat n" .
  moreover have "unat (of_nat (unat n) :: u32) = unat n" using assms by (intro unat_of_nat_u32) simp
  ultimately show ?thesis
    by (simp only: word_from_be_val word_unat_eq_iff) (simp add: unat_ucast_le)
qed

lemma read_uint_wire:
  assumes "unat n < 2 ^ 32"
  shows "read_uint (pre @ uint_bytes n @ rest) (length pre) = Inr (n, length pre + length (uint_bytes n))"
proof -
  consider "unat n \<le> 23" | "23 < unat n" "unat n \<le> 255" | "255 < unat n" "unat n \<le> 65535"
    | "65535 < unat n"
    by linarith
  then show ?thesis
  proof cases
    case 1
    then show ?thesis
      using small_uint_head [of n] by (simp add: read_uint_def uint_bytes_def word_le_nat_alt Let_def)
  next
    case 2
    then have "ucast (ucast n :: u8) = n"
      by (simp add: word_unat_eq_iff unat_ucast_le unat_ucast_u8_u64)
    with 2 show ?thesis
      by (simp add: read_uint_def uint_bytes_def word_le_nat_alt Let_def nth_append)
  next
    case 3
    then show ?thesis
      using ucast_be_16 [of n]
      by (simp add: read_uint_def uint_bytes_def word_le_nat_alt Let_def nth_append)
  next
    case 4
    with assms ucast_be_32 [of n] show ?thesis
      by (simp add: read_uint_def uint_bytes_def word_le_nat_alt Let_def nth_append)
  qed
qed

lemma uint_bytes_nonempty [simp]: "uint_bytes n \<noteq> []"
  by (simp add: uint_bytes_def)

lemma records_above_length: "length (records_above prev ns) \<le> length ns"
  by (induction ns arbitrary: prev) (auto intro: le_SucI)

lemma missing_decode_loop_wire:
  "records_above prev ns = ns \<Longrightarrow> n + length ns \<le> length out \<Longrightarrow> 0 < n + length ns \<Longrightarrow>
   missing_decode_loop (pre @ uint_seq ns) (length pre) n prev out =
     (Inr (n + length ns), blit out n ns)"
proof (induction ns arbitrary: pre n prev out)
  case Nil
  then show ?case by (subst missing_decode_loop.simps) simp
next
  case (Cons m ms)
  let ?u = "uint_bytes (ucast m)"
  have m: "unat (ucast m :: u64) = unat m" "unat m < 2 ^ 32"
    using unat_bound [of m] by (simp_all add: unat_ucast_le)
  have r: "read_uint (pre @ ?u @ uint_seq ms) (length pre) = Inr (ucast m, length pre + length ?u)"
    using m by (intro read_uint_wire) simp
  have a: "\<not> (case prev of Some p \<Rightarrow> m \<le> p | None \<Rightarrow> False)" "records_above (Some m) ms = ms"
    using Cons.prems(1) records_above_length [of prev ms] by (auto split: if_splits)
  have "out[n := m] = blit out n [m]"
    using Cons.prems(2) by (simp add: blit_def upd_conv_take_nth_drop)
  moreover have "blit (blit out n [m]) (n + 1) ms = blit out n (m # ms)"
    using Cons.prems(2) blit_blit [of n "[m]" ms out] by simp
  moreover have "(ucast (ucast m :: u64) :: u32) = m" by (rule bit_word_eqI) (simp add: bit_simps)
  moreover have "\<not> (4294967295 :: u64) < ucast m" using m by (simp add: word_less_nat_alt)
  ultimately show ?case
    using Cons.IH [of "Some m" "n + 1" "out[n := m]" "pre @ ?u"] Cons.prems(2) a r
    by (subst missing_decode_loop.simps) simp
qed

lemma records_above_idem [simp]: "records_above prev (records_above prev ns) = records_above prev ns"
  by (induction ns arbitrary: prev) auto

section \<open>Properties\<close>

text \<open>
  C39: missing-blocks round trip. When the buffer can hold the whole sequence, \<open>encode\<close> writes the
  block numbers that are strictly above the last one written, drops the others, and \<open>decode\<close> reads
  back exactly the written numbers into the caller's slots.
\<close>

theorem missing_blocks_roundtrip:
  assumes "nums \<noteq> []" "length (uint_seq (records_above None nums)) \<le> length buf"
    and "length (records_above None nums) \<le> length out"
  shows "\<exists>n buf'. missing_encode nums buf = (Inr n, buf') \<and> length buf' = length buf \<and>
     missing_decode (take n buf') out =
       (Inr (length (records_above None nums)),
        records_above None nums @ drop (length (records_above None nums)) out)"
proof -
  let ?r = "records_above None nums"
  have ne: "?r \<noteq> []" using assms(1) by (simp add: records_above_Nil)
  then have "uint_seq ?r \<noteq> []" by (cases ?r) simp_all
  moreover have "missing_decode_loop (uint_seq ?r) 0 0 None out = (Inr (length ?r), blit out 0 ?r)"
    using missing_decode_loop_wire [of None ?r 0 out "[]"] ne assms(3) by simp
  ultimately have "missing_decode (uint_seq ?r) out = (Inr (length ?r), ?r @ drop (length ?r) out)"
    using assms(3) by (simp add: missing_decode_def)
  with missing_encode_ok [OF assms(1,2)] assms(2) show ?thesis by simp
qed

theorem missing_blocks_roundtrip_witness:
  "\<exists>n buf'. missing_encode [1, 9, 9, 300] (replicate 8 0) = (Inr n, buf') \<and>
     missing_decode (take n buf') (replicate 4 7) = (Inr 3, [1, 9, 300, 7])"
proof -
  have r: "records_above None [1, 9, 9, 300] = [1, 9, 300]" by code_simp
  have "length (uint_seq [1, 9, 300]) = 5" by code_simp
  with missing_blocks_roundtrip [of "[1, 9, 9, 300]" "replicate 8 0" "replicate 4 7", unfolded r]
  show ?thesis by auto
qed


end
