(* ===== verification/Store_Occupancy.thy ===== *)
theory Store_Occupancy
  imports Coap_Prelude
begin

text \<open>
  Rotating slot occupancy (\<open>src/storage/occupancy.rs\<close>), slot identifiers and errors
  (\<open>src/storage/slot.rs\<close>) and endpoints (\<open>src/storage/endpoint.rs\<close>).

  A slot identifier is its index. \<open>acquire\<close> searches the flags in rotation order, in chunks of 32;
  the search is shown to find the first free slot in that order. What the pools and tables rely on is
  the locale \<open>slot_allocator\<close>, interpreted on \<open>Occupancy\<close>.
\<close>

type_synonym slot_id = nat

datatype slot_error = SE_InvalidSlot | SE_NotOccupied | SE_LengthExceedsSlot | SE_Pinned

section \<open>Endpoints\<close>

record endpoint =
  ep_octets :: bytes
  ep_scope :: u32
  ep_association :: u32
  ep_port :: u16
  ep_ipv6 :: bool

definition endpoint_physical :: "endpoint \<Rightarrow> endpoint" where
  "endpoint_physical e = e\<lparr>ep_association := 0\<rparr>"

definition endpoint_with_association :: "endpoint \<Rightarrow> u32 \<Rightarrow> endpoint" where
  "endpoint_with_association e a = e\<lparr>ep_association := a\<rparr>"

definition endpoint_v4 :: "u8 \<Rightarrow> u8 \<Rightarrow> u8 \<Rightarrow> u8 \<Rightarrow> u16 \<Rightarrow> endpoint" where
  "endpoint_v4 a b c d port =
     \<lparr>ep_octets = [a, b, c, d, 0, 0, 0, 0, 0, 0, 0, 0, 0, 0, 0, 0], ep_scope = 0,
      ep_association = 0, ep_port = port, ep_ipv6 = False\<rparr>"

definition endpoint_v6_scoped :: "bytes \<Rightarrow> u16 \<Rightarrow> u32 \<Rightarrow> endpoint" where
  "endpoint_v6_scoped addr port scope =
     \<lparr>ep_octets = addr, ep_scope = scope, ep_association = 0, ep_port = port, ep_ipv6 = True\<rparr>"

definition endpoint_v6 :: "bytes \<Rightarrow> u16 \<Rightarrow> endpoint" where
  "endpoint_v6 addr port = endpoint_v6_scoped addr port 0"

definition endpoint_as_ipv4 :: "endpoint \<Rightarrow> (bytes \<times> u16) option" where
  "endpoint_as_ipv4 e = (if ep_ipv6 e then None else Some (take 4 (ep_octets e), ep_port e))"

definition endpoint_as_ipv6 :: "endpoint \<Rightarrow> (bytes \<times> u16) option" where
  "endpoint_as_ipv6 e = (if ep_ipv6 e then Some (ep_octets e, ep_port e) else None)"

section \<open>Searching the flags\<close>

text \<open>\<open>Iterator::position\<close>.\<close>

fun position :: "('a \<Rightarrow> bool) \<Rightarrow> 'a list \<Rightarrow> nat option" where
  "position P [] = None"
| "position P (x # xs) = (if P x then Some 0 else map_option Suc (position P xs))"

definition CHUNK :: nat where "CHUNK = 32"

text \<open>The loop over \<open>as_chunks\<close>, with the chunk index; what is left at the end is the tail.\<close>

function chunk_search :: "nat \<Rightarrow> nat \<Rightarrow> bool list \<Rightarrow> nat option" where
  "chunk_search n index xs =
     (if length xs < CHUNK then map_option (\<lambda>i. n - length xs + i) (position Not xs)
      else
        let chunk = take CHUNK xs in
        if chunk \<noteq> replicate CHUNK True
        then map_option (\<lambda>i. index * CHUNK + i) (position Not chunk)
        else chunk_search n (index + 1) (drop CHUNK xs))"
  by pat_completeness auto
termination
  by (relation "measure (\<lambda>(n, index, xs). length xs)") (auto simp: CHUNK_def)

declare chunk_search.simps [simp del]

definition first_free :: "bool list \<Rightarrow> nat option" where
  "first_free occupied =
     (if length occupied < CHUNK then position Not occupied
      else chunk_search (length occupied) 0 occupied)"

section \<open>Operations on the flag slices\<close>

definition acquire_slice ::
  "bool list \<Rightarrow> bool list \<Rightarrow> nat \<Rightarrow> slot_id option \<times> bool list \<times> bool list \<times> nat" where
  "acquire_slice occupied pinned cursor =
     (let n = length occupied in
      if n = 0 then (None, occupied, pinned, cursor)
      else
        let start = cursor in
        case (if \<not> occupied ! start then Some start
              else (case map_option (\<lambda>offset. start + offset) (first_free (drop start occupied)) of
                      Some i \<Rightarrow> Some i
                    | None \<Rightarrow> first_free (take start occupied))) of
          None \<Rightarrow> (None, occupied, pinned, cursor)
        | Some idx \<Rightarrow>
            (Some idx, occupied[idx := True],
             if idx < length pinned then pinned[idx := False] else pinned,
             if idx + 1 = n then 0 else idx + 1))"

definition release_slice ::
  "bool list \<Rightarrow> bool list \<Rightarrow> slot_id \<Rightarrow> (slot_error + unit) \<times> bool list" where
  "release_slice occupied pinned i =
     (case get_at occupied i of
        None \<Rightarrow> (Inl SE_InvalidSlot, occupied)
      | Some slot \<Rightarrow>
          if \<not> slot then (Inl SE_NotOccupied, occupied)
          else if get_at pinned i = Some True then (Inl SE_Pinned, occupied)
          else (Inr (), occupied[i := False]))"

definition try_pin_slice ::
  "bool list \<Rightarrow> bool list \<Rightarrow> slot_id \<Rightarrow> (slot_error + unit) \<times> bool list" where
  "try_pin_slice occupied pinned i =
     (case get_at occupied i of
        None \<Rightarrow> (Inl SE_InvalidSlot, pinned)
      | Some occ \<Rightarrow>
          if \<not> occ then (Inl SE_NotOccupied, pinned)
          else
            (case get_at pinned i of
               None \<Rightarrow> (Inl SE_InvalidSlot, pinned)
             | Some pin \<Rightarrow>
                 if pin then (Inl SE_Pinned, pinned) else (Inr (), pinned[i := True])))"

definition is_pinned_slice :: "bool list \<Rightarrow> slot_id \<Rightarrow> bool" where
  "is_pinned_slice pinned i \<longleftrightarrow> get_at pinned i = Some True"

definition occupied_count_slice :: "bool list \<Rightarrow> nat" where
  "occupied_count_slice occupied = length (filter id occupied)"

definition is_occupied_slice :: "bool list \<Rightarrow> slot_id \<Rightarrow> bool" where
  "is_occupied_slice occupied i \<longleftrightarrow> get_at occupied i = Some True"

section \<open>Occupancy\<close>

record occupancy =
  oc_occupied :: "bool list"
  oc_pinned :: "bool list"
  oc_cursor :: nat
  oc_count :: nat

definition occ_new :: "nat \<Rightarrow> nat \<Rightarrow> occupancy" where
  "occ_new N PINS =
     \<lparr>oc_occupied = replicate N False, oc_pinned = replicate PINS False, oc_cursor = 0, oc_count = 0\<rparr>"

definition occ_slot_count :: "occupancy \<Rightarrow> nat" where
  "occ_slot_count s = length (oc_occupied s)"

definition occ_acquire :: "occupancy \<Rightarrow> slot_id option \<times> occupancy" where
  "occ_acquire s =
     (if oc_count s = occ_slot_count s then (None, s)
      else
        (case acquire_slice (oc_occupied s) (oc_pinned s) (oc_cursor s) of
           (None, occupied, pinned, cursor) \<Rightarrow>
             (None, s\<lparr>oc_occupied := occupied, oc_pinned := pinned, oc_cursor := cursor\<rparr>)
         | (Some i, occupied, pinned, cursor) \<Rightarrow>
             (Some i, \<lparr>oc_occupied = occupied, oc_pinned = pinned, oc_cursor = cursor,
                       oc_count = oc_count s + 1\<rparr>)))"

definition occ_release :: "occupancy \<Rightarrow> slot_id \<Rightarrow> (slot_error + unit) \<times> occupancy" where
  "occ_release s i =
     (case release_slice (oc_occupied s) (oc_pinned s) i of
        (Inl e, _) \<Rightarrow> (Inl e, s)
      | (Inr _, occupied) \<Rightarrow> (Inr (), s\<lparr>oc_occupied := occupied, oc_count := oc_count s - 1\<rparr>))"

definition occ_try_pin :: "occupancy \<Rightarrow> slot_id \<Rightarrow> (slot_error + unit) \<times> occupancy" where
  "occ_try_pin s i =
     (case try_pin_slice (oc_occupied s) (oc_pinned s) i of
        (r, pinned) \<Rightarrow> (r, s\<lparr>oc_pinned := pinned\<rparr>))"

text \<open>Writing through \<open>pin_flag_mut\<close>, as the drop of an application access does.\<close>

definition occ_set_pin_flag :: "occupancy \<Rightarrow> slot_id \<Rightarrow> bool \<Rightarrow> occupancy" where
  "occ_set_pin_flag s i b =
     (if i < length (oc_pinned s) then s\<lparr>oc_pinned := (oc_pinned s)[i := b]\<rparr> else s)"

definition occ_is_pinned :: "occupancy \<Rightarrow> slot_id \<Rightarrow> bool" where
  "occ_is_pinned s i = is_pinned_slice (oc_pinned s) i"

definition occ_set_cursor :: "occupancy \<Rightarrow> nat \<Rightarrow> occupancy" where
  "occ_set_cursor s c = (if occ_slot_count s = 0 then s else s\<lparr>oc_cursor := c mod occ_slot_count s\<rparr>)"

definition occ_advance :: "occupancy \<Rightarrow> nat \<Rightarrow> occupancy" where
  "occ_advance s steps =
     (if occ_slot_count s = 0 then s
      else occ_set_cursor s (oc_cursor s + steps mod occ_slot_count s))"

definition occ_occupied_count :: "occupancy \<Rightarrow> nat" where
  "occ_occupied_count s = oc_count s"

definition occ_is_occupied :: "occupancy \<Rightarrow> slot_id \<Rightarrow> bool" where
  "occ_is_occupied s i = is_occupied_slice (oc_occupied s) i"

section \<open>The chunked search is the plain search\<close>

lemma position_append:
  "position P (xs @ ys) =
     (case position P xs of Some i \<Rightarrow> Some i | None \<Rightarrow> map_option (\<lambda>i. length xs + i) (position P ys))"
proof (induction xs)
  case Nil
  show ?case by (cases "position P ys") simp_all
next
  case (Cons x xs)
  then show ?case
    by (cases "position P ys") (simp_all add: option.map_comp comp_def split: option.splits)
qed

lemma position_None_iff: "position P xs = None \<longleftrightarrow> (\<forall>x\<in>set xs. \<not> P x)"
  by (induction xs) auto

lemma position_Some_iff:
  "position P xs = Some i \<longleftrightarrow> i < length xs \<and> P (xs ! i) \<and> (\<forall>j<i. \<not> P (xs ! j))"
proof (induction xs arbitrary: i)
  case (Cons x xs)
  show ?case
  proof (cases i)
    case 0
    then show ?thesis by auto
  next
    case (Suc k)
    have "(\<forall>j<Suc k. \<not> P ((x # xs) ! j)) \<longleftrightarrow> \<not> P x \<and> (\<forall>j<k. \<not> P (xs ! j))"
      by (auto simp: less_Suc_eq_0_disj)
    with Suc Cons.IH [of k] show ?thesis by auto
  qed
qed simp

lemma not_all_true:
  assumes "length xs = n"
  shows "xs \<noteq> replicate n True \<longleftrightarrow> position Not xs \<noteq> None"
proof -
  have "xs = replicate n True" if "\<forall>x\<in>set xs. x"
    using assms that by (intro replicate_eqI) auto
  moreover have "\<forall>x\<in>set (replicate n True). x" by simp
  ultimately show ?thesis unfolding position_None_iff not_not by metis
qed

lemma chunk_search_position:
  "n = index * CHUNK + length xs \<Longrightarrow>
   chunk_search n index xs = map_option (\<lambda>i. index * CHUNK + i) (position Not xs)"
proof (induction n index xs rule: chunk_search.induct)
  case (1 n index xs)
  show ?case
  proof (cases "length xs < CHUNK")
    case True
    then show ?thesis using "1.prems" by (subst chunk_search.simps) simp
  next
    case False
    have split: "position Not xs = (case position Not (take CHUNK xs) of Some i \<Rightarrow> Some i
        | None \<Rightarrow> map_option (\<lambda>i. CHUNK + i) (position Not (drop CHUNK xs)))"
    proof -
      have l: "length (take CHUNK xs) = CHUNK" using False by simp
      show ?thesis
        using position_append [of Not "take CHUNK xs" "drop CHUNK xs"]
        unfolding l append_take_drop_id .
    qed
    show ?thesis
    proof (cases "take CHUNK xs = replicate CHUNK True")
      case True
      have "position Not (take CHUNK xs) = None" unfolding True by (simp add: position_None_iff)
      with 1 False True split show ?thesis
        by (subst chunk_search.simps) (simp add: option.map_comp comp_def ac_simps)
    next
      case neq: False
      then have "position Not (take CHUNK xs) \<noteq> None"
        using not_all_true [of "take CHUNK xs" CHUNK] False by simp
      with False neq split show ?thesis
        by (subst chunk_search.simps) (auto simp: Let_def)
    qed
  qed
qed

lemma first_free_position: "first_free xs = position Not xs"
  by (cases "position Not xs") (simp_all add: first_free_def chunk_search_position)

section \<open>The invariant and the behaviour of each operation\<close>

text \<open>The cursor is in range, the counter is the number of set flags, only occupied slots are pinned.\<close>

definition occ_inv :: "occupancy \<Rightarrow> bool" where
  "occ_inv s \<longleftrightarrow>
     (if oc_occupied s = [] then oc_cursor s = 0 else oc_cursor s < length (oc_occupied s)) \<and>
     oc_count s = occupied_count_slice (oc_occupied s) \<and>
     (\<forall>i. occ_is_pinned s i \<longrightarrow> occ_is_occupied s i)"

text \<open>The slots in the order in which \<open>acquire\<close> looks at them.\<close>

definition rotation :: "nat \<Rightarrow> nat \<Rightarrow> slot_id list" where
  "rotation c n = [c..<n] @ [0..<c]"

lemma occ_is_occupied_iff:
  "occ_is_occupied s i \<longleftrightarrow> i < length (oc_occupied s) \<and> oc_occupied s ! i"
  by (simp add: occ_is_occupied_def is_occupied_slice_def)

lemma occ_is_pinned_iff: "occ_is_pinned s i \<longleftrightarrow> i < length (oc_pinned s) \<and> oc_pinned s ! i"
  by (simp add: occ_is_pinned_def is_pinned_slice_def)

lemmas occ_flags = occ_is_occupied_iff occ_is_pinned_iff occ_slot_count_def

lemma nth_upd: "j < length xs \<Longrightarrow> xs[i := v] ! j = (if i = j then v else xs ! j)"
  by (simp add: nth_list_update_eq)

lemma count_update:
  "i < length xs \<Longrightarrow> occupied_count_slice (xs[i := b]) + (if xs ! i then 1 else 0) =
     occupied_count_slice xs + (if b then 1 else 0)"
proof (induction xs arbitrary: i)
  case (Cons x xs)
  show ?case
  proof (cases i)
    case 0
    then show ?thesis by (simp add: occupied_count_slice_def)
  next
    case (Suc j)
    with Cons.IH [of j] Cons.prems show ?thesis
      by (simp add: occupied_count_slice_def split: if_splits)
  qed
qed simp

lemma count_full: "occupied_count_slice xs = length xs \<longleftrightarrow> (\<forall>i<length xs. xs ! i)"
proof -
  have "occupied_count_slice xs = length xs \<longleftrightarrow> filter id xs = xs"
    by (auto simp: occupied_count_slice_def dest: length_filter_less intro: filter_True)
      (metis id_apply filter_id_conv length_filter_less less_irrefl)
  also have "\<dots> \<longleftrightarrow> (\<forall>x\<in>set xs. x)" by (simp add: filter_id_conv)
  also have "\<dots> \<longleftrightarrow> (\<forall>i<length xs. xs ! i)" by (simp add: all_set_conv_all_nth)
  finally show ?thesis .
qed

lemma count_le: "occupied_count_slice xs \<le> length xs"
  by (simp add: occupied_count_slice_def)

lemma find_upt_position:
  "find (\<lambda>i. P (xs ! i)) [a..<b] = map_option (\<lambda>i. a + i) (position P (drop a (take b xs)))"
  if "b \<le> length xs"
  using that
proof (induction "b - a" arbitrary: a)
  case 0
  then show ?case by simp
next
  case (Suc k)
  then have "a < b" by simp
  then have "drop a (take b xs) = xs ! a # drop (Suc a) (take b xs)"
    using Suc.prems by (simp add: Cons_nth_drop_Suc [symmetric])
  with Suc(1) [of "Suc a"] Suc(2) Suc.prems \<open>a < b\<close> show ?case
    by (cases "position P (drop (Suc a) (take b xs))") (simp_all add: upt_conv_Cons)
qed

lemma find_append: "find P (xs @ ys) = (case find P xs of Some x \<Rightarrow> Some x | None \<Rightarrow> find P ys)"
  by (induction xs) auto

lemma find_cong_set: "(\<And>x. x \<in> set xs \<Longrightarrow> P x = Q x) \<Longrightarrow> find P xs = find Q xs"
  by (induction xs) auto

text \<open>The search of \<open>acquire\<close>: the first free slot in rotation order.\<close>

lemma acquire_slice_rotation:
  assumes "occupied \<noteq> []" "cursor < length occupied"
  shows "acquire_slice occupied pinned cursor =
     (case find (\<lambda>i. \<not> occupied ! i) (rotation cursor (length occupied)) of
        None \<Rightarrow> (None, occupied, pinned, cursor)
      | Some idx \<Rightarrow> (Some idx, occupied[idx := True], pinned[idx := False],
                      if idx + 1 = length occupied then 0 else idx + 1))"
proof -
  let ?n = "length occupied"
  have l: "find (\<lambda>i. \<not> occupied ! i) [cursor..<?n] =
      map_option (\<lambda>i. cursor + i) (position Not (drop cursor occupied))"
    using find_upt_position [of ?n occupied Not cursor] by simp
  have r: "find (\<lambda>i. \<not> occupied ! i) [0..<cursor] = position Not (take cursor occupied)"
    using find_upt_position [of cursor occupied Not 0] assms by (simp add: option.map_ident)
  have h: "position Not (drop cursor occupied) = Some 0" if "\<not> occupied ! cursor"
    using that assms by (simp add: Cons_nth_drop_Suc [symmetric])
  have p: "(if i < length pinned then pinned[i := False] else pinned) = pinned[i := False]" for i
    by (simp add: list_update_beyond)
  show ?thesis
    unfolding rotation_def find_append l r acquire_slice_def first_free_position p
    using assms h by (auto simp: Let_def split: option.splits)
qed

lemma set_rotation: "c \<le> n \<Longrightarrow> set (rotation c n) = {..<n}"
  by (auto simp: rotation_def)

lemma find_rotation_Some:
  assumes "find (\<lambda>i. \<not> xs ! i) (rotation c (length xs)) = Some i" "c \<le> length xs"
  shows "i < length xs \<and> \<not> xs ! i"
proof -
  from assms(1) have "\<not> xs ! i" "i \<in> set (rotation c (length xs))"
    by (auto simp: find_Some_iff intro: nth_mem)
  then show ?thesis by (simp add: set_rotation [OF assms(2)])
qed

lemma find_rotation_None:
  assumes "c \<le> length xs"
  shows "find (\<lambda>i. \<not> xs ! i) (rotation c (length xs)) = None \<longleftrightarrow> (\<forall>i<length xs. xs ! i)"
  by (auto simp: find_None_iff set_rotation [OF assms])

lemma occ_acquire_rotation:
  assumes "occ_inv s"
  shows "occ_acquire s =
     (case find (\<lambda>i. \<not> occ_is_occupied s i) (rotation (oc_cursor s) (occ_slot_count s)) of
        None \<Rightarrow> (None, s)
      | Some i \<Rightarrow> (Some i, \<lparr>oc_occupied = (oc_occupied s)[i := True], oc_pinned = (oc_pinned s)[i := False],
                             oc_cursor = (if i + 1 = occ_slot_count s then 0 else i + 1),
                             oc_count = oc_count s + 1\<rparr>))"
proof (cases "oc_occupied s = []")
  case True
  with assms show ?thesis
    by (simp add: occ_acquire_def occ_inv_def occ_slot_count_def occupied_count_slice_def rotation_def)
next
  case False
  let ?xs = "oc_occupied s"
  from assms False have c: "oc_cursor s < length ?xs" by (simp add: occ_inv_def)
  have e: "find (\<lambda>i. \<not> occ_is_occupied s i) (rotation (oc_cursor s) (occ_slot_count s)) =
      find (\<lambda>i. \<not> ?xs ! i) (rotation (oc_cursor s) (length ?xs))"
    unfolding occ_slot_count_def using c
    by (intro find_cong_set) (auto simp: occ_is_occupied_iff rotation_def)
  have full: "oc_count s = occ_slot_count s \<longleftrightarrow>
      find (\<lambda>i. \<not> ?xs ! i) (rotation (oc_cursor s) (length ?xs)) = None"
    using assms c by (simp add: occ_inv_def occ_slot_count_def count_full find_rotation_None)
  show ?thesis
    unfolding e occ_acquire_def full acquire_slice_rotation [OF False c]
    by (auto simp: occ_slot_count_def split: option.splits)
qed

lemma occ_acquire_cases:
  assumes "occ_inv s" "occ_acquire s = (r, s')"
  obtains "r = None" "s' = s" "\<And>i. i < occ_slot_count s \<Longrightarrow> occ_is_occupied s i"
  | i where "r = Some i" "i < occ_slot_count s" "\<not> occ_is_occupied s i"
      "find (\<lambda>i. \<not> occ_is_occupied s i) (rotation (oc_cursor s) (occ_slot_count s)) = Some i"
      "s' = \<lparr>oc_occupied = (oc_occupied s)[i := True], oc_pinned = (oc_pinned s)[i := False],
             oc_cursor = (if i + 1 = occ_slot_count s then 0 else i + 1), oc_count = oc_count s + 1\<rparr>"
proof (cases "find (\<lambda>i. \<not> occ_is_occupied s i) (rotation (oc_cursor s) (occ_slot_count s))")
  have c: "oc_cursor s \<le> occ_slot_count s"
    using assms(1) by (auto simp: occ_inv_def occ_slot_count_def split: if_splits)
  case None
  then have "\<forall>i<occ_slot_count s. occ_is_occupied s i"
    by (auto simp: find_None_iff set_rotation [OF c])
  with None that(1) assms(2) show thesis by (simp add: occ_acquire_rotation [OF assms(1)])
next
  have c: "oc_cursor s \<le> occ_slot_count s"
    using assms(1) by (auto simp: occ_inv_def occ_slot_count_def split: if_splits)
  case (Some i)
  then have "\<not> occ_is_occupied s i" "i \<in> set (rotation (oc_cursor s) (occ_slot_count s))"
    by (auto simp: find_Some_iff intro: nth_mem)
  with Some assms(2) show thesis
    by (intro that(2) [of i]) (simp_all add: occ_acquire_rotation [OF assms(1)] set_rotation [OF c])
qed

lemma occ_release_spec:
  "occ_release s i =
     (if occ_slot_count s \<le> i then (Inl SE_InvalidSlot, s)
      else if \<not> occ_is_occupied s i then (Inl SE_NotOccupied, s)
      else if occ_is_pinned s i then (Inl SE_Pinned, s)
      else (Inr (), s\<lparr>oc_occupied := (oc_occupied s)[i := False], oc_count := oc_count s - 1\<rparr>))"
  by (auto simp: occ_release_def release_slice_def get_at_def occ_flags split: option.splits)

lemma occ_try_pin_spec:
  "occ_try_pin s i =
     (if occ_slot_count s \<le> i then (Inl SE_InvalidSlot, s)
      else if \<not> occ_is_occupied s i then (Inl SE_NotOccupied, s)
      else if length (oc_pinned s) \<le> i then (Inl SE_InvalidSlot, s)
      else if occ_is_pinned s i then (Inl SE_Pinned, s)
      else (Inr (), s\<lparr>oc_pinned := (oc_pinned s)[i := True]\<rparr>))"
  by (auto simp: occ_try_pin_def try_pin_slice_def get_at_def occ_flags split: option.splits)

lemma occ_inv_new: "occ_inv (occ_new N PINS)"
  by (auto simp: occ_inv_def occ_new_def occ_flags occupied_count_slice_def)

lemma occ_inv_acquire:
  assumes "occ_inv s" "occ_acquire s = (r, s')"
  shows "occ_inv s'"
  using assms
proof (cases rule: occ_acquire_cases)
  case 1
  with assms show ?thesis by simp
next
  case (2 i)
  let ?xs = "oc_occupied s"
  from 2 have i: "i < length ?xs" "\<not> ?xs ! i" by (auto simp: occ_flags)
  with count_update [of i ?xs True] have "occupied_count_slice (?xs[i := True]) = occupied_count_slice ?xs + 1"
    by simp
  with 2 i assms(1) show ?thesis
    by (auto simp: occ_inv_def occ_flags nth_list_update split: if_splits)
qed

lemma occ_inv_release: "occ_inv s \<Longrightarrow> occ_inv (snd (occ_release s i))"
proof -
  assume inv: "occ_inv s"
  have "occ_inv (s\<lparr>oc_occupied := (oc_occupied s)[i := False], oc_count := oc_count s - 1\<rparr>)"
    if "occ_is_occupied s i" "\<not> occ_is_pinned s i"
    using count_update [of i "oc_occupied s" False] that inv
    by (auto simp: occ_inv_def occ_flags nth_list_update split: if_splits)
  with inv show ?thesis by (simp add: occ_release_spec)
qed

lemma occ_inv_try_pin: "occ_inv s \<Longrightarrow> occ_inv (snd (occ_try_pin s i))"
  by (auto simp: occ_try_pin_spec occ_inv_def occ_flags nth_list_update split: if_splits)

lemma occ_inv_unpin: "occ_inv s \<Longrightarrow> occ_inv (occ_set_pin_flag s i False)"
  by (auto simp: occ_set_pin_flag_def occ_inv_def occ_flags nth_list_update split: if_splits)

lemma occ_inv_set_cursor: "occ_inv s \<Longrightarrow> occ_inv (occ_set_cursor s c)"
  by (auto simp: occ_set_cursor_def occ_inv_def occ_flags)

lemma occ_inv_advance: "occ_inv s \<Longrightarrow> occ_inv (occ_advance s n)"
  by (simp add: occ_advance_def occ_inv_set_cursor)

section \<open>What pools and tables rely on\<close>

datatype alloc_op = AcquireOp | ReleaseOp slot_id

fun alloc_run ::
  "('s \<Rightarrow> slot_id option \<times> 's) \<Rightarrow> ('s \<Rightarrow> slot_id \<Rightarrow> 'r \<times> 's) \<Rightarrow> alloc_op list \<Rightarrow> 's \<Rightarrow> 's" where
  "alloc_run acq rel [] s = s"
| "alloc_run acq rel (AcquireOp # ops) s = alloc_run acq rel ops (snd (acq s))"
| "alloc_run acq rel (ReleaseOp i # ops) s = alloc_run acq rel ops (snd (rel s i))"

locale slot_allocator =
  fixes inv :: "'s \<Rightarrow> bool"
    and acquire :: "'s \<Rightarrow> slot_id option \<times> 's"
    and release :: "'s \<Rightarrow> slot_id \<Rightarrow> (slot_error + unit) \<times> 's"
    and occupied pinned :: "'s \<Rightarrow> slot_id \<Rightarrow> bool"
    and capacity :: "'s \<Rightarrow> nat"
  assumes occupied_bound: "inv s \<Longrightarrow> occupied s i \<Longrightarrow> i < capacity s"
    and acquire_Some: "inv s \<Longrightarrow> acquire s = (Some i, s') \<Longrightarrow>
      inv s' \<and> capacity s' = capacity s \<and> i < capacity s \<and> \<not> occupied s i \<and>
      (\<forall>j. occupied s' j \<longleftrightarrow> j = i \<or> occupied s j) \<and> (\<forall>j. pinned s' j \<longleftrightarrow> j \<noteq> i \<and> pinned s j)"
    and acquire_None: "inv s \<Longrightarrow> acquire s = (None, s') \<Longrightarrow> s' = s \<and> (\<forall>i<capacity s. occupied s i)"
    and release_Ok: "inv s \<Longrightarrow> occupied s i \<Longrightarrow> \<not> pinned s i \<Longrightarrow>
      \<exists>s'. release s i = (Inr (), s') \<and> inv s' \<and> capacity s' = capacity s \<and>
        (\<forall>j. occupied s' j \<longleftrightarrow> j \<noteq> i \<and> occupied s j) \<and> (\<forall>j. pinned s' j \<longleftrightarrow> pinned s j)"
    and release_refused: "inv s \<Longrightarrow> \<not> occupied s i \<or> pinned s i \<Longrightarrow> \<exists>e. release s i = (Inl e, s)"
begin

lemma release_cases:
  assumes "inv s" "release s i = (r, s')"
  obtains e where "r = Inl e" "s' = s" "\<not> occupied s i \<or> pinned s i"
  | "r = Inr ()" "occupied s i" "\<not> pinned s i" "inv s'" "capacity s' = capacity s"
      "\<And>j. occupied s' j \<longleftrightarrow> j \<noteq> i \<and> occupied s j" "\<And>j. pinned s' j \<longleftrightarrow> pinned s j"
proof (cases "occupied s i \<and> \<not> pinned s i")
  case True
  with release_Ok [OF assms(1), of i] assms(2) that(2) show thesis by auto
next
  case False
  with release_refused [OF assms(1), of i] assms(2) that(1) show thesis by auto
qed

lemma acquire_cases:
  assumes "inv s" "acquire s = (r, s')"
  obtains "r = None" "s' = s" "\<And>i. i < capacity s \<Longrightarrow> occupied s i"
  | i where "r = Some i" "inv s'" "capacity s' = capacity s" "i < capacity s" "\<not> occupied s i"
      "\<And>j. occupied s' j \<longleftrightarrow> j = i \<or> occupied s j" "\<And>j. pinned s' j \<longleftrightarrow> j \<noteq> i \<and> pinned s j"
proof (cases r)
  case None
  with acquire_None [OF assms(1), of s'] assms(2) that(1) show thesis by simp
next
  case (Some i)
  with acquire_Some [OF assms(1), of i s'] assms(2) that(2) [of i] show thesis by simp
qed

lemma run_keeps:
  assumes "inv s" "ReleaseOp i \<notin> set ops" "occupied s i"
  shows "inv (alloc_run acquire release ops s) \<and> occupied (alloc_run acquire release ops s) i"
  using assms
proof (induction ops arbitrary: s)
  case (Cons op ops)
  show ?case
  proof (cases op)
    case AcquireOp
    obtain r s' where "acquire s = (r, s')" by fastforce
    with Cons AcquireOp show ?thesis by (auto elim!: acquire_cases [OF Cons.prems(1)])
  next
    case (ReleaseOp k)
    obtain r s' where "release s k = (r, s')" by fastforce
    with Cons ReleaseOp show ?thesis by (auto elim!: release_cases [OF Cons.prems(1)])
  qed
qed simp

text \<open>A slot handed out is not handed out again before it is released.\<close>

lemma acquired_exclusively:
  assumes "inv s" "acquire s = (Some i, s')" "ReleaseOp i \<notin> set ops"
    and "acquire (alloc_run acquire release ops s') = (Some j, s'')"
  shows "j \<noteq> i"
proof -
  from acquire_Some [OF assms(1,2)] have "inv s'" "occupied s' i" by auto
  from run_keeps [OF this(1) assms(3) this(2)] acquire_Some [OF _ assms(4)] show ?thesis by blast
qed

lemma acquire_available:
  assumes "inv s" "i < capacity s" "\<not> occupied s i"
  shows "\<exists>k s'. acquire s = (Some k, s')"
proof -
  obtain r s' where "acquire s = (r, s')" by fastforce
  with acquire_None [OF assms(1), of s'] assms show ?thesis by (cases r) auto
qed

end

lemma occ_flags_update [simp]:
  "occ_slot_count (s\<lparr>oc_pinned := p\<rparr>) = occ_slot_count s"
  "occ_slot_count (s\<lparr>oc_cursor := c\<rparr>) = occ_slot_count s"
  "occ_is_occupied (s\<lparr>oc_pinned := p\<rparr>) = occ_is_occupied s"
  "occ_is_occupied (s\<lparr>oc_cursor := c\<rparr>) = occ_is_occupied s"
  "occ_is_pinned (s\<lparr>oc_cursor := c\<rparr>) = occ_is_pinned s"
  by (simp_all add: occ_flags fun_eq_iff)

interpretation occ: slot_allocator occ_inv occ_acquire occ_release occ_is_occupied occ_is_pinned occ_slot_count
proof (unfold_locales, goal_cases)
  case (1 s i)
  then show ?case by (simp add: occ_flags)
next
  case (2 s i s')
  then have "occ_inv s'" by (rule occ_inv_acquire)
  from 2 show ?case
  proof (cases rule: occ_acquire_cases)
    case (2 j)
    then show ?thesis using \<open>occ_inv s'\<close> by (auto simp: occ_flags nth_upd split: if_splits)
  qed simp
next
  case (3 s s')
  then show ?case by (auto elim!: occ_acquire_cases)
next
  case (4 s i)
  with occ_inv_release [of s i] show ?case
    by (auto simp: occ_release_spec occ_flags nth_list_update split: if_splits)
next
  case (5 s i)
  then show ?case by (auto simp: occ_release_spec)
qed

section \<open>Reachable occupancies\<close>

text \<open>Every call a pool or table makes on its occupancy; an application access unpins on drop.\<close>

inductive occ_step :: "occupancy \<Rightarrow> occupancy \<Rightarrow> bool" where
  step_acquire: "occ_step s (snd (occ_acquire s))"
| step_release: "occ_step s (snd (occ_release s i))"
| step_pin: "occ_step s (snd (occ_try_pin s i))"
| step_unpin: "occ_step s (occ_set_pin_flag s i False)"
| step_set_cursor: "occ_step s (occ_set_cursor s c)"
| step_advance: "occ_step s (occ_advance s n)"

lemma occ_step_inv: "occ_step s s' \<Longrightarrow> occ_inv s \<Longrightarrow> occ_inv s'"
proof (induction rule: occ_step.induct)
  case (step_acquire s)
  then show ?case using occ_inv_acquire [of s "fst (occ_acquire s)"] by simp
qed (simp_all add: occ_inv_release occ_inv_try_pin occ_inv_unpin occ_inv_set_cursor occ_inv_advance)

lemma occ_step_size:
  assumes "occ_step s s'" "occ_inv s"
  shows "occ_slot_count s' = occ_slot_count s"
  using assms
proof (induction rule: occ_step.induct)
  case (step_acquire s)
  then show ?case
    by (auto simp: occ_acquire_rotation occ_slot_count_def split: option.splits)
qed (simp_all add: occ_release_spec occ_try_pin_spec occ_set_pin_flag_def occ_set_cursor_def
    occ_advance_def occ_slot_count_def)

lemma occ_reachable_inv:
  assumes "occ_step\<^sup>*\<^sup>* (occ_new N PINS) s"
  shows "occ_inv s \<and> occ_slot_count s = N"
  using assms
proof (induction rule: rtranclp_induct)
  case base
  show ?case by (simp add: occ_inv_new) (simp add: occ_new_def occ_slot_count_def)
next
  case (step s s')
  with occ_step_inv occ_step_size show ?case by blast
qed

lemma count_card: "occupied_count_slice xs = card {i. i < length xs \<and> xs ! i}"
  by (simp add: occupied_count_slice_def length_filter_conv_card)

text \<open>
  C10: occupancy invariant. After any sequence of acquire, release, pin, unpin, cursor and advance
  calls from an empty occupancy of N slots, the live counter is the number of occupied slots, every
  pinned slot is occupied, and acquire returns the first free slot in rotation order from the
  cursor; it returns none exactly when all N slots are occupied.
\<close>

theorem occupancy_reachable:
  assumes "occ_step\<^sup>*\<^sup>* (occ_new N PINS) s"
  shows "occ_occupied_count s = card {i. occ_is_occupied s i} \<and>
         (\<forall>i. occ_is_pinned s i \<longrightarrow> occ_is_occupied s i) \<and>
         fst (occ_acquire s) = find (\<lambda>i. \<not> occ_is_occupied s i) (rotation (oc_cursor s) N) \<and>
         (fst (occ_acquire s) = None \<longleftrightarrow> {i. occ_is_occupied s i} = {..<N})"
proof (intro conjI)
  from occ_reachable_inv [OF assms] have inv: "occ_inv s" and n: "occ_slot_count s = N" by auto
  from inv show "occ_occupied_count s = card {i. occ_is_occupied s i}"
    by (simp add: occ_inv_def occ_occupied_count_def occ_is_occupied_iff count_card)
  from inv show "\<forall>i. occ_is_pinned s i \<longrightarrow> occ_is_occupied s i" by (simp add: occ_inv_def)
  show f: "fst (occ_acquire s) = find (\<lambda>i. \<not> occ_is_occupied s i) (rotation (oc_cursor s) N)"
    unfolding occ_acquire_rotation [OF inv] n by (simp split: option.splits)
  have "oc_cursor s \<le> N" using inv n by (auto simp: occ_inv_def occ_slot_count_def split: if_splits)
  moreover have "{i. occ_is_occupied s i} \<subseteq> {..<N}" using occ.occupied_bound [OF inv] n by auto
  ultimately show "fst (occ_acquire s) = None \<longleftrightarrow> {i. occ_is_occupied s i} = {..<N}"
    unfolding f find_None_iff by (auto simp: set_rotation)
qed

theorem occupancy_reachable_witness:
  "fst (occ_acquire (snd (occ_release (snd (occ_acquire (snd (occ_acquire (occ_new 2 2))))) 0))) =
     find (\<lambda>i. \<not> occ_is_occupied (snd (occ_release (snd (occ_acquire (snd (occ_acquire (occ_new 2 2))))) 0)) i)
       (rotation 0 2)"
proof -
  let ?s = "snd (occ_release (snd (occ_acquire (snd (occ_acquire (occ_new 2 2))))) 0)"
  have "occ_step\<^sup>*\<^sup>* (occ_new 2 2) ?s"
    by (rule rtranclp.rtrancl_into_rtrancl [OF rtranclp.rtrancl_into_rtrancl
          [OF rtranclp.rtrancl_into_rtrancl [OF rtranclp.rtrancl_refl]]])
      (rule step_acquire step_release)+
  moreover have "oc_cursor ?s = 0" by code_simp
  ultimately show ?thesis using occupancy_reachable [of 2 2 ?s] by simp
qed

text \<open>
  C11: exclusive slots. A slot handed out by acquire is not handed out again by a later acquire,
  whatever acquires and releases of other slots happen in between; and while a slot is pinned its
  release is refused and changes nothing.
\<close>

theorem slot_exclusive:
  assumes "occ_inv s" "occ_acquire s = (Some i, s')" "ReleaseOp i \<notin> set ops"
  shows "fst (occ_acquire (alloc_run occ_acquire occ_release ops s')) \<noteq> Some i \<and>
         occ_is_occupied (alloc_run occ_acquire occ_release ops s') i \<and>
         (occ_try_pin s' i = (Inr (), p) \<longrightarrow> occ_release p i = (Inl SE_Pinned, p))"
proof (intro conjI impI)
  from occ.acquire_Some [OF assms(1,2)] have "occ_inv s'" "occ_is_occupied s' i" by auto
  from occ.run_keeps [OF this(1) assms(3) this(2)]
  show "occ_is_occupied (alloc_run occ_acquire occ_release ops s') i" by simp
  from occ.acquired_exclusively [OF assms]
  show "fst (occ_acquire (alloc_run occ_acquire occ_release ops s')) \<noteq> Some i"
    by (cases "occ_acquire (alloc_run occ_acquire occ_release ops s')") auto
  assume "occ_try_pin s' i = (Inr (), p)"
  then show "occ_release p i = (Inl SE_Pinned, p)"
    by (auto simp: occ_try_pin_spec occ_release_spec occ_flags split: if_splits)
qed

theorem slot_exclusive_witness:
  "fst (occ_acquire (alloc_run occ_acquire occ_release [AcquireOp, ReleaseOp 1]
      (snd (occ_acquire (occ_new 2 2))))) \<noteq> Some 0"
proof -
  let ?s = "snd (occ_acquire (occ_new 2 2))"
  have "occ_acquire (occ_new 2 2) = (Some 0, ?s)" by code_simp
  from slot_exclusive [OF occ_inv_new this, of "[AcquireOp, ReleaseOp 1]"] show ?thesis by simp
qed

section \<open>Rotation is fair\<close>

text \<open>One transient use of a slot: acquire it and give it back.\<close>

definition occ_cycle :: "occupancy \<Rightarrow> slot_id option \<times> occupancy" where
  "occ_cycle s =
     (case occ_acquire s of
        (None, s') \<Rightarrow> (None, s')
      | (Some i, s') \<Rightarrow> (Some i, snd (occ_release s' i)))"

lemma rotation_nth: "c < n \<Longrightarrow> k < n \<Longrightarrow> rotation c n ! k = (c + k) mod n"
  by (cases "c + k < n") (auto simp: rotation_def nth_append mod_if)

lemma length_rotation: "c \<le> n \<Longrightarrow> length (rotation c n) = n"
  by (simp add: rotation_def)

lemma occ_cycle_next:
  assumes "occ_inv s" "\<not> occ_is_occupied s ((oc_cursor s + d) mod occ_slot_count s)" "d < occ_slot_count s"
  obtains k s' where "k \<le> d" "occ_cycle s = (Some ((oc_cursor s + k) mod occ_slot_count s), s')"
    "occ_inv s'" "occ_slot_count s' = occ_slot_count s" "occ_is_occupied s' = occ_is_occupied s"
    "oc_cursor s' = (oc_cursor s + k + 1) mod occ_slot_count s"
proof -
  let ?n = "occ_slot_count s" and ?c = "oc_cursor s"
  have c: "?c < ?n" using assms by (auto simp: occ_inv_def occ_slot_count_def split: if_splits)
  have r: "length (rotation ?c ?n) = ?n" using c by (simp add: length_rotation)
  have free: "\<not> occ_is_occupied s (rotation ?c ?n ! d)" using assms c by (simp add: rotation_nth)
  obtain i s' where acq: "occ_acquire s = (Some i, s')"
    using occ.acquire_available [OF assms(1) _ assms(2)] c by fastforce
  from assms(1) this obtain
    f: "find (\<lambda>i. \<not> occ_is_occupied s i) (rotation ?c ?n) = Some i" and n: "i < ?n" and
    i: "\<not> occ_is_occupied s i" and
    s': "s' = \<lparr>oc_occupied = (oc_occupied s)[i := True], oc_pinned = (oc_pinned s)[i := False],
           oc_cursor = (if i + 1 = ?n then 0 else i + 1), oc_count = oc_count s + 1\<rparr>"
    by (cases rule: occ_acquire_cases) auto
  from f obtain k where k: "k < ?n" "i = rotation ?c ?n ! k" "\<forall>j<k. occ_is_occupied s (rotation ?c ?n ! j)"
    by (auto simp: find_Some_iff r)
  with free have "k \<le> d" using not_le by blast
  have ik: "i = (?c + k) mod ?n" using k c by (simp add: rotation_nth)
  have cyc: "occ_cycle s = (Some i, s\<lparr>oc_pinned := (oc_pinned s)[i := False],
      oc_cursor := (if i + 1 = ?n then 0 else i + 1)\<rparr>)" (is "_ = (_, ?t)")
    using acq s' i n by (auto simp: occ_cycle_def occ_release_spec occ_flags list_update_same_conv)
  have cur: "oc_cursor ?t = (?c + k + 1) mod ?n"
    using n unfolding ik by (simp add: mod_Suc)
  have "occ_inv ?t"
    using assms(1) n by (auto simp: occ_inv_def occ_flags nth_upd split: if_splits)
  then show thesis using that [OF \<open>k \<le> d\<close> cyc [unfolded ik]] cur unfolding ik by simp
qed

lemma occ_cycle_reaches:
  assumes "occ_inv s" "\<not> occ_is_occupied s ((oc_cursor s + d) mod occ_slot_count s)" "d < occ_slot_count s"
  shows "\<exists>k\<le>d. fst (occ_cycle (((\<lambda>t. snd (occ_cycle t)) ^^ k) s)) =
                 Some ((oc_cursor s + d) mod occ_slot_count s)"
  using assms
proof (induction d arbitrary: s rule: less_induct)
  case (less d)
  let ?n = "occ_slot_count s" and ?c = "oc_cursor s"
  from less.prems obtain k s' where k: "k \<le> d" "occ_cycle s = (Some ((?c + k) mod ?n), s')"
    "occ_inv s'" "occ_slot_count s' = ?n" "occ_is_occupied s' = occ_is_occupied s"
    "oc_cursor s' = (?c + k + 1) mod ?n"
    by (rule occ_cycle_next)
  show ?case
  proof (cases "k = d")
    case True
    with k show ?thesis by (intro exI [of _ 0]) simp
  next
    case False
    let ?d = "d - k - 1"
    have e: "(oc_cursor s' + ?d) mod ?n = (?c + d) mod ?n"
      unfolding k(6) mod_add_left_eq using k(1) False by (simp add: algebra_simps)
    have "?d < d" "?d < occ_slot_count s'" using k(1,4) False less.prems(3) by auto
    from less.IH [OF this(1) k(3) _ this(2)] k e less.prems(2) obtain j where "j \<le> ?d"
      "fst (occ_cycle (((\<lambda>t. snd (occ_cycle t)) ^^ j) s')) = Some ((?c + d) mod ?n)"
      by auto
    with k False show ?thesis
      by (intro exI [of _ "Suc j"]) (simp add: funpow_Suc_right del: funpow.simps)
  qed
qed

text \<open>
  C12: rotation is fair. When transient users acquire and release one slot at a time, every slot that
  is free is handed out within as many rounds as there are slots: no free slot starves.
\<close>

theorem rotation_fair:
  assumes "occ_inv s" "i < occ_slot_count s" "\<not> occ_is_occupied s i"
  shows "\<exists>k<occ_slot_count s. fst (occ_cycle (((\<lambda>t. snd (occ_cycle t)) ^^ k) s)) = Some i"
proof -
  let ?n = "occ_slot_count s" and ?c = "oc_cursor s"
  let ?d = "(i + (?n - ?c)) mod ?n"
  have "?c < ?n" using assms by (auto simp: occ_inv_def occ_slot_count_def split: if_splits)
  then have e: "(?c + ?d) mod ?n = i" using assms(2) by (simp add: mod_add_right_eq)
  have "?d < ?n" using assms(2) by simp
  with occ_cycle_reaches [OF assms(1), of ?d] assms(3) e show ?thesis
    by (metis order_le_less_trans)
qed

theorem rotation_fair_witness:
  "\<exists>k<3. fst (occ_cycle (((\<lambda>t. snd (occ_cycle t)) ^^ k) (snd (occ_acquire (occ_new 3 3))))) = Some 2"
proof -
  let ?s = "snd (occ_acquire (occ_new 3 3))"
  have "occ_inv ?s" using occ_inv_acquire [OF occ_inv_new, of 3 3 "fst (occ_acquire (occ_new 3 3))"] by simp
  moreover have "2 < occ_slot_count ?s" "\<not> occ_is_occupied ?s 2" "occ_slot_count ?s = 3" by code_simp+
  ultimately show ?thesis using rotation_fair [of ?s 2] by simp
qed

end
