(* ===== verification/Store_Tables.thy ===== *)
theory Store_Tables
  imports Msg_Fields Store_Occupancy
begin

text \<open>
  Keyed tables of fixed entry slots: the exchange table (\<open>src/storage/exchange.rs\<close>) and the
  dedup table (\<open>src/storage/table.rs\<close>).

  The tables of the source share their code up to the type of the row: an array of optional rows, an
  occupancy without pin flags, and scans over every index. That code is the \<open>table_\<close> operations,
  with the function that reads the key of a row as an argument; each table is an instance. The locale
  \<open>keyed_store\<close> is the contract of a bounded map from keys to rows. Its client lemma says that a
  sequence of operations behaves as the bounded map; it is interpreted for each table.
\<close>

section \<open>Entry slots with an occupancy\<close>

record 'e table =
  tb_entries :: "'e option list"
  tb_occ :: occupancy

definition table_new :: "nat \<Rightarrow> 'e table" where
  "table_new N = \<lparr>tb_entries = replicate N None, tb_occ = occ_new N 0\<rparr>"

definition table_entry :: "'e table \<Rightarrow> slot_id \<Rightarrow> 'e option" where
  "table_entry t i =
     (if \<not> occ_is_occupied (tb_occ t) i then None else Option.bind (get_at (tb_entries t) i) id)"

definition table_lookup :: "('e \<Rightarrow> 'k) \<Rightarrow> 'e table \<Rightarrow> 'k \<Rightarrow> slot_id option" where
  "table_lookup key t k =
     find_map (\<lambda>i. case table_entry t i of
                     Some e \<Rightarrow> if key e = k then Some i else None
                   | None \<Rightarrow> None) [0..<length (tb_entries t)]"

definition table_insert :: "('e \<Rightarrow> 'k) \<Rightarrow> 'e table \<Rightarrow> 'e \<Rightarrow> slot_id option \<times> 'e table" where
  "table_insert key t e =
     (case table_lookup key t (key e) of
        Some i \<Rightarrow> (Some i, t)
      | None \<Rightarrow>
          (case occ_acquire (tb_occ t) of
             (None, occ) \<Rightarrow> (None, t\<lparr>tb_occ := occ\<rparr>)
           | (Some i, occ) \<Rightarrow>
               (Some i, \<lparr>tb_entries = (tb_entries t)[i := Some e], tb_occ = occ\<rparr>)))"

definition table_reset :: "'e table \<Rightarrow> slot_id \<Rightarrow> 'e table" where
  "table_reset t i =
     (if i < length (tb_entries t) then t\<lparr>tb_entries := (tb_entries t)[i := None]\<rparr> else t)"

definition table_acquire :: "'e table \<Rightarrow> slot_id option \<times> 'e table" where
  "table_acquire t =
     (case occ_acquire (tb_occ t) of
        (None, occ) \<Rightarrow> (None, t\<lparr>tb_occ := occ\<rparr>)
      | (Some i, occ) \<Rightarrow> (Some i, table_reset (t\<lparr>tb_occ := occ\<rparr>) i))"

definition table_release :: "'e table \<Rightarrow> slot_id \<Rightarrow> (slot_error + unit) \<times> 'e table" where
  "table_release t i =
     (case occ_release (tb_occ t) i of
        (Inl e, occ) \<Rightarrow> (Inl e, t\<lparr>tb_occ := occ\<rparr>)
      | (Inr u, occ) \<Rightarrow> (Inr (), table_reset (t\<lparr>tb_occ := occ\<rparr>) i))"

definition table_take :: "('e \<Rightarrow> 'k) \<Rightarrow> 'e table \<Rightarrow> 'k \<Rightarrow> 'e option \<times> 'e table" where
  "table_take key t k =
     (case table_lookup key t k of
        None \<Rightarrow> (None, t)
      | Some i \<Rightarrow>
          (case table_entry t i of
             None \<Rightarrow> (None, t)
           | Some e \<Rightarrow> (Some e, snd (table_release t i))))"

definition table_remove :: "('e \<Rightarrow> 'k) \<Rightarrow> 'e table \<Rightarrow> 'k \<Rightarrow> bool \<times> 'e table" where
  "table_remove key t k =
     (case table_lookup key t k of
        Some i \<Rightarrow> (case table_release t i of (r, t') \<Rightarrow> (is_ok r, t'))
      | None \<Rightarrow> (False, t))"

definition table_set_entry :: "'e table \<Rightarrow> slot_id \<Rightarrow> 'e \<Rightarrow> (slot_error + unit) \<times> 'e table" where
  "table_set_entry t i e =
     (if \<not> occ_is_occupied (tb_occ t) i
      then (Inl (if i < length (tb_entries t) then SE_NotOccupied else SE_InvalidSlot), t)
      else (Inr (), t\<lparr>tb_entries := (tb_entries t)[i := Some e]\<rparr>))"

definition table_advance :: "'e table \<Rightarrow> nat \<Rightarrow> 'e table" where
  "table_advance t steps = t\<lparr>tb_occ := occ_advance (tb_occ t) steps\<rparr>"

section \<open>Exchange table\<close>

record 't exchange_key =
  xk_token :: 't
  xk_endpoint :: endpoint

record 't exchange_entry =
  xe_key :: "'t exchange_key"
  xe_message_id :: message_id
  xe_tx_slot :: slot_id
  xe_echo :: "echo option"
  xe_challenge :: "echo option"

definition exchange_entry_new :: "'t \<Rightarrow> endpoint \<Rightarrow> message_id \<Rightarrow> slot_id \<Rightarrow> 't exchange_entry" where
  "exchange_entry_new t e mid slot =
     \<lparr>xe_key = \<lparr>xk_token = t, xk_endpoint = e\<rparr>, xe_message_id = mid, xe_tx_slot = slot,
      xe_echo = None, xe_challenge = None\<rparr>"

definition xe_with_echo :: "'t exchange_entry \<Rightarrow> echo \<Rightarrow> 't exchange_entry" where
  "xe_with_echo x e = x\<lparr>xe_echo := Some e\<rparr>"

definition xe_with_challenge :: "'t exchange_entry \<Rightarrow> echo \<Rightarrow> 't exchange_entry" where
  "xe_with_challenge x e = x\<lparr>xe_challenge := Some e\<rparr>"

definition challenge_for :: "'t exchange_entry \<Rightarrow> endpoint \<Rightarrow> echo option" where
  "challenge_for x e = (if xk_endpoint (xe_key x) = e then xe_challenge x else None)"

definition is_con_or_non_request :: "('t, 'z) parsed_message_scheme \<Rightarrow> bool" where
  "is_con_or_non_request m \<longleftrightarrow>
     code_is_request (hdr_code (pm_header m)) \<and> hdr_ty (pm_header m) \<in> {Confirmable, NonConfirmable}"

definition is_token_response :: "('t, 'z) parsed_message_scheme \<Rightarrow> bool" where
  "is_token_response m \<longleftrightarrow>
     code_is_response (hdr_code (pm_header m)) \<and>
     hdr_ty (pm_header m) \<in> {Confirmable, NonConfirmable, Acknowledgement}"

definition matches_response :: "('t, 'z) parsed_message_scheme \<Rightarrow> message_id \<Rightarrow> bool" where
  "matches_response m request_mid =
     (if \<not> is_token_response m then False
      else case hdr_ty (pm_header m) of
             Acknowledgement \<Rightarrow> hdr_id (pm_header m) = request_mid
           | Confirmable \<Rightarrow> True
           | NonConfirmable \<Rightarrow> True
           | Reset \<Rightarrow> False)"

definition xe_matches_response :: "'t exchange_entry \<Rightarrow> ('u, 'z) parsed_message_scheme \<Rightarrow> bool" where
  "xe_matches_response x m = matches_response m (xe_message_id x)"

type_synonym 't exchange_table = "'t exchange_entry table"

definition exchange_new :: "nat \<Rightarrow> 't exchange_table" where
  "exchange_new N = table_new N"

definition exchange_insert :: "'t exchange_table \<Rightarrow> 't exchange_entry \<Rightarrow> slot_id option \<times> 't exchange_table" where
  "exchange_insert = table_insert xe_key"

definition exchange_lookup :: "'t exchange_table \<Rightarrow> 't exchange_key \<Rightarrow> slot_id option" where
  "exchange_lookup = table_lookup xe_key"

definition exchange_take :: "'t exchange_table \<Rightarrow> 't exchange_key \<Rightarrow> 't exchange_entry option \<times> 't exchange_table" where
  "exchange_take = table_take xe_key"

definition exchange_entry_at :: "'t exchange_table \<Rightarrow> slot_id \<Rightarrow> 't exchange_entry option" where
  "exchange_entry_at = table_entry"

section \<open>Dedup table\<close>

record dedup_key =
  dk_message_id :: message_id
  dk_endpoint :: endpoint

definition REPLAY_MAX :: nat where "REPLAY_MAX = 256"

record dedup_entry =
  de_key :: dedup_key
  de_due_ms :: u64
  de_replay_len :: u16
  de_replay :: bytes
  de_tx_pin :: "slot_id option"

definition dedup_entry_new :: "message_id \<Rightarrow> endpoint \<Rightarrow> dedup_entry" where
  "dedup_entry_new mid e =
     \<lparr>de_key = \<lparr>dk_message_id = mid, dk_endpoint = e\<rparr>, de_due_ms = 0, de_replay_len = 0,
      de_replay = replicate REPLAY_MAX 0, de_tx_pin = None\<rparr>"

definition de_with_due_ms :: "dedup_entry \<Rightarrow> u64 \<Rightarrow> dedup_entry" where
  "de_with_due_ms d due = d\<lparr>de_due_ms := due\<rparr>"

definition de_with_replay :: "dedup_entry \<Rightarrow> bytes \<Rightarrow> dedup_entry" where
  "de_with_replay d bs =
     (if REPLAY_MAX < length bs then d
      else d\<lparr>de_replay := blit (de_replay d) 0 bs, de_replay_len := of_nat (length bs),
             de_tx_pin := None\<rparr>)"

definition de_with_tx_pin :: "dedup_entry \<Rightarrow> slot_id \<Rightarrow> dedup_entry" where
  "de_with_tx_pin d i = d\<lparr>de_tx_pin := Some i, de_replay_len := 0\<rparr>"

definition de_replay_bytes :: "dedup_entry \<Rightarrow> bytes option" where
  "de_replay_bytes d =
     (if de_replay_len d = 0 then None else Some (take (unat (de_replay_len d)) (de_replay d)))"

definition has_usable_replay :: "dedup_entry \<Rightarrow> bool" where
  "has_usable_replay d \<longleftrightarrow> de_replay_bytes d \<noteq> None \<or> de_tx_pin d \<noteq> None"

type_synonym dedup_table = "dedup_entry table"

definition dedup_new :: "nat \<Rightarrow> dedup_table" where
  "dedup_new N = table_new N"

definition dedup_insert :: "dedup_table \<Rightarrow> dedup_entry \<Rightarrow> slot_id option \<times> dedup_table" where
  "dedup_insert = table_insert de_key"

definition dedup_lookup :: "dedup_table \<Rightarrow> dedup_key \<Rightarrow> slot_id option" where
  "dedup_lookup = table_lookup de_key"

definition dedup_remove :: "dedup_table \<Rightarrow> dedup_key \<Rightarrow> bool \<times> dedup_table" where
  "dedup_remove = table_remove de_key"

definition dedup_entry_ref :: "dedup_table \<Rightarrow> slot_id \<Rightarrow> dedup_entry option" where
  "dedup_entry_ref = table_entry"

definition dedup_set_entry :: "dedup_table \<Rightarrow> slot_id \<Rightarrow> dedup_entry \<Rightarrow> (slot_error + unit) \<times> dedup_table" where
  "dedup_set_entry = table_set_entry"

text \<open>
  Storing a reply for the application. The loop looks for the row with the key and remembers the
  timed row that is due first. The closure \<open>release_tx\<close> is the list of slots it is called with, in
  order; an \<open>expect\<close> that fails is \<open>Inl Panic\<close>.
\<close>

datatype panic = Panic

fun store_scan ::
  "dedup_table \<Rightarrow> dedup_key \<Rightarrow> slot_id list \<Rightarrow> (slot_id \<times> u64) option \<Rightarrow> slot_id option \<times> (slot_id \<times> u64) option" where
  "store_scan t k [] oldest = (None, oldest)"
| "store_scan t k (i # is) oldest =
     (case dedup_entry_ref t i of
        None \<Rightarrow> store_scan t k is oldest
      | Some row \<Rightarrow>
          if de_key row = k then (Some i, oldest)
          else if de_due_ms row \<noteq> 0 \<and>
                  (case oldest of None \<Rightarrow> True | Some (_, due) \<Rightarrow> de_due_ms row < due)
          then store_scan t k is (Some (i, de_due_ms row))
          else store_scan t k is oldest)"

definition pin_list :: "dedup_entry \<Rightarrow> slot_id list" where
  "pin_list d = (case de_tx_pin d of None \<Rightarrow> [] | Some p \<Rightarrow> [p])"

definition try_store_app :: "dedup_table \<Rightarrow> dedup_entry \<Rightarrow> (panic + bool option) \<times> dedup_table \<times> slot_id list" where
  "try_store_app t e =
     (case store_scan t (de_key e) [0..<length (tb_entries t)] None of
        (Some i, oldest) \<Rightarrow>
          (case dedup_entry_ref t i of
             None \<Rightarrow> (Inl Panic, t, [])
           | Some old \<Rightarrow>
               (case dedup_insert (snd (dedup_remove t (de_key old))) e of
                  (r, t') \<Rightarrow> (Inr (Some (r \<noteq> None)), t', pin_list old)))
      | (None, oldest) \<Rightarrow>
          (case occ_acquire (tb_occ t) of
             (Some i, occ) \<Rightarrow>
               (Inr (Some True), \<lparr>tb_entries = (tb_entries t)[i := Some e], tb_occ = occ\<rparr>, [])
           | (None, occ) \<Rightarrow>
               let t1 = t\<lparr>tb_occ := occ\<rparr> in
               (case oldest of
                  None \<Rightarrow> (Inr (Some False), t1, [])
                | Some (victim, _) \<Rightarrow>
                    (case dedup_entry_ref t1 victim of
                       None \<Rightarrow> (Inl Panic, t1, [])
                     | Some old \<Rightarrow>
                         let t2 = snd (dedup_remove t1 (de_key old)) in
                         (case occ_acquire (tb_occ t2) of
                            (None, occ2) \<Rightarrow> (Inr (Some False), t2\<lparr>tb_occ := occ2\<rparr>, pin_list old)
                          | (Some i, occ2) \<Rightarrow>
                              (Inr (Some True),
                               \<lparr>tb_entries = (tb_entries t2)[i := Some e], tb_occ = occ2\<rparr>,
                               pin_list old))))))"

section \<open>Rows of a table\<close>

text \<open>Rows are read through the occupancy; tables have no pin flags.\<close>

definition table_inv :: "'e table \<Rightarrow> bool" where
  "table_inv t \<longleftrightarrow>
     occ_inv (tb_occ t) \<and> length (tb_entries t) = occ_slot_count (tb_occ t) \<and> oc_pinned (tb_occ t) = []"

definition unique_keys :: "('e \<Rightarrow> 'k) \<Rightarrow> 'e table \<Rightarrow> bool" where
  "unique_keys key t \<longleftrightarrow>
     (\<forall>i j e f. table_entry t i = Some e \<longrightarrow> table_entry t j = Some f \<longrightarrow> key e = key f \<longrightarrow> i = j)"

lemma find_map_if: "(\<And>x. f x = (if P x then Some x else None)) \<Longrightarrow> find_map f xs = find P xs"
  by (induction xs) auto

lemma find_upt_Some_iff: "find P [0..<n] = Some i \<longleftrightarrow> i < n \<and> P i \<and> (\<forall>j<i. \<not> P j)"
  by (auto simp: find_Some_iff)

lemma table_entry_bound: "table_entry t i = Some e \<Longrightarrow> i < length (tb_entries t)"
  by (auto simp: table_entry_def bind_eq_Some_conv split: if_splits)

lemma table_lookup_find:
  "table_lookup key t k = find (\<lambda>i. \<exists>e. table_entry t i = Some e \<and> key e = k) [0..<length (tb_entries t)]"
  unfolding table_lookup_def by (rule find_map_if) (simp split: option.splits)

lemma table_lookup_Some_iff:
  "table_lookup key t k = Some i \<longleftrightarrow>
     (\<exists>e. table_entry t i = Some e \<and> key e = k) \<and>
     (\<forall>j<i. \<forall>e. table_entry t j = Some e \<longrightarrow> key e \<noteq> k)"
  unfolding table_lookup_find find_upt_Some_iff by (auto dest: table_entry_bound)

lemma table_lookup_None_iff:
  "table_lookup key t k = None \<longleftrightarrow> (\<forall>i e. table_entry t i = Some e \<longrightarrow> key e \<noteq> k)"
  unfolding table_lookup_find find_None_iff by (auto dest: table_entry_bound)

lemma table_inv_new: "table_inv (table_new N)"
  by (simp add: table_inv_def table_new_def occ_inv_new) (simp add: occ_new_def occ_slot_count_def)

lemma table_entry_new [simp]: "table_entry (table_new N) i = None"
  by (simp add: table_entry_def table_new_def occ_new_def occ_is_occupied_iff)

lemma not_pinned: "table_inv t \<Longrightarrow> \<not> occ_is_pinned (tb_occ t) i"
  by (simp add: table_inv_def occ_is_pinned_iff)

lemma occ_acquire_pins: "occ_inv s \<Longrightarrow> occ_acquire s = (r, s') \<Longrightarrow> oc_pinned s = [] \<Longrightarrow> oc_pinned s' = []"
  by (auto simp: occ_acquire_rotation split: option.splits)

text \<open>Writing a row into a slot the occupancy just handed out.\<close>

lemma table_fill:
  assumes "table_inv t" "occ_acquire (tb_occ t) = (Some i, occ)"
  shows "table_inv \<lparr>tb_entries = (tb_entries t)[i := r], tb_occ = occ\<rparr> \<and>
         table_entry \<lparr>tb_entries = (tb_entries t)[i := r], tb_occ = occ\<rparr> j =
           (if j = i then r else table_entry t j) \<and>
         \<not> occ_is_occupied (tb_occ t) i \<and>
         (occ_is_occupied occ j \<longleftrightarrow> j = i \<or> occ_is_occupied (tb_occ t) j)"
proof -
  from assms(1) have inv: "occ_inv (tb_occ t)" by (simp add: table_inv_def)
  note a = occ.acquire_Some [OF inv assms(2)]
  have "oc_pinned occ = []"
    using occ_acquire_pins [OF inv assms(2)] assms(1) by (simp add: table_inv_def)
  moreover have "i < length (tb_entries t)" using a assms(1) by (simp add: table_inv_def)
  ultimately show ?thesis
    using a assms(1) by (simp add: table_inv_def table_entry_def get_at_def nth_upd)
qed

lemma table_full:
  assumes "table_inv t" "occ_acquire (tb_occ t) = (None, occ)"
  shows "occ = tb_occ t \<and> (\<forall>i<length (tb_entries t). occ_is_occupied (tb_occ t) i)"
  using assms occ.acquire_None by (auto simp: table_inv_def)

lemma table_release_row:
  assumes "table_inv t" "occ_is_occupied (tb_occ t) i"
  shows "\<exists>t'. table_release t i = (Inr (), t') \<and> table_inv t' \<and> length (tb_entries t') = length (tb_entries t) \<and>
           (\<forall>j. table_entry t' j = (if j = i then None else table_entry t j)) \<and>
           (\<forall>j. occ_is_occupied (tb_occ t') j \<longleftrightarrow> j \<noteq> i \<and> occ_is_occupied (tb_occ t) j)"
proof -
  from assms(1) have inv: "occ_inv (tb_occ t)" by (simp add: table_inv_def)
  from occ.release_Ok [OF inv assms(2) not_pinned [OF assms(1)]] obtain occ where
    r: "occ_release (tb_occ t) i = (Inr (), occ)" "occ_inv occ"
      "occ_slot_count occ = occ_slot_count (tb_occ t)"
      "\<forall>j. occ_is_occupied occ j \<longleftrightarrow> j \<noteq> i \<and> occ_is_occupied (tb_occ t) j"
    by auto
  have "oc_pinned occ = []"
    using r(1) assms(1) by (auto simp: occ_release_spec table_inv_def split: if_splits)
  moreover have "i < length (tb_entries t)"
    using assms occ.occupied_bound [OF inv] by (simp add: table_inv_def)
  ultimately show ?thesis
    using r assms(1)
    by (intro exI [of _ "\<lparr>tb_entries = (tb_entries t)[i := None], tb_occ = occ\<rparr>"])
      (simp add: table_release_def table_reset_def table_inv_def table_entry_def get_at_def nth_upd)
qed

section \<open>The contract of a keyed store\<close>

datatype ('k, 'e) store_op = InsertOp 'e | TakeOp 'k

datatype 'r store_out = Inserted bool | Took 'r

text \<open>A run of a store and the bounded map it should behave as.\<close>

fun store_run ::
  "('s \<Rightarrow> 'e \<Rightarrow> slot_id option \<times> 's) \<Rightarrow> ('s \<Rightarrow> 'k \<Rightarrow> 'r \<times> 's) \<Rightarrow> ('k, 'e) store_op list \<Rightarrow> 's \<Rightarrow>
   'r store_out list \<times> 's" where
  "store_run ins tk [] s = ([], s)"
| "store_run ins tk (InsertOp e # ops) s =
     (case ins s e of (r, s') \<Rightarrow> case store_run ins tk ops s' of (os, s'') \<Rightarrow> (Inserted (r \<noteq> None) # os, s''))"
| "store_run ins tk (TakeOp k # ops) s =
     (case tk s k of (r, s') \<Rightarrow> case store_run ins tk ops s' of (os, s'') \<Rightarrow> (Took r # os, s''))"

fun map_run ::
  "nat \<Rightarrow> ('e \<Rightarrow> 'k) \<Rightarrow> ('e option \<Rightarrow> 'r) \<Rightarrow> ('k, 'e) store_op list \<Rightarrow> ('k \<Rightarrow> 'e option) \<Rightarrow>
   'r store_out list \<times> ('k \<Rightarrow> 'e option)" where
  "map_run N key res [] m = ([], m)"
| "map_run N key res (InsertOp e # ops) m =
     (let ok = (key e \<in> dom m \<or> card (dom m) < N);
          m' = (if key e \<notin> dom m \<and> ok then m(key e \<mapsto> e) else m)
      in case map_run N key res ops m' of (os, m'') \<Rightarrow> (Inserted ok # os, m''))"
| "map_run N key res (TakeOp k # ops) m =
     (case map_run N key res ops (m(k := None)) of (os, m'') \<Rightarrow> (Took (res (m k)) # os, m''))"

locale keyed_store =
  fixes inv :: "'s \<Rightarrow> bool"
    and row :: "'s \<Rightarrow> 'k \<Rightarrow> 'e option"
    and ins :: "'s \<Rightarrow> 'e \<Rightarrow> slot_id option \<times> 's"
    and tk :: "'s \<Rightarrow> 'k \<Rightarrow> 'r \<times> 's"
    and key :: "'e \<Rightarrow> 'k"
    and res :: "'e option \<Rightarrow> 'r"
    and cap :: "'s \<Rightarrow> nat"
  assumes row_key: "inv s \<Longrightarrow> row s k = Some e \<Longrightarrow> key e = k"
    and bounded: "inv s \<Longrightarrow> card (dom (row s)) \<le> cap s"
    and ins_present: "inv s \<Longrightarrow> row s (key e) \<noteq> None \<Longrightarrow> \<exists>i. ins s e = (Some i, s)"
    and ins_new: "inv s \<Longrightarrow> row s (key e) = None \<Longrightarrow> card (dom (row s)) < cap s \<Longrightarrow>
      \<exists>i s'. ins s e = (Some i, s') \<and> inv s' \<and> cap s' = cap s \<and> row s' = (row s)(key e \<mapsto> e)"
    and ins_full: "inv s \<Longrightarrow> row s (key e) = None \<Longrightarrow> card (dom (row s)) = cap s \<Longrightarrow>
      ins s e = (None, s)"
    and tk_row: "inv s \<Longrightarrow>
      \<exists>s'. tk s k = (res (row s k), s') \<and> inv s' \<and> cap s' = cap s \<and> row s' = (row s)(k := None)"
begin

lemma run_refines:
  assumes "inv s"
  shows "case store_run ins tk ops s of (os, s') \<Rightarrow>
    inv s' \<and> cap s' = cap s \<and> map_run (cap s) key res ops (row s) = (os, row s')"
  using assms
proof (induction ops arbitrary: s)
  case (Cons op ops)
  show ?case
  proof (cases op)
    case (InsertOp e)
    consider "row s (key e) \<noteq> None" | "row s (key e) = None" "card (dom (row s)) < cap s"
      | "row s (key e) = None" "card (dom (row s)) = cap s"
      using bounded [OF Cons.prems] by fastforce
    then show ?thesis
    proof cases
      case 1
      with ins_present [OF Cons.prems 1] Cons InsertOp show ?thesis
        by (fastforce simp: dom_def split: prod.splits)
    next
      case 2
      from ins_new [OF Cons.prems 2] obtain i s' where
        n: "ins s e = (Some i, s')" "inv s'" "cap s' = cap s" "row s' = (row s)(key e \<mapsto> e)" by blast
      obtain os s'' where o: "store_run ins tk ops s' = (os, s'')" by fastforce
      have "inv s'' \<and> cap s'' = cap s \<and> map_run (cap s) key res ops ((row s)(key e \<mapsto> e)) = (os, row s'')"
        using Cons.IH [OF n(2)] n(3,4) o by (simp del: fun_upd_apply)
      with n(1) o 2 InsertOp show ?thesis by (simp add: domIff)
    next
      case 3
      obtain os s'' where o: "store_run ins tk ops s = (os, s'')" by fastforce
      from Cons.IH [OF Cons.prems] ins_full [OF Cons.prems 3] o 3 InsertOp show ?thesis
        by (simp add: domIff)
    qed
  next
    case (TakeOp k)
    from tk_row [OF Cons.prems, of k] obtain s' where
      n: "tk s k = (res (row s k), s')" "inv s'" "cap s' = cap s" "row s' = (row s)(k := None)" by blast
    obtain os s'' where o: "store_run ins tk ops s' = (os, s'')" by fastforce
    from Cons.IH [OF n(2)] n o TakeOp show ?thesis by (simp del: fun_upd_apply)
  qed
qed simp

end

section \<open>Tables are keyed stores\<close>

text \<open>A table driven by insert, take and remove only: every occupied slot holds a row.\<close>

definition store_inv :: "('e \<Rightarrow> 'k) \<Rightarrow> 'e table \<Rightarrow> bool" where
  "store_inv key t \<longleftrightarrow>
     table_inv t \<and> unique_keys key t \<and> (\<forall>i. occ_is_occupied (tb_occ t) i \<longrightarrow> table_entry t i \<noteq> None)"

definition table_row :: "('e \<Rightarrow> 'k) \<Rightarrow> 'e table \<Rightarrow> 'k \<Rightarrow> 'e option" where
  "table_row key t k = Option.bind (table_lookup key t k) (table_entry t)"

definition table_cap :: "'e table \<Rightarrow> nat" where
  "table_cap t = length (tb_entries t)"

lemma table_row_Some_iff:
  assumes "unique_keys key t"
  shows "table_row key t k = Some e \<longleftrightarrow> (\<exists>i. table_entry t i = Some e) \<and> key e = k"
proof
  assume "table_row key t k = Some e"
  then obtain i where "table_lookup key t k = Some i" "table_entry t i = Some e"
    by (auto simp: table_row_def bind_eq_Some_conv)
  then show "(\<exists>i. table_entry t i = Some e) \<and> key e = k" by (auto simp: table_lookup_Some_iff)
next
  assume "(\<exists>i. table_entry t i = Some e) \<and> key e = k"
  then obtain i where i: "table_entry t i = Some e" "key e = k" by blast
  moreover have "key f \<noteq> k" if "j < i" "table_entry t j = Some f" for j f
    using assms i that by (auto simp: unique_keys_def)
  ultimately have "table_lookup key t k = Some i" by (auto simp: table_lookup_Some_iff)
  with i show "table_row key t k = Some e" by (simp add: table_row_def)
qed

lemma table_row_None_iff: "table_row key t k = None \<longleftrightarrow> table_lookup key t k = None"
proof (cases "table_lookup key t k")
  case (Some i)
  moreover from this obtain e where "table_entry t i = Some e" by (auto simp: table_lookup_Some_iff)
  ultimately show ?thesis by (simp add: table_row_def)
qed (simp add: table_row_def)

lemma table_row_dom: "unique_keys key t \<Longrightarrow> dom (table_row key t) = {key e | i e. table_entry t i = Some e}"
  by (auto simp: dom_def table_row_Some_iff)

lemma card_rows:
  assumes "store_inv key t"
  shows "card (dom (table_row key t)) = card {i. occ_is_occupied (tb_occ t) i}"
proof -
  let ?key = "\<lambda>i. key (the (table_entry t i))"
  have o: "occ_is_occupied (tb_occ t) i \<longleftrightarrow> (\<exists>e. table_entry t i = Some e)" for i
    using assms by (auto simp: store_inv_def table_entry_def split: if_splits)
  have "dom (table_row key t) = ?key ` {i. occ_is_occupied (tb_occ t) i}"
    using assms by (auto simp: store_inv_def table_row_dom o image_iff) force+
  moreover have "inj_on ?key {i. occ_is_occupied (tb_occ t) i}"
    using assms by (auto simp: inj_on_def o store_inv_def unique_keys_def)
  ultimately show ?thesis by (simp add: card_image)
qed

lemma occupied_subset: "table_inv t \<Longrightarrow> {i. occ_is_occupied (tb_occ t) i} \<subseteq> {..<table_cap t}"
  using occ.occupied_bound by (auto simp: table_inv_def table_cap_def)

lemma option_eqI_iff: "(\<And>x. a = Some x \<longleftrightarrow> b = Some x) \<Longrightarrow> a = b"
  by (cases a; cases b) auto

lemma ex_upd_Some:
  "f i = None \<Longrightarrow> (\<exists>j. (if j = i then Some e else f j) = Some x) \<longleftrightarrow> x = e \<or> (\<exists>j. f j = Some x)"
  by (auto intro: exI [of _ i]) (metis option.distinct(1))

lemma ex_upd_None: "(\<exists>j. (if j = i then None else f j) = Some x) \<longleftrightarrow> (\<exists>j. j \<noteq> i \<and> f j = Some x)"
  by auto

lemma rows_full_iff:
  assumes "store_inv key t"
  shows "card (dom (table_row key t)) = table_cap t \<longleftrightarrow> fst (occ_acquire (tb_occ t)) = None"
proof -
  from assms have inv: "table_inv t" "occ_inv (tb_occ t)" by (auto simp: store_inv_def table_inv_def)
  define Ocs where "Ocs = {i. occ_is_occupied (tb_occ t) i}"
  have sub: "Ocs \<subseteq> {..<table_cap t}" using occupied_subset [OF inv(1)] by (simp add: Ocs_def)
  have "card Ocs = table_cap t \<longleftrightarrow> Ocs = {..<table_cap t}"
    using card_subset_eq [OF finite_lessThan sub] by (metis card_lessThan)
  moreover obtain r occ where a: "occ_acquire (tb_occ t) = (r, occ)" by fastforce
  moreover have "r = None \<longleftrightarrow> Ocs = {..<table_cap t}"
  proof (cases r)
    case None
    with table_full [OF inv(1), of occ] a have "{..<table_cap t} \<subseteq> Ocs" by (auto simp: table_cap_def Ocs_def)
    with sub None show ?thesis by blast
  next
    case (Some i)
    with occ.acquire_Some [OF inv(2), of i occ] a have "i \<notin> Ocs" "i < occ_slot_count (tb_occ t)"
      by (auto simp: Ocs_def)
    with Some inv(1) show ?thesis by (auto simp: table_inv_def table_cap_def)
  qed
  ultimately show ?thesis by (simp add: card_rows [OF assms] Ocs_def)
qed

lemma store_inv_new: "store_inv key (table_new N)"
  by (simp add: store_inv_def table_inv_new unique_keys_def) (simp add: table_new_def occ_new_def occ_is_occupied_iff)

lemma store_insert_new:
  assumes "store_inv key t" "table_row key t (key e) = None" "occ_acquire (tb_occ t) = (Some i, occ)"
  defines "t' \<equiv> \<lparr>tb_entries = (tb_entries t)[i := Some e], tb_occ = occ\<rparr>"
  shows "table_insert key t e = (Some i, t') \<and> store_inv key t' \<and> table_cap t' = table_cap t \<and>
         table_row key t' = (table_row key t)(key e \<mapsto> e)"
proof -
  from assms(1) have inv: "table_inv t" "unique_keys key t" by (auto simp: store_inv_def)
  note f = table_fill [OF inv(1) assms(3), of "Some e", folded t'_def]
  have e: "table_entry t' j = (if j = i then Some e else table_entry t j)" for j using f by blast
  have none: "table_entry t i = None" using f by (simp add: table_entry_def)
  have fresh: "key f \<noteq> key e" if "table_entry t j = Some f" for j f
    using assms(2) that by (auto simp: table_row_None_iff table_lookup_None_iff)
  have uniq: "unique_keys key t'"
    unfolding unique_keys_def e
  proof (intro allI impI)
    fix a b x y
    assume "(if a = i then Some e else table_entry t a) = Some x"
      "(if b = i then Some e else table_entry t b) = Some y" "key x = key y"
    with fresh [of a x] fresh [of b y] inv(2) [unfolded unique_keys_def, rule_format, of a x b y]
    show "a = b" by (auto split: if_splits)
  qed
  have "occ_is_occupied occ j \<longrightarrow> table_entry t' j \<noteq> None" for j
    using f [of j] assms(1) by (auto simp: e store_inv_def)
  moreover have "tb_occ t' = occ" by (simp add: t'_def)
  moreover have "table_row key t' k = ((table_row key t)(key e \<mapsto> e)) k" for k
  proof (rule option_eqI_iff)
    fix x
    have "(\<exists>j. table_entry t' j = Some x) \<longleftrightarrow> x = e \<or> (\<exists>j. table_entry t j = Some x)"
      unfolding e by (rule ex_upd_Some [of "table_entry t" i, OF none])
    then show "table_row key t' k = Some x \<longleftrightarrow> ((table_row key t)(key e \<mapsto> e)) k = Some x"
      using fresh by (auto simp: table_row_Some_iff [OF uniq] table_row_Some_iff [OF inv(2)])
  qed
  ultimately show ?thesis
    using f uniq assms(2,3)
    by (auto simp: store_inv_def table_insert_def table_row_None_iff table_cap_def t'_def)
qed

lemma store_take:
  assumes "store_inv key t"
  shows "\<exists>t'. snd (table_take key t k) = t' \<and> table_remove key t k = (table_row key t k \<noteq> None, t') \<and>
           store_inv key t' \<and> table_cap t' = table_cap t \<and> table_row key t' = (table_row key t)(k := None) \<and>
           fst (table_take key t k) = table_row key t k"
proof (cases "table_lookup key t k")
  case None
  then have "table_row key t k = None" by (simp add: table_row_None_iff)
  with None assms show ?thesis by (simp add: table_take_def table_remove_def fun_upd_idem)
next
  case (Some i)
  from assms have inv: "table_inv t" "unique_keys key t" by (auto simp: store_inv_def)
  from Some obtain e where e: "table_entry t i = Some e" "key e = k" by (auto simp: table_lookup_Some_iff)
  then have "occ_is_occupied (tb_occ t) i" by (auto simp: table_entry_def split: if_splits)
  from table_release_row [OF inv(1) this] obtain t' where
    r: "table_release t i = (Inr (), t')" "table_inv t'" "length (tb_entries t') = length (tb_entries t)"
      "\<And>j. table_entry t' j = (if j = i then None else table_entry t j)"
      "\<And>j. occ_is_occupied (tb_occ t') j \<longleftrightarrow> j \<noteq> i \<and> occ_is_occupied (tb_occ t) j"
    by blast
  have uniq: "unique_keys key t'" using inv(2) by (simp add: unique_keys_def r)
  have si: "store_inv key t'" using assms r uniq by (simp add: store_inv_def)
  have "table_row key t' k' = ((table_row key t)(k := None)) k'" for k'
  proof (rule option_eqI_iff)
    fix x
    have "j = i \<longleftrightarrow> key x = k" if "table_entry t j = Some x" for j
      using that e inv(2) by (auto simp: unique_keys_def)
    then have "(\<exists>j. table_entry t' j = Some x) \<longleftrightarrow> key x \<noteq> k \<and> (\<exists>j. table_entry t j = Some x)"
      unfolding r(4) ex_upd_None by blast
    then show "table_row key t' k' = Some x \<longleftrightarrow> ((table_row key t)(k := None)) k' = Some x"
      by (auto simp: table_row_Some_iff [OF uniq] table_row_Some_iff [OF inv(2)])
  qed
  moreover have "table_row key t k = Some e" using Some e by (simp add: table_row_def)
  ultimately show ?thesis
    using Some e r si by (auto simp: table_take_def table_remove_def table_cap_def)
qed

lemma table_keyed_store:
  assumes "\<And>t k. tk t k = (res (table_row key t k), snd (table_take key t k)) \<or> \<not> store_inv key t"
  shows "keyed_store (store_inv key) (table_row key) (table_insert key) tk key res table_cap"
proof (unfold_locales, goal_cases)
  case (1 t k e)
  then show ?case by (auto simp: store_inv_def table_row_Some_iff)
next
  case (2 t)
  then have "table_inv t" by (simp add: store_inv_def)
  from card_mono [OF finite_lessThan occupied_subset [OF this]] show ?case
    by (simp add: card_rows [OF 2])
next
  case (3 t e)
  then show ?case by (cases "table_lookup key t (key e)") (auto simp: table_row_None_iff table_insert_def)
next
  case (4 t e)
  then obtain i where "fst (occ_acquire (tb_occ t)) = Some i"
    using rows_full_iff [of key t] by fastforce
  then obtain occ where "occ_acquire (tb_occ t) = (Some i, occ)" by (cases "occ_acquire (tb_occ t)") auto
  from store_insert_new [OF 4(1,2) this] show ?case by blast
next
  case (5 t e)
  then have "fst (occ_acquire (tb_occ t)) = None" by (simp add: rows_full_iff)
  then obtain occ where a: "occ_acquire (tb_occ t) = (None, occ)" by (cases "occ_acquire (tb_occ t)") auto
  moreover have "table_inv t" using 5 by (simp add: store_inv_def)
  ultimately have "occ = tb_occ t" using table_full by blast
  with 5 a show ?case by (simp add: table_insert_def table_row_None_iff)
next
  case (6 t k)
  from store_take [OF this, of k] assms [of t k] 6 show ?case by auto
qed

interpretation exchanges: keyed_store "store_inv xe_key" "table_row xe_key" exchange_insert exchange_take
    xe_key id table_cap
  unfolding exchange_insert_def exchange_take_def
  by (rule table_keyed_store) (metis id_apply prod.collapse store_take)

interpretation dedups: keyed_store "store_inv de_key" "table_row de_key" dedup_insert dedup_remove
    de_key "\<lambda>r. r \<noteq> None" table_cap
  unfolding dedup_insert_def dedup_remove_def
  by (rule table_keyed_store) (metis store_take)

section \<open>Storing replies\<close>

text \<open>
  What storing a reply means, in terms of the plain operations: replace the row with the key,
  otherwise insert, otherwise evict the first of the timed rows that are due earliest. The last
  component is the slot to be released.
\<close>

fun oldest_row :: "dedup_table \<Rightarrow> slot_id list \<Rightarrow> dedup_entry option \<Rightarrow> dedup_entry option" where
  "oldest_row t [] oldest = oldest"
| "oldest_row t (i # is) oldest =
     (case dedup_entry_ref t i of
        None \<Rightarrow> oldest_row t is oldest
      | Some row \<Rightarrow>
          oldest_row t is
            (if de_due_ms row \<noteq> 0 \<and> (case oldest of None \<Rightarrow> True | Some old \<Rightarrow> de_due_ms row < de_due_ms old)
             then Some row else oldest))"

definition store_reference :: "dedup_table \<Rightarrow> dedup_entry \<Rightarrow> bool \<times> dedup_table \<times> slot_id option" where
  "store_reference t e =
     (let (t1, pin) =
        (case Option.bind (dedup_lookup t (de_key e)) (dedup_entry_ref t) of
           Some old \<Rightarrow> (snd (dedup_remove t (de_key old)), de_tx_pin old)
         | None \<Rightarrow> (t, None))
      in case dedup_insert t1 e of
           (Some _, t2) \<Rightarrow> (True, t2, pin)
         | (None, t2) \<Rightarrow>
             (case oldest_row t2 [0..<length (tb_entries t2)] None of
                None \<Rightarrow> (False, t2, pin)
              | Some old \<Rightarrow>
                  (case dedup_insert (snd (dedup_remove t2 (de_key old))) e of
                     (r, t3) \<Rightarrow> (r \<noteq> None, t3, de_tx_pin old))))"

definition same_oldest :: "dedup_table \<Rightarrow> (slot_id \<times> u64) option \<Rightarrow> dedup_entry option \<Rightarrow> bool" where
  "same_oldest t a b \<longleftrightarrow>
     (case b of None \<Rightarrow> a = None
      | Some row \<Rightarrow> \<exists>i. a = Some (i, de_due_ms row) \<and> dedup_entry_ref t i = Some row)"

lemma store_scan_lookup:
  "fst (store_scan t k is oldest) =
     find (\<lambda>i. \<exists>e. table_entry t i = Some e \<and> de_key e = k) is"
  by (induction t k "is" oldest rule: store_scan.induct)
    (auto simp: dedup_entry_ref_def split: option.splits)

lemma store_scan_oldest:
  assumes "same_oldest t a b" "\<forall>i\<in>set is. \<forall>e. dedup_entry_ref t i = Some e \<longrightarrow> de_key e \<noteq> k"
  shows "same_oldest t (snd (store_scan t k is a)) (oldest_row t is b)"
  using assms
proof (induction "is" arbitrary: a b)
  case (Cons i "is")
  show ?case
  proof (cases "dedup_entry_ref t i")
    case None
    with Cons show ?thesis by simp
  next
    case (Some row)
    from Cons.prems Some have "de_key row \<noteq> k" by simp
    moreover have "(case a of None \<Rightarrow> True | Some (_, due) \<Rightarrow> de_due_ms row < due) =
        (case b of None \<Rightarrow> True | Some old \<Rightarrow> de_due_ms row < de_due_ms old)"
      using Cons.prems(1) by (auto simp: same_oldest_def split: option.splits)
    moreover have "same_oldest t (Some (i, de_due_ms row)) (Some row)" using Some by (simp add: same_oldest_def)
    ultimately show ?thesis using Cons Some by simp
  qed
qed simp

lemma store_scan_table:
  "fst (store_scan t k [0..<length (tb_entries t)] oldest) = dedup_lookup t k"
  by (simp add: store_scan_lookup dedup_lookup_def table_lookup_find)

lemma insert_after_release:
  assumes "table_inv t" "table_entry t i = Some old"
  shows "fst (table_insert key (snd (table_remove key t (key old))) e) \<noteq> None"
proof -
  have "table_lookup key t (key old) \<noteq> None" using assms(2) by (auto simp: table_lookup_None_iff)
  then obtain k where k: "table_lookup key t (key old) = Some k" by auto
  then have "occ_is_occupied (tb_occ t) k"
    by (auto simp: table_lookup_Some_iff table_entry_def split: if_splits)
  moreover from k have "k < length (tb_entries t)"
    by (auto simp: table_lookup_Some_iff dest: table_entry_bound)
  moreover from table_release_row [OF assms(1) calculation(1)] obtain t' where t':
    "table_release t k = (Inr (), t')" "table_inv t'" "length (tb_entries t') = length (tb_entries t)"
    "\<not> occ_is_occupied (tb_occ t') k" by auto
  moreover obtain r occ where "occ_acquire (tb_occ t') = (r, occ)" by fastforce
  ultimately show ?thesis
    using k table_full [OF t'(2), of occ]
    by (cases r) (auto simp: table_remove_def table_insert_def split: option.splits)
qed

lemma lookup_after_remove:
  assumes "table_inv t" "table_lookup key t k = None"
  shows "table_lookup key (snd (table_remove key t k')) k = None"
proof (cases "table_lookup key t k'")
  case None
  with assms(2) show ?thesis by (simp add: table_remove_def)
next
  case (Some i)
  then have "occ_is_occupied (tb_occ t) i"
    by (auto simp: table_lookup_Some_iff table_entry_def split: if_splits)
  from table_release_row [OF assms(1) this] obtain t' where
    t': "table_release t i = (Inr (), t')" "\<And>j. table_entry t' j = (if j = i then None else table_entry t j)"
    by blast
  have "table_entry t' j = Some x \<Longrightarrow> table_entry t j = Some x" for j x
    by (simp add: t' split: if_splits)
  with Some t'(1) assms(2) show ?thesis by (auto simp: table_remove_def table_lookup_None_iff)
qed

lemma store_app_reference:
  assumes "table_inv t"
  shows "case store_reference t e of (ok, t', pin) \<Rightarrow>
    try_store_app t e = (Inr (Some ok), t', case pin of None \<Rightarrow> [] | Some p \<Rightarrow> [p])"
proof (cases "dedup_lookup t (de_key e)")
  case (Some i)
  then obtain old where old: "table_entry t i = Some old" "de_key old = de_key e"
    by (auto simp: dedup_lookup_def table_lookup_Some_iff)
  let ?t = "snd (dedup_remove t (de_key old))"
  from insert_after_release [OF assms old(1), of de_key e] obtain k t' where
    "dedup_insert ?t e = (Some k, t')"
    by (cases "dedup_insert ?t e") (auto simp: dedup_insert_def dedup_remove_def)
  with Some old show ?thesis
    using store_scan_table [of t "de_key e" None]
    by (auto simp: try_store_app_def store_reference_def dedup_entry_ref_def pin_list_def
        split: prod.splits option.splits)
next
  case None
  obtain oldest where sc: "store_scan t (de_key e) [0..<length (tb_entries t)] None = (None, oldest)"
    using store_scan_table [of t "de_key e" None] None by (cases "store_scan t (de_key e) [0..<length (tb_entries t)] None") auto
  obtain r occ where a: "occ_acquire (tb_occ t) = (r, occ)" by fastforce
  show ?thesis
  proof (cases r)
    case (Some i)
    with None sc a show ?thesis
      by (simp add: try_store_app_def store_reference_def dedup_insert_def table_insert_def dedup_lookup_def)
  next
    case full: None
    with a table_full [OF assms] have occ: "occ = tb_occ t" by blast
    have ins: "dedup_insert t e = (None, t)"
      using None a full occ by (simp add: dedup_insert_def dedup_lookup_def table_insert_def)
    have "\<forall>i\<in>set [0..<length (tb_entries t)]. \<forall>x. dedup_entry_ref t i = Some x \<longrightarrow> de_key x \<noteq> de_key e"
      using None by (auto simp: dedup_lookup_def dedup_entry_ref_def table_lookup_None_iff)
    from store_scan_oldest [OF _ this, of None None] sc
    have same: "same_oldest t oldest (oldest_row t [0..<length (tb_entries t)] None)"
      by (simp add: same_oldest_def)
    show ?thesis
    proof (cases "oldest_row t [0..<length (tb_entries t)] None")
      case no: None
      with same None sc a full occ ins show ?thesis
        by (simp add: try_store_app_def store_reference_def same_oldest_def)
    next
      case (Some old)
      with same obtain v where v: "oldest = Some (v, de_due_ms old)" "dedup_entry_ref t v = Some old"
        by (auto simp: same_oldest_def)
      let ?t = "snd (dedup_remove t (de_key old))"
      have "table_lookup de_key ?t (de_key e) = None"
        using lookup_after_remove [OF assms] None by (simp add: dedup_lookup_def dedup_remove_def)
      then have "dedup_insert ?t e = (case occ_acquire (tb_occ ?t) of
          (None, occ) \<Rightarrow> (None, ?t\<lparr>tb_occ := occ\<rparr>)
        | (Some i, occ) \<Rightarrow> (Some i, \<lparr>tb_entries = (tb_entries ?t)[i := Some e], tb_occ = occ\<rparr>))"
        by (simp add: dedup_insert_def table_insert_def)
      with Some v None sc a full occ ins show ?thesis
        by (simp add: try_store_app_def store_reference_def Let_def pin_list_def split: prod.splits option.splits)
    qed
  qed
qed

section \<open>Invariants of the tables\<close>

lemma table_inv_fill: "table_inv t \<Longrightarrow> occ_acquire (tb_occ t) = (Some i, occ) \<Longrightarrow>
    table_inv \<lparr>tb_entries = (tb_entries t)[i := r], tb_occ = occ\<rparr>"
  using table_fill by blast

lemma table_inv_insert: "table_inv t \<Longrightarrow> table_inv (snd (table_insert key t e))"
  using table_full [of t] table_inv_fill [of t]
  by (auto simp: table_insert_def split: option.splits prod.splits)

lemma table_inv_acquire: "table_inv t \<Longrightarrow> table_inv (snd (table_acquire t))"
proof -
  assume inv: "table_inv t"
  have "table_reset (t\<lparr>tb_occ := occ\<rparr>) i = \<lparr>tb_entries = (tb_entries t)[i := None], tb_occ = occ\<rparr>" for i occ
    by (auto simp: table_reset_def list_update_beyond)
  with inv table_inv_fill [OF inv] table_full [OF inv] show ?thesis
    by (auto simp: table_acquire_def split: option.splits prod.splits)
qed

lemma table_inv_release: "table_inv t \<Longrightarrow> table_inv (snd (table_release t i))"
proof (cases "occ_is_occupied (tb_occ t) i")
  case True
  moreover assume "table_inv t"
  ultimately show ?thesis using table_release_row [of t i] by auto
next
  case False
  moreover assume "table_inv t"
  moreover from this obtain x where "occ_release (tb_occ t) i = (Inl x, tb_occ t)"
    using False occ.release_refused [of "tb_occ t" i] by (auto simp: table_inv_def)
  ultimately show ?thesis by (simp add: table_release_def)
qed

lemma table_inv_remove: "table_inv t \<Longrightarrow> table_inv (snd (table_remove key t k))"
  using table_inv_release [of t] by (auto simp: table_remove_def split: option.splits prod.splits) (metis snd_conv)

lemma table_inv_take: "table_inv t \<Longrightarrow> table_inv (snd (table_take key t k))"
  using table_inv_release [of t] by (auto simp: table_take_def split: option.splits)

lemma table_inv_set_entry: "table_inv t \<Longrightarrow> table_inv (snd (table_set_entry t i e))"
  by (simp add: table_set_entry_def table_inv_def)

lemma table_inv_advance: "table_inv t \<Longrightarrow> table_inv (table_advance t n)"
  by (auto simp: table_advance_def table_inv_def occ_inv_advance)
    (simp_all add: occ_advance_def occ_set_cursor_def)

lemmas table_inv_ops = table_inv_insert table_inv_acquire table_inv_release table_inv_remove
  table_inv_take table_inv_set_entry table_inv_advance

lemma table_inv_store_app: "table_inv t \<Longrightarrow> table_inv (fst (snd (try_store_app t e)))"
proof -
  assume inv: "table_inv t"
  let ?t = "case Option.bind (dedup_lookup t (de_key e)) (dedup_entry_ref t) of
      Some old \<Rightarrow> snd (dedup_remove t (de_key old)) | None \<Rightarrow> t"
  have "table_inv ?t" using inv by (simp add: dedup_remove_def table_inv_remove split: option.splits)
  then have "table_inv (snd (dedup_insert ?t e))" by (simp add: dedup_insert_def table_inv_insert)
  then have "table_inv (fst (snd (store_reference t e)))"
    by (auto simp: store_reference_def split: prod.splits option.splits)
      (metis dedup_insert_def dedup_remove_def snd_conv table_inv_insert table_inv_remove)+
  moreover have "fst (snd (store_reference t e)) = fst (snd (try_store_app t e))"
    using store_app_reference [OF inv, of e] by (auto split: prod.splits)
  ultimately show ?thesis by simp
qed

text \<open>
  C14: storing a reply. The single scan of \<open>try_store_app\<close>, which finds the row to replace and the
  row to evict in one pass and fills the slot directly, never fails an \<open>expect\<close> and has the same
  result, the same table (rows, flags and cursor) and releases the same transmit slot as replacing,
  inserting or evicting with the plain operations, on every table, duplicate keys included.
\<close>

theorem try_store_app_reference:
  assumes "table_inv t"
  shows "case store_reference t e of (ok, t', pin) \<Rightarrow>
    try_store_app t e = (Inr (Some ok), t', case pin of None \<Rightarrow> [] | Some p \<Rightarrow> [p])"
  by (rule store_app_reference [OF assms])

theorem try_store_app_reference_witness:
  "\<exists>t'. try_store_app
     (snd (dedup_insert (dedup_new 1) (de_with_tx_pin (de_with_due_ms (dedup_entry_new 7 (endpoint_v4 10 0 0 1 5683)) 9) 3)))
     (dedup_entry_new 8 (endpoint_v4 10 0 0 1 5683)) = (Inr (Some True), t', [3])"
proof -
  let ?t = "snd (dedup_insert (dedup_new 1) (de_with_tx_pin (de_with_due_ms (dedup_entry_new 7 (endpoint_v4 10 0 0 1 5683)) 9) 3))"
  let ?e = "dedup_entry_new 8 (endpoint_v4 10 0 0 1 5683)"
  have "table_inv ?t" by (simp add: dedup_insert_def dedup_new_def table_inv_insert table_inv_new)
  note r = try_store_app_reference [OF this, of ?e]
  obtain ok t' pin where o: "store_reference ?t ?e = (ok, t', pin)" by (cases "store_reference ?t ?e") auto
  moreover have "fst (store_reference ?t ?e)" "snd (snd (store_reference ?t ?e)) = Some 3" by code_simp+
  ultimately show ?thesis using r by simp
qed

section \<open>Properties\<close>

lemma table_row_new [simp]: "table_row key (table_new N) = Map.empty"
  by (rule ext) (simp add: table_row_None_iff table_lookup_None_iff)

lemma table_cap_new [simp]: "table_cap (table_new N) = N"
  by (simp add: table_cap_def table_new_def)

text \<open>
  C13: the exchange table is a bounded map from (token, endpoint) to outstanding requests. For every
  sequence of inserts and takes from an empty table of N entries, each result and the final contents
  are those of a partial map that keeps the first row of a key, refuses a new key exactly when it
  holds N, and forgets a key when it is taken.
\<close>

theorem exchange_table_refines_map:
  "case store_run exchange_insert exchange_take ops (exchange_new N) of (os, t) \<Rightarrow>
     map_run N xe_key id ops Map.empty = (os, table_row xe_key t)"
  using exchanges.run_refines [OF store_inv_new, of N ops]
  by (simp add: exchange_new_def split: prod.splits)

lemma oldest_row_spec:
  assumes "\<forall>r. oldest = Some r \<longrightarrow> (\<exists>i. table_entry t i = Some r) \<and> de_due_ms r \<noteq> 0"
  shows "(case oldest_row t is oldest of
            None \<Rightarrow> oldest = None \<and> (\<forall>i\<in>set is. \<forall>r. table_entry t i = Some r \<longrightarrow> de_due_ms r = 0)
          | Some r \<Rightarrow> (\<exists>i. table_entry t i = Some r) \<and> de_due_ms r \<noteq> 0 \<and>
              (\<forall>o1. oldest = Some o1 \<longrightarrow> de_due_ms r \<le> de_due_ms o1) \<and>
              (\<forall>i\<in>set is. \<forall>x. table_entry t i = Some x \<longrightarrow> de_due_ms x \<noteq> 0 \<longrightarrow> de_due_ms r \<le> de_due_ms x))"
  using assms
proof (induction "is" arbitrary: oldest)
  case Nil
  then show ?case by (auto split: option.splits)
next
  case (Cons i "is")
  show ?case
  proof (cases "table_entry t i")
    case None
    with Cons.IH [OF Cons.prems] show ?thesis by (auto simp: dedup_entry_ref_def split: option.splits)
  next
    case (Some row)
    define n where "n = (if de_due_ms row \<noteq> 0 \<and>
        (case oldest of None \<Rightarrow> True | Some old \<Rightarrow> de_due_ms row < de_due_ms old) then Some row else oldest)"
    have "\<forall>r. n = Some r \<longrightarrow> (\<exists>i. table_entry t i = Some r) \<and> de_due_ms r \<noteq> 0"
      using Some Cons.prems by (auto simp: n_def)
    from Cons.IH [OF this] have ih: "case oldest_row t is n of
            None \<Rightarrow> n = None \<and> (\<forall>i\<in>set is. \<forall>r. table_entry t i = Some r \<longrightarrow> de_due_ms r = 0)
          | Some r \<Rightarrow> (\<exists>i. table_entry t i = Some r) \<and> de_due_ms r \<noteq> 0 \<and>
              (\<forall>o1. n = Some o1 \<longrightarrow> de_due_ms r \<le> de_due_ms o1) \<and>
              (\<forall>i\<in>set is. \<forall>x. table_entry t i = Some x \<longrightarrow> de_due_ms x \<noteq> 0 \<longrightarrow> de_due_ms r \<le> de_due_ms x)" .
    have st: "oldest_row t (i # is) oldest = oldest_row t is n"
      using Some by (simp add: dedup_entry_ref_def n_def)
    have n: "n = None \<Longrightarrow> oldest = None \<and> de_due_ms row = 0"
      "n = Some q \<Longrightarrow> (\<forall>o1. oldest = Some o1 \<longrightarrow> de_due_ms q \<le> de_due_ms o1) \<and>
         (de_due_ms row \<noteq> 0 \<longrightarrow> de_due_ms q \<le> de_due_ms row)" for q
      by (auto simp: n_def split: if_splits option.splits)
    show ?thesis
    proof (cases "oldest_row t is n")
      case None
      with ih n(1) Some st show ?thesis by auto
    next
      case (Some r)
      with ih n(1) n(2) st \<open>table_entry t i = Some row\<close> show ?thesis
        by (cases n) (auto intro: order_trans)
    qed
  qed
qed

lemma oldest_row_table:
  assumes "unique_keys de_key t"
  shows "oldest_row t [0..<length (tb_entries t)] None = None \<Longrightarrow>
           table_row de_key t k = Some r \<Longrightarrow> de_due_ms r = 0"
    and "oldest_row t [0..<length (tb_entries t)] None = Some old \<Longrightarrow>
           table_row de_key t (de_key old) = Some old \<and> de_due_ms old \<noteq> 0 \<and>
           (\<forall>k r. table_row de_key t k = Some r \<longrightarrow> de_due_ms r \<noteq> 0 \<longrightarrow> de_due_ms old \<le> de_due_ms r)"
proof -
  have b: "i \<in> set [0..<length (tb_entries t)]" if "table_entry t i = Some r" for i r
    using table_entry_bound [OF that] by simp
  note spec = oldest_row_spec [of None t "[0..<length (tb_entries t)]"]
  show "oldest_row t [0..<length (tb_entries t)] None = None \<Longrightarrow>
           table_row de_key t k = Some r \<Longrightarrow> de_due_ms r = 0"
    using spec b unfolding table_row_Some_iff [OF assms] by fastforce
  show "oldest_row t [0..<length (tb_entries t)] None = Some old \<Longrightarrow>
           table_row de_key t (de_key old) = Some old \<and> de_due_ms old \<noteq> 0 \<and>
           (\<forall>k r. table_row de_key t k = Some r \<longrightarrow> de_due_ms r \<noteq> 0 \<longrightarrow> de_due_ms old \<le> de_due_ms r)"
    using spec b unfolding table_row_Some_iff [OF assms] by fastforce
qed

lemma card_forget:
  assumes "m k = Some x" "card (dom m) \<le> n" "finite (dom m)"
  shows "card (dom (m(k := None))) < n"
proof -
  have "k \<in> dom m" using assms(1) by blast
  then have "card (dom m - {k}) < card (dom m)" using card_Diff1_less [OF assms(3)] by simp
  then show ?thesis using assms(2) by simp
qed

lemma finite_rows: "store_inv key t \<Longrightarrow> finite (dom (table_row key t))"
proof -
  assume inv: "store_inv key t"
  have "dom (table_row key t) \<subseteq> (\<lambda>i. key (the (table_entry t i))) ` {..<length (tb_entries t)}"
  proof
    fix k
    assume "k \<in> dom (table_row key t)"
    then obtain i e where "table_entry t i = Some e" "key e = k"
      using inv by (auto simp: store_inv_def table_row_Some_iff)
    then show "k \<in> (\<lambda>i. key (the (table_entry t i))) ` {..<length (tb_entries t)}"
      by (intro image_eqI [of _ _ i]) (auto dest: table_entry_bound)
  qed
  then show ?thesis by (rule finite_subset) simp
qed

text \<open>Removing a stored row makes room for exactly one more.\<close>

lemma replace_row:
  assumes "store_inv de_key t" "table_row de_key t k = Some old"
    and "(table_row de_key t)(k := None) = m" "m (de_key e) = None"
  shows "\<exists>i t'. dedup_insert (snd (dedup_remove t k)) e = (Some i, t') \<and> store_inv de_key t' \<and>
           table_row de_key t' = m(de_key e \<mapsto> e)"
proof -
  from dedups.tk_row [OF assms(1), of k] obtain t1 where
    t1: "snd (dedup_remove t k) = t1" "store_inv de_key t1" "table_cap t1 = table_cap t"
      "table_row de_key t1 = m" using assms(3) by auto
  have "card (dom m) < table_cap t1"
    using card_forget [OF assms(2) dedups.bounded [OF assms(1)] finite_rows [OF assms(1)]] t1(3) assms(3)
    by simp
  with dedups.ins_new [OF t1(2), of e] t1 assms(4) show ?thesis by auto
qed

text \<open>
  C15: eviction. On a table whose rows have distinct keys, storing a reply succeeds exactly when the
  key is present, or there is a free entry, or some row has an expiry time. On success the new
  contents are the old ones with the reply under its key, minus at most one evicted row; a row is
  evicted only from a full table without the key, and it is a timed row that expires no later than
  any other. Rows without expiry are never lost, and on failure nothing changes.
\<close>

theorem dedup_eviction:
  assumes "store_inv de_key t"
  shows "\<exists>ok t' pins V. try_store_app t e = (Inr (Some ok), t', pins) \<and> store_inv de_key t' \<and>
    (ok \<longleftrightarrow> table_row de_key t (de_key e) \<noteq> None \<or> card (dom (table_row de_key t)) < table_cap t \<or>
            (\<exists>k r. table_row de_key t k = Some r \<and> de_due_ms r \<noteq> 0)) \<and>
    (if ok then table_row de_key t' = ((table_row de_key t) |` (- V))(de_key e \<mapsto> e) else t' = t) \<and>
    (V = {} \<or> (\<exists>k old. V = {k} \<and> table_row de_key t k = Some old \<and> de_due_ms old \<noteq> 0 \<and>
       table_row de_key t (de_key e) = None \<and> card (dom (table_row de_key t)) = table_cap t \<and>
       (\<forall>k' r. table_row de_key t k' = Some r \<longrightarrow> de_due_ms r \<noteq> 0 \<longrightarrow> de_due_ms old \<le> de_due_ms r)))"
proof -
  let ?m = "table_row de_key t"
  have inv: "table_inv t" "unique_keys de_key t" using assms by (auto simp: store_inv_def)
  note ref = store_app_reference [OF inv(1), of e]
  have bind: "Option.bind (dedup_lookup t (de_key e)) (dedup_entry_ref t) = ?m (de_key e)"
    by (simp add: table_row_def dedup_lookup_def dedup_entry_ref_def)
  consider (present) old where "?m (de_key e) = Some old"
    | (room) "?m (de_key e) = None" "card (dom ?m) < table_cap t"
    | (full) "?m (de_key e) = None" "card (dom ?m) = table_cap t"
    using dedups.bounded [OF assms] by fastforce
  then show ?thesis
  proof cases
    case present
    have k: "de_key old = de_key e" using dedups.row_key [OF assms present] .
    from replace_row [OF assms present refl, of e] obtain i t' where
      "dedup_insert (snd (dedup_remove t (de_key e))) e = (Some i, t')" "store_inv de_key t'"
      "table_row de_key t' = ?m(de_key e \<mapsto> e)" by auto
    with ref present k show ?thesis
      by (intro exI [of _ True] exI [of _ t'] exI [of _ "{}"]) (auto simp: store_reference_def bind)
  next
    case room
    from dedups.ins_new [OF assms room] obtain i t' where
      "dedup_insert t e = (Some i, t')" "store_inv de_key t'" "table_row de_key t' = ?m(de_key e \<mapsto> e)"
      by blast
    with ref room show ?thesis
      by (intro exI [of _ True] exI [of _ t'] exI [of _ "{}"]) (auto simp: store_reference_def bind)
  next
    case full
    note ins = dedups.ins_full [OF assms full]
    show ?thesis
    proof (cases "oldest_row t [0..<length (tb_entries t)] None")
      case None
      with oldest_row_table(1) [OF inv(2)] ref full ins assms show ?thesis
        by (intro exI [of _ False] exI [of _ t] exI [of _ "{}"]) (auto simp: store_reference_def bind)
    next
      case (Some old)
      note o = oldest_row_table(2) [OF inv(2) Some]
      have rm: "?m(de_key old := None) = ?m |` (- {de_key old})" by (auto simp: restrict_map_def)
      have "(?m |` (- {de_key old})) (de_key e) = None" using full(1) by (simp add: restrict_map_def)
      from replace_row [OF assms conjunct1 [OF o] rm this] obtain i t' where
        "dedup_insert (snd (dedup_remove t (de_key old))) e = (Some i, t')" "store_inv de_key t'"
        "table_row de_key t' = (?m |` (- {de_key old}))(de_key e \<mapsto> e)"
        by blast
      with ref full ins Some o show ?thesis
        by (intro exI [of _ True] exI [of _ t'] exI [of _ "{de_key old}"])
          (auto simp: store_reference_def bind)
    qed
  qed
qed

theorem dedup_eviction_witness:
  "\<exists>t' pins. try_store_app
     (snd (dedup_insert (dedup_new 1) (de_with_due_ms (dedup_entry_new 7 (endpoint_v4 10 0 0 1 5683)) 9)))
     (dedup_entry_new 8 (endpoint_v4 10 0 0 1 5683)) = (Inr (Some True), t', pins) \<and>
   table_row de_key t' (de_key (dedup_entry_new 8 (endpoint_v4 10 0 0 1 5683))) =
     Some (dedup_entry_new 8 (endpoint_v4 10 0 0 1 5683))"
proof -
  let ?d = "de_with_due_ms (dedup_entry_new 7 (endpoint_v4 10 0 0 1 5683)) 9"
  let ?e = "dedup_entry_new 8 (endpoint_v4 10 0 0 1 5683)"
  let ?t = "snd (dedup_insert (dedup_new 1) ?d)"
  from dedups.ins_new [OF store_inv_new, where e = ?d and N1 = 1]
  have t: "store_inv de_key ?t" "table_row de_key ?t = [de_key ?d \<mapsto> ?d]"
    by (auto simp: dedup_new_def)
  have "de_due_ms ?d \<noteq> 0" by code_simp
  with t(2) have "\<exists>k r. table_row de_key ?t k = Some r \<and> de_due_ms r \<noteq> 0" by auto
  with dedup_eviction [OF t(1), of ?e] obtain ok t' pins V where
    "try_store_app ?t ?e = (Inr (Some ok), t', pins)" "ok"
    "if ok then table_row de_key t' = ((table_row de_key ?t) |` (- V))(de_key ?e \<mapsto> ?e) else t' = ?t"
    by blast
  then show ?thesis by simp
qed

end
