(* ===== verification/Osc_Header.thy ===== *)
theory Osc_Header
  imports Msg_Core
begin

text \<open>
  OSCORE partial IVs, the compressed OSCORE option and option classes (\<open>src/oscore/header.rs\<close>), the
  error type (\<open>src/oscore/error.rs\<close>) and the AEAD nonce (\<open>nonce\<close> of \<open>src/oscore/aead.rs\<close>).

  The lemmas show that a partial IV is the shortest big-endian form of its sequence number, that the
  option parser inverts the option encoder, and that the nonce determines the identifier and the
  sequence number it was built from.
\<close>

datatype oscore_error =
    OE_MasterSecret | OE_MasterSalt | OE_Id | OE_IdCollision | OE_Derive | OE_BufferTooSmall
  | OE_MessageLength | OE_MessageCode | OE_Header | OE_Context | OE_Unprotected | OE_Saturated
  | OE_PartialIv | OE_SequenceExhausted | OE_SequenceRollback | OE_SequenceUnreserved | OE_Replay
  | OE_ReplayState | OE_ReplayRollback | OE_Decrypt | OE_Encrypt
  | OE_Encode encode_error | OE_Parse parse_error | OE_Options | OE_Unsupported

definition KEY_LEN :: nat where "KEY_LEN = 16"
definition NONCE_LEN :: nat where "NONCE_LEN = 13"
definition TAG_LEN :: nat where "TAG_LEN = 8"
definition MAX_ID_LEN :: nat where "MAX_ID_LEN = 7"
definition MAX_ID_CONTEXT_LEN :: nat where "MAX_ID_CONTEXT_LEN = 16"
definition MAX_PIV_LEN :: nat where "MAX_PIV_LEN = 5"
definition REPLAY_WINDOW :: u64 where "REPLAY_WINDOW = 32"

section \<open>Partial IV\<close>

record partial_iv =
  pv_bytes :: bytes
  pv_len :: u8

definition piv_from_seq :: "u64 \<Rightarrow> oscore_error + partial_iv" where
  "piv_from_seq seq =
     (let be = u64_to_be seq; start = length (takeWhile (\<lambda>b. b = 0) be) in
      if start = 8 then Inr \<lparr>pv_bytes = [0, 0, 0, 0, 0], pv_len = 1\<rparr>
      else
        let len = 8 - start in
        if MAX_PIV_LEN < len then Inl OE_PartialIv
        else Inr \<lparr>pv_bytes = blit (replicate MAX_PIV_LEN 0) 0 (drop start be), pv_len = of_nat len\<rparr>)"

definition piv_from_bytes :: "bytes \<Rightarrow> oscore_error + partial_iv" where
  "piv_from_bytes bs =
     (if bs = [] \<or> MAX_PIV_LEN < length bs then Inl OE_PartialIv
      else Inr \<lparr>pv_bytes = blit (replicate MAX_PIV_LEN 0) 0 bs, pv_len = of_nat (length bs)\<rparr>)"

definition piv_as_bytes :: "partial_iv \<Rightarrow> bytes" where
  "piv_as_bytes p = take (unat (pv_len p)) (pv_bytes p)"

definition piv_seq :: "partial_iv \<Rightarrow> u64" where
  "piv_seq p =
     (let n = unat (pv_len p) in word_from_be (blit (replicate 8 0) (8 - n) (take n (pv_bytes p))))"

section \<open>The OSCORE option\<close>

record oscore_header =
  oh_piv :: "partial_iv option"
  oh_kid_context :: "bytes option"
  oh_kid :: "bytes option"

definition parse_piv :: "bytes \<Rightarrow> nat \<Rightarrow> nat \<Rightarrow> oscore_error + partial_iv option \<times> nat" where
  "parse_piv value n i =
     (if 0 < n then
        and_then (ok_or OE_Header (checked_add i n)) (\<lambda>e.
        and_then (ok_or OE_Header (get_range value i e)) (\<lambda>bs.
        and_then (piv_from_bytes bs) (\<lambda>p. Inr (Some p, e))))
      else Inr (None, i))"

definition parse_kid_context :: "bytes \<Rightarrow> bool \<Rightarrow> nat \<Rightarrow> oscore_error + bytes option \<times> nat" where
  "parse_kid_context value h i =
     (if h then
        and_then (ok_or OE_Header (get_at value i)) (\<lambda>b.
        let s = unat b; i = i + 1 in
        and_then (ok_or OE_Header (checked_add i s)) (\<lambda>e.
        and_then (ok_or OE_Header (get_range value i e)) (\<lambda>bs. Inr (Some bs, e))))
      else Inr (None, i))"

definition oscore_parse :: "bytes \<Rightarrow> oscore_error + oscore_header" where
  "oscore_parse value =
     (case value of
        [] \<Rightarrow> Inr \<lparr>oh_piv = None, oh_kid_context = None, oh_kid = None\<rparr>
      | flags # _ \<Rightarrow>
          if flags AND 0xe0 \<noteq> 0 then Inl OE_Header
          else
            let n = unat (flags AND 0x07) in
            if n = 6 \<or> n = 7 then Inl OE_Header
            else
              let k = (flags AND 0x08 \<noteq> 0); h = (flags AND 0x10 \<noteq> 0) in
              and_then (parse_piv value n 1) (\<lambda>(piv, i).
              and_then (parse_kid_context value h i) (\<lambda>(ctx, i).
              if k then
                and_then (ok_or OE_Header (get_range value i (length value))) (\<lambda>kid.
                Inr \<lparr>oh_piv = piv, oh_kid_context = ctx, oh_kid = Some kid\<rparr>)
              else if i \<noteq> length value then Inl OE_Header
              else Inr \<lparr>oh_piv = piv, oh_kid_context = ctx, oh_kid = None\<rparr>)))"

definition opt_len :: "'a list option \<Rightarrow> nat" where
  "opt_len x = (case x of None \<Rightarrow> 0 | Some xs \<Rightarrow> length xs)"

definition encode_oscore_option ::
  "bytes \<Rightarrow> partial_iv option \<Rightarrow> bytes option \<Rightarrow> bytes option \<Rightarrow> (oscore_error + nat) \<times> bytes" where
  "encode_oscore_option out piv kid_context kid =
     (if MAX_ID_CONTEXT_LEN < opt_len kid_context then (Inl OE_Id, out)
      else if MAX_ID_LEN < opt_len kid then (Inl OE_Id, out)
      else
        let n = opt_len (map_option piv_as_bytes piv) in
        if 5 < n then (Inl OE_PartialIv, out)
        else
          let k = (kid \<noteq> None); h = (kid_context \<noteq> None) in
          if n = 0 \<and> \<not> k \<and> \<not> h then (Inr 0, out)
          else
            let size = 1 + n + (if h then 1 else 0) * (1 + opt_len kid_context) + opt_len kid in
            if length out < size then (Inl OE_BufferTooSmall, out)
            else
              let flags = of_nat n;
                  flags = (if k then flags OR 0x08 else flags);
                  flags = (if h then flags OR 0x10 else flags);
                  out = blit out 0 [flags];
                  i = 1;
                  (out, i) = (case piv of None \<Rightarrow> (out, i)
                              | Some p \<Rightarrow> (blit out i (piv_as_bytes p), i + length (piv_as_bytes p)));
                  (out, i) = (case kid_context of None \<Rightarrow> (out, i)
                              | Some ctx \<Rightarrow> (blit (blit out i [of_nat (length ctx)]) (i + 1) ctx,
                                              i + 1 + length ctx));
                  (out, i) = (case kid of None \<Rightarrow> (out, i) | Some x \<Rightarrow> (blit out i x, i + length x))
              in (Inr i, out))"

section \<open>Option classes\<close>

datatype option_class = ClassInner | ClassOuter | ClassDual

definition in_plaintext :: "option_class \<Rightarrow> bool" where
  "in_plaintext c \<longleftrightarrow> c = ClassInner \<or> c = ClassDual"

definition classify :: "u16 \<Rightarrow> option_class" where
  "classify number =
     (if number \<in> {3, 7, 9, 16, 35, 39} then ClassOuter
      else if number \<in> {6, 14, 19, 23, 27, 28, 31, 60, 258} then ClassDual
      else ClassInner)"

definition encode_as_outer :: "u16 \<Rightarrow> bool" where
  "encode_as_outer number =
     (case classify number of ClassOuter \<Rightarrow> True | ClassDual \<Rightarrow> number = 6 | ClassInner \<Rightarrow> False)"

definition is_oscore_number :: "u16 \<Rightarrow> bool" where
  "is_oscore_number number \<longleftrightarrow> number = 9"

section \<open>Nonce\<close>

definition nonce :: "bytes \<Rightarrow> bytes \<Rightarrow> partial_iv \<Rightarrow> bytes" where
  "nonce common_iv id_piv piv =
     (let raw = replicate NONCE_LEN 0;
          raw = raw[0 := of_nat (length id_piv)];
          id_pad = NONCE_LEN - 6;
          raw = blit raw (1 + id_pad - length id_piv) id_piv;
          piv_bytes = piv_as_bytes piv;
          raw = blit raw (NONCE_LEN - length piv_bytes) piv_bytes
      in map2 (XOR) raw common_iv @ drop (length common_iv) raw)"

section \<open>Partial IVs are shortest big-endian numbers\<close>

definition piv_wf :: "partial_iv \<Rightarrow> bool" where
  "piv_wf p \<longleftrightarrow>
     length (pv_bytes p) = MAX_PIV_LEN \<and> 1 \<le> unat (pv_len p) \<and> unat (pv_len p) \<le> MAX_PIV_LEN \<and>
     drop (unat (pv_len p)) (pv_bytes p) = replicate (MAX_PIV_LEN - unat (pv_len p)) 0"

lemmas piv_consts = MAX_PIV_LEN_def NONCE_LEN_def MAX_ID_LEN_def MAX_ID_CONTEXT_LEN_def

lemma length_piv_as_bytes: "piv_wf p \<Longrightarrow> length (piv_as_bytes p) = unat (pv_len p)"
  by (simp add: piv_wf_def piv_as_bytes_def piv_consts)

lemma piv_from_bytes_wf:
  assumes "piv_from_bytes bs = Inr p"
  shows "piv_wf p \<and> piv_as_bytes p = bs"
proof -
  from assms have l: "bs \<noteq> []" "length bs \<le> 5"
    and p: "p = \<lparr>pv_bytes = bs @ replicate (5 - length bs) 0, pv_len = of_nat (length bs)\<rparr>"
    by (auto simp: piv_from_bytes_def piv_consts split: if_splits)
  have "unat (of_nat (length bs) :: u8) = length bs" using l by (simp add: unat_of_nat_u8)
  with l p show ?thesis by (auto simp: piv_wf_def piv_as_bytes_def piv_consts Suc_le_eq)
qed

lemma piv_from_bytes_as_bytes: "piv_wf p \<Longrightarrow> piv_from_bytes (piv_as_bytes p) = Inr p"
proof -
  assume wf: "piv_wf p"
  let ?n = "unat (pv_len p)"
  have n: "1 \<le> ?n" "?n \<le> 5" "length (pv_bytes p) = 5" "drop ?n (pv_bytes p) = replicate (5 - ?n) 0"
    using wf by (auto simp: piv_wf_def piv_consts)
  have "take ?n (pv_bytes p) @ replicate (5 - ?n) 0 = pv_bytes p"
    using append_take_drop_id [of ?n "pv_bytes p"] n by simp
  with n show ?thesis
    by (auto simp: piv_from_bytes_def piv_as_bytes_def piv_consts)
qed

lemma piv_seq_be: "piv_wf p \<Longrightarrow> unat (piv_seq p) = be_val (piv_as_bytes p)"
proof -
  assume wf: "piv_wf p"
  let ?b = "piv_as_bytes p"
  have l: "length ?b \<le> 5" "length ?b = unat (pv_len p)"
    using wf by (auto simp: length_piv_as_bytes piv_wf_def piv_consts)
  have "blit (replicate 8 0) (8 - length ?b) ?b = replicate (8 - length ?b) 0 @ ?b"
    using l by (simp add: blit_def)
  then have "piv_seq p = of_nat (be_val ?b)"
    using l by (simp add: piv_seq_def Let_def word_from_be_val piv_as_bytes_def be_val_append)
  moreover have "be_val ?b < 2 ^ 64"
  proof -
    have "be_val ?b < 256 ^ length ?b" by (rule be_val_bound)
    also have "\<dots> \<le> 256 ^ 5" using l(1) by (intro power_increasing) auto
    finally show ?thesis by simp
  qed
  ultimately show ?thesis by (simp add: unat_of_nat take_bit_nat_eq_self_iff)
qed

lemma leading_zeros:
  fixes bs :: bytes
  defines "z \<equiv> length (takeWhile (\<lambda>b. b = 0) bs)"
  shows "z \<le> length bs" "bs = replicate z 0 @ drop z bs" "be_val (drop z bs) = be_val bs"
    "z < length bs \<Longrightarrow> bs ! z \<noteq> 0 \<and> 256 ^ (length bs - z - 1) \<le> be_val bs"
proof -
  show "z \<le> length bs" by (simp add: z_def length_takeWhile_le)
  have "takeWhile (\<lambda>b. b = 0) bs = replicate z 0"
    unfolding z_def by (rule replicate_eqI) (auto dest: set_takeWhileD)
  moreover have "drop z bs = dropWhile (\<lambda>b. b = 0) bs" by (simp add: z_def dropWhile_eq_drop)
  ultimately show split: "bs = replicate z 0 @ drop z bs"
    using takeWhile_dropWhile_id [of "\<lambda>b. b = 0" bs] by simp
  have "be_val bs = be_val (replicate z 0 @ drop z bs)" using split by simp
  then show v: "be_val (drop z bs) = be_val bs" by (simp add: be_val_append)
  assume z: "z < length bs"
  have "bs ! z \<noteq> 0" using z nth_length_takeWhile [of "\<lambda>b. b = 0" bs] by (simp add: z_def)
  moreover from this have "1 \<le> unat (bs ! z)" by (simp add: Suc_le_eq unat_gt_0)
  moreover have e: "be_val (drop z bs) = unat (bs ! z) * 256 ^ (length bs - Suc z) + be_val (drop (Suc z) bs)"
    using z by (simp add: Cons_nth_drop_Suc [symmetric] be_val_Cons)
  moreover have "1 * 256 ^ (length bs - Suc z) \<le> unat (bs ! z) * 256 ^ (length bs - Suc z)"
    using \<open>1 \<le> unat (bs ! z)\<close> by (rule mult_right_mono) simp
  ultimately have "256 ^ (length bs - Suc z) \<le> be_val (drop z bs)" by linarith
  with v \<open>bs ! z \<noteq> 0\<close> show "bs ! z \<noteq> 0 \<and> 256 ^ (length bs - z - 1) \<le> be_val bs" by simp
qed

lemma piv_from_seq_Ok:
  assumes "unat seq < 2 ^ 40"
  shows "\<exists>p. piv_from_seq seq = Inr p \<and> piv_wf p \<and> piv_seq p = seq \<and>
             (piv_as_bytes p = [0] \<or> hd (piv_as_bytes p) \<noteq> 0)"
proof -
  let ?be = "u64_to_be seq"
  define z where "z = length (takeWhile (\<lambda>b. b = 0) ?be)"
  note lz = leading_zeros [of ?be, folded z_def]
  show ?thesis
  proof (cases "z = 8")
    case True
    then have "be_val ?be = 0" using lz(2) by (metis be_val_zeros append_Nil2 drop_all length_to_be(3) order_refl)
    then have "seq = 0" by (simp add: unat_eq_0)
    moreover have "piv_wf \<lparr>pv_bytes = [0, 0, 0, 0, 0], pv_len = 1\<rparr>" by code_simp
    moreover have "piv_as_bytes \<lparr>pv_bytes = [0, 0, 0, 0, 0], pv_len = 1\<rparr> = [0]" by (simp add: piv_as_bytes_def)
    moreover have "piv_seq \<lparr>pv_bytes = [0, 0, 0, 0, 0], pv_len = 1\<rparr> = 0" by code_simp
    moreover have "piv_from_seq seq = Inr \<lparr>pv_bytes = [0, 0, 0, 0, 0], pv_len = 1\<rparr>"
      using True by (simp add: piv_from_seq_def z_def [symmetric] Let_def)
    ultimately show ?thesis by auto
  next
    case False
    then have z: "z < 8" using lz(1) by simp
    have h: "?be ! z \<noteq> 0" "256 ^ (8 - z - 1) \<le> unat seq" using lz(4) z by simp_all
    have "8 - z \<le> 5"
    proof (rule ccontr)
      assume "\<not> 8 - z \<le> 5"
      then have "(256 :: nat) ^ 5 \<le> 256 ^ (8 - z - 1)" by (intro power_increasing) auto
      with h(2) assms show False by simp
    qed
    moreover have len: "length (drop z ?be) = 8 - z" by simp
    ultimately have "piv_from_seq seq = piv_from_bytes (drop z ?be)"
      using z by (auto simp: piv_from_seq_def piv_from_bytes_def z_def [symmetric] Let_def piv_consts)
    moreover obtain p where p: "piv_from_bytes (drop z ?be) = Inr p"
      using z \<open>8 - z \<le> 5\<close> by (auto simp: piv_from_bytes_def piv_consts)
    moreover note w = piv_from_bytes_wf [OF p]
    moreover have "piv_seq p = seq"
      using piv_seq_be [of p] w lz(3) by (simp add: word_unat_eq_iff)
    moreover have "hd (drop z ?be) \<noteq> 0" using h(1) z by (simp add: hd_drop_conv_nth)
    ultimately show ?thesis by auto
  qed
qed

lemma piv_from_seq_Err:
  assumes "2 ^ 40 \<le> unat seq"
  shows "piv_from_seq seq = Inl OE_PartialIv"
proof -
  let ?be = "u64_to_be seq"
  define z where "z = length (takeWhile (\<lambda>b. b = 0) ?be)"
  note lz = leading_zeros [of ?be, folded z_def]
  have "unat seq < 256 ^ (8 - z)" using be_val_bound [of "drop z ?be"] lz(3) by simp
  with assms have "(256 :: nat) ^ 5 < 256 ^ (8 - z)" by simp
  then have "5 < 8 - z" by (rule power_less_imp_less_exp [rotated]) simp
  then show ?thesis by (simp add: piv_from_seq_def z_def [symmetric] Let_def piv_consts)
qed

text \<open>
  Partial IVs. A sequence number below 2^40 has a partial IV of one to five bytes whose value is
  that number and that has no superfluous leading zero; larger numbers are refused. Parsing the bytes
  of a partial IV gives it back.
\<close>

theorem partial_iv_codec:
  "if unat seq < 2 ^ 40
   then \<exists>p. piv_from_seq seq = Inr p \<and> piv_seq p = seq \<and> length (piv_as_bytes p) \<in> {1..5} \<and>
            (hd (piv_as_bytes p) = 0 \<longleftrightarrow> piv_as_bytes p = [0]) \<and> piv_from_bytes (piv_as_bytes p) = Inr p
   else piv_from_seq seq = Inl OE_PartialIv"
proof (cases "unat seq < 2 ^ 40")
  case True
  from piv_from_seq_Ok [OF True] obtain p where "piv_from_seq seq = Inr p" "piv_wf p" "piv_seq p = seq"
    "piv_as_bytes p = [0] \<or> hd (piv_as_bytes p) \<noteq> 0" by blast
  moreover from this have "length (piv_as_bytes p) \<in> {1..5}"
    by (auto simp: length_piv_as_bytes piv_wf_def piv_consts)
  ultimately show ?thesis using True piv_from_bytes_as_bytes by auto
qed (simp add: piv_from_seq_Err)

section \<open>The option encoder and parser\<close>

definition oscore_flags :: "nat \<Rightarrow> bool \<Rightarrow> bool \<Rightarrow> u8" where
  "oscore_flags n k h = of_nat n OR (if k then 0x08 else 0) OR (if h then 0x10 else 0)"

definition context_field :: "bytes option \<Rightarrow> bytes" where
  "context_field c = (case c of None \<Rightarrow> [] | Some ctx \<Rightarrow> of_nat (length ctx) # ctx)"

definition opt_bytes :: "bytes option \<Rightarrow> bytes" where
  "opt_bytes x = (case x of None \<Rightarrow> [] | Some xs \<Rightarrow> xs)"

text \<open>The option value as RFC 8613 section 6.1 draws it.\<close>

definition oscore_wire :: "partial_iv option \<Rightarrow> bytes option \<Rightarrow> bytes option \<Rightarrow> bytes" where
  "oscore_wire piv ctx kid =
     (if piv = None \<and> ctx = None \<and> kid = None then []
      else oscore_flags (opt_len (map_option piv_as_bytes piv)) (kid \<noteq> None) (ctx \<noteq> None) #
           opt_bytes (map_option piv_as_bytes piv) @ context_field ctx @ opt_bytes kid)"

definition header_ok :: "partial_iv option \<Rightarrow> bytes option \<Rightarrow> bytes option \<Rightarrow> bool" where
  "header_ok piv ctx kid \<longleftrightarrow>
     (case piv of None \<Rightarrow> True | Some p \<Rightarrow> piv_wf p) \<and> opt_len ctx \<le> MAX_ID_CONTEXT_LEN \<and>
     opt_len kid \<le> MAX_ID_LEN"

lemma oscore_flags_bits:
  assumes "n \<le> 5"
  shows "oscore_flags n k h AND 0xe0 = 0" "unat (oscore_flags n k h AND 0x07) = n"
    "oscore_flags n k h AND 0x08 \<noteq> 0 \<longleftrightarrow> k" "oscore_flags n k h AND 0x10 \<noteq> 0 \<longleftrightarrow> h"
proof -
  have "n \<in> {0, 1, 2, 3, 4, 5}" using assms by auto
  then show "oscore_flags n k h AND 0xe0 = 0" "unat (oscore_flags n k h AND 0x07) = n"
    "oscore_flags n k h AND 0x08 \<noteq> 0 \<longleftrightarrow> k" "oscore_flags n k h AND 0x10 \<noteq> 0 \<longleftrightarrow> h"
    by (elim insertE emptyE; cases k; cases h; simp add: oscore_flags_def; fail)+
qed

lemma opt_piv_len:
  assumes "header_ok piv ctx kid"
  shows "opt_len (map_option piv_as_bytes piv) \<le> 5"
    "opt_len (map_option piv_as_bytes piv) = 0 \<longleftrightarrow> piv = None"
proof -
  have "1 \<le> length (piv_as_bytes p) \<and> length (piv_as_bytes p) \<le> 5" if "piv = Some p" for p
    using that assms by (simp add: header_ok_def length_piv_as_bytes) (simp add: piv_wf_def piv_consts)
  then show "opt_len (map_option piv_as_bytes piv) \<le> 5"
    "opt_len (map_option piv_as_bytes piv) = 0 \<longleftrightarrow> piv = None"
    by (cases piv; simp add: opt_len_def; force)+
qed

lemma parse_piv_wire:
  assumes "header_ok piv ctx kid"
  shows "parse_piv (f # opt_bytes (map_option piv_as_bytes piv) @ rest)
           (opt_len (map_option piv_as_bytes piv)) 1 =
         Inr (piv, 1 + opt_len (map_option piv_as_bytes piv))"
proof (cases piv)
  case (Some p)
  with assms have wf: "piv_wf p" by (simp add: header_ok_def)
  then have "1 \<le> length (piv_as_bytes p)" "length (piv_as_bytes p) \<le> 5"
    by (auto simp: length_piv_as_bytes piv_wf_def piv_consts)
  moreover from this have "get_range (f # piv_as_bytes p @ rest) 1 (Suc (length (piv_as_bytes p))) = Some (piv_as_bytes p)"
    by (simp add: get_range_def)
  moreover have "checked_add 1 (length (piv_as_bytes p)) = Some (Suc (length (piv_as_bytes p)))"
    using calculation by (simp add: usize_max_def)
  ultimately show ?thesis
    using Some wf
    by (simp add: parse_piv_def opt_len_def opt_bytes_def piv_from_bytes_as_bytes ok_or_def
        del: checked_add_Some_iff) auto
qed (simp add: parse_piv_def opt_len_def opt_bytes_def)

lemma parse_context_wire:
  assumes "opt_len ctx \<le> 16" "length pre \<le> 6"
  shows "parse_kid_context (pre @ context_field ctx @ rest) (ctx \<noteq> None) (length pre) =
         Inr (ctx, length pre + length (context_field ctx))"
proof (cases ctx)
  case (Some c)
  with assms have c: "length c \<le> 16" "unat (of_nat (length c) :: u8) = length c"
    by (auto simp: opt_len_def unat_of_nat_u8)
  have "get_range (pre @ (of_nat (length c) # c) @ rest) (Suc (length pre)) (Suc (length pre) + length c) = Some c"
    by (simp add: get_range_def)
  moreover have "checked_add (Suc (length pre)) (length c) = Some (Suc (length pre) + length c)"
    using c assms(2) by (simp add: usize_max_def)
  ultimately show ?thesis
    using Some c
    by (simp add: parse_kid_context_def context_field_def get_at_def ok_or_def Let_def
        del: checked_add_Some_iff)
qed (simp add: parse_kid_context_def context_field_def)

lemma oscore_parse_step:
  assumes "value = f # rest" "f AND 0xe0 = 0" "unat (f AND 0x07) = n" "n \<le> 5"
    and "f AND 0x08 \<noteq> 0 \<longleftrightarrow> k" "f AND 0x10 \<noteq> 0 \<longleftrightarrow> h"
    and "parse_piv value n 1 = Inr (piv, i)" "parse_kid_context value h i = Inr (ctx, j)"
    and "get_range value j (length value) = Some kid" "j = length value \<longleftrightarrow> kid = []"
  shows "oscore_parse value =
    (if k then Inr \<lparr>oh_piv = piv, oh_kid_context = ctx, oh_kid = Some kid\<rparr>
     else if kid = [] then Inr \<lparr>oh_piv = piv, oh_kid_context = ctx, oh_kid = None\<rparr>
     else Inl OE_Header)"
  using assms by (auto simp: oscore_parse_def Let_def)

lemma oscore_parse_wire:
  assumes "header_ok piv ctx kid"
  shows "oscore_parse (oscore_wire piv ctx kid) = Inr \<lparr>oh_piv = piv, oh_kid_context = ctx, oh_kid = kid\<rparr>"
proof (cases "piv = None \<and> ctx = None \<and> kid = None")
  case True
  then show ?thesis by (simp add: oscore_wire_def oscore_parse_def)
next
  case False
  let ?n = "opt_len (map_option piv_as_bytes piv)" and ?p = "opt_bytes (map_option piv_as_bytes piv)"
  let ?f = "oscore_flags ?n (kid \<noteq> None) (ctx \<noteq> None)"
  let ?v = "?f # ?p @ context_field ctx @ opt_bytes kid"
  have n: "?n \<le> 5" using opt_piv_len(1) [OF assms] .
  have lp: "length ?p = ?n" by (simp add: opt_bytes_def opt_len_def split: option.splits)
  have v: "oscore_wire piv ctx kid = ?v" using False by (simp add: oscore_wire_def)
  have ctx: "parse_kid_context ?v (ctx \<noteq> None) (1 + ?n) = Inr (ctx, 1 + ?n + length (context_field ctx))"
    using parse_context_wire [of ctx "?f # ?p" "opt_bytes kid"] assms n lp
    by (simp add: header_ok_def piv_consts)
  have kid: "get_range ?v (1 + ?n + length (context_field ctx)) (length ?v) = Some (opt_bytes kid)"
    using lp by (simp add: get_range_def)
  have ik: "1 + ?n + length (context_field ctx) = length ?v \<longleftrightarrow> opt_bytes kid = []" using lp by simp
  note b = oscore_flags_bits [OF n, of "kid \<noteq> None" "ctx \<noteq> None"]
  show ?thesis
    unfolding v oscore_parse_step [OF refl b(1,2) n b(3,4) parse_piv_wire [OF assms] ctx kid ik]
    by (auto simp: opt_bytes_def)
qed

lemma oscore_flags_steps:
  "(let flags = of_nat n; flags = (if k then flags OR 0x08 else flags) in
      if h then flags OR 0x10 else flags) = oscore_flags n k h"
  by (simp add: oscore_flags_def Let_def or.assoc)

lemma blit_step: "length xs + length ys \<le> length buf \<Longrightarrow> blit (blit buf 0 xs) (length xs) ys = blit buf 0 (xs @ ys)"
  using blit_blit [of 0 xs ys buf] by simp

lemma length_oscore_wire:
  "length (oscore_wire piv ctx kid) =
     (if piv = None \<and> ctx = None \<and> kid = None then 0
      else 1 + opt_len (map_option piv_as_bytes piv) +
           (if ctx \<noteq> None then 1 else 0) * (1 + opt_len ctx) + opt_len kid)"
  by (auto simp: oscore_wire_def opt_bytes_def opt_len_def context_field_def split: option.splits)

lemma encode_oscore_option_wire:
  assumes "header_ok piv ctx kid"
  shows "encode_oscore_option out piv ctx kid =
    (if length (oscore_wire piv ctx kid) \<le> length out
     then (Inr (length (oscore_wire piv ctx kid)), blit out 0 (oscore_wire piv ctx kid))
     else (Inl OE_BufferTooSmall, out))"
proof -
  let ?n = "opt_len (map_option piv_as_bytes piv)"
  let ?f = "oscore_flags ?n (kid \<noteq> None) (ctx \<noteq> None)"
  let ?p = "opt_bytes (map_option piv_as_bytes piv)" and ?c = "context_field ctx" and ?k = "opt_bytes kid"
  have n: "?n \<le> 5" "?n = 0 \<longleftrightarrow> piv = None" using opt_piv_len [OF assms] by auto
  have ok: "\<not> MAX_ID_CONTEXT_LEN < opt_len ctx" "\<not> MAX_ID_LEN < opt_len kid"
    using assms by (auto simp: header_ok_def)
  have lp: "length ?p = ?n" by (simp add: opt_bytes_def opt_len_def split: option.splits)
  show ?thesis
  proof (cases "piv = None \<and> ctx = None \<and> kid = None \<or> length out < length (oscore_wire piv ctx kid)")
    case True
    then show ?thesis
      using ok n unfolding encode_oscore_option_def length_oscore_wire
      by (auto simp: Let_def oscore_wire_def)
  next
    case False
    then have w: "oscore_wire piv ctx kid = [?f] @ ?p @ ?c @ ?k" and l: "length ([?f] @ ?p @ ?c @ ?k) \<le> length out"
      by (auto simp: oscore_wire_def)
    have s1: "(case piv of None \<Rightarrow> (blit out 0 [?f], 1)
        | Some p \<Rightarrow> (blit (blit out 0 [?f]) 1 (piv_as_bytes p), 1 + length (piv_as_bytes p))) =
        (blit out 0 ([?f] @ ?p), 1 + ?n)"
      using l blit_step [of "[?f]" ?p out] by (auto simp: opt_bytes_def opt_len_def split: option.splits)
    have s2: "(case ctx of None \<Rightarrow> (blit out 0 ([?f] @ ?p), 1 + ?n)
        | Some c \<Rightarrow> (blit (blit (blit out 0 ([?f] @ ?p)) (1 + ?n) [of_nat (length c)]) (1 + ?n + 1) c,
                     1 + ?n + 1 + length c)) =
        (blit out 0 ([?f] @ ?p @ ?c), 1 + ?n + length ?c)"
    proof (cases ctx)
      case (Some c)
      with l lp show ?thesis
        using blit_step [of "[?f] @ ?p" "[of_nat (length c)]" out]
          blit_step [of "[?f] @ ?p @ [of_nat (length c)]" c out]
        by (simp add: context_field_def)
    qed (simp add: context_field_def)
    have s3: "(case kid of None \<Rightarrow> (blit out 0 ([?f] @ ?p @ ?c), 1 + ?n + length ?c)
        | Some x \<Rightarrow> (blit (blit out 0 ([?f] @ ?p @ ?c)) (1 + ?n + length ?c) x, 1 + ?n + length ?c + length x)) =
        (blit out 0 ([?f] @ ?p @ ?c @ ?k), 1 + ?n + length ?c + length ?k)"
      using l lp blit_step [of "[?f] @ ?p @ ?c" ?k out]
      by (auto simp: opt_bytes_def add.assoc simp del: blit_0 split: option.splits)
    have notnone: "\<not> (?n = 0 \<and> \<not> kid \<noteq> None \<and> \<not> ctx \<noteq> None)" using False n by auto
    have room: "\<not> length out < 1 + ?n + (if ctx \<noteq> None then 1 else 0) * (1 + opt_len ctx) + opt_len kid"
      using False length_oscore_wire [of piv ctx kid] by auto
    have f: "\<not> 5 < ?n" using n by simp
    show ?thesis
      using False ok(1,2) f notnone room w lp
      unfolding encode_oscore_option_def Let_def
      by (simp only: if_False Let_def oscore_flags_steps [unfolded Let_def] s1 s2 s3 prod.case simp_thms if_True
          split: if_splits) (auto simp del: blit_0)
  qed
qed

text \<open>
  C29: the OSCORE option. For fields within their limits, the encoder either writes a value that the
  parser reads back as the same partial IV, ID context and key identifier, leaving the rest of the
  buffer alone, or refuses because the buffer is shorter than that value and writes nothing.
\<close>

theorem oscore_option_roundtrip:
  assumes "header_ok piv ctx kid"
  shows "case encode_oscore_option out piv ctx kid of
      (Inr n, out') \<Rightarrow>
        n \<le> length out \<and> length out' = length out \<and> drop n out' = drop n out \<and>
        oscore_parse (take n out') = Inr \<lparr>oh_piv = piv, oh_kid_context = ctx, oh_kid = kid\<rparr>
    | (Inl e, out') \<Rightarrow>
        e = OE_BufferTooSmall \<and> out' = out \<and> length out < length (oscore_wire piv ctx kid)"
  by (simp add: encode_oscore_option_wire [OF assms] oscore_parse_wire [OF assms])

theorem oscore_option_roundtrip_witness:
  "\<exists>n out'. encode_oscore_option (replicate 12 0xff) (Some \<lparr>pv_bytes = [1, 2, 0, 0, 0], pv_len = 2\<rparr>) (Some [9]) (Some [7, 8]) =
       (Inr n, out') \<and>
     oscore_parse (take n out') =
       Inr \<lparr>oh_piv = Some \<lparr>pv_bytes = [1, 2, 0, 0, 0], pv_len = 2\<rparr>, oh_kid_context = Some [9], oh_kid = Some [7, 8]\<rparr>"
proof -
  let ?p = "Some \<lparr>pv_bytes = [1, 2, 0, 0, 0], pv_len = 2\<rparr>"
  have "header_ok ?p (Some [9]) (Some [7, 8])" by code_simp
  moreover have "length (oscore_wire ?p (Some [9]) (Some [7, 8])) = 7" by code_simp
  ultimately show ?thesis
    using oscore_option_roundtrip [of ?p "Some [9]" "Some [7, 8]" "replicate 12 0xff"]
    by (cases "encode_oscore_option (replicate 12 0xff) ?p (Some [9]) (Some [7, 8])")
      (auto split: sum.splits)
qed

section \<open>Nonces\<close>

lemma map2_xor_inj:
  "length xs = length iv \<Longrightarrow> length ys = length iv \<Longrightarrow> map2 (XOR) xs iv = map2 (XOR) ys (iv :: bytes) \<longleftrightarrow> xs = ys"
proof (induction iv arbitrary: xs ys)
  case (Cons v iv)
  then obtain x xs' y ys' where xy: "xs = x # xs'" "ys = y # ys'" by (metis length_Suc_conv)
  have "x = y" if "x XOR v = y XOR v"
  proof -
    have "(x XOR v) XOR v = (y XOR v) XOR v" using that by simp
    then show ?thesis by (simp add: xor.assoc)
  qed
  then have "x XOR v = y XOR v \<longleftrightarrow> x = y" by auto
  with Cons xy show ?case by simp
qed simp

lemma nonce_raw:
  assumes "length a \<le> 7" "piv_wf p" "length civ = 13"
  shows "nonce civ a p =
    map2 (XOR) (of_nat (length a) # replicate (7 - length a) 0 @ a @
                replicate (5 - length (piv_as_bytes p)) 0 @ piv_as_bytes p) civ"
proof -
  let ?b = "piv_as_bytes p"
  have l: "1 \<le> length ?b" "length ?b \<le> 5"
    using assms(2) by (auto simp: length_piv_as_bytes piv_wf_def piv_consts)
  have r: "(replicate NONCE_LEN (0 :: u8))[0 := of_nat (length a)] = of_nat (length a) # replicate 12 0"
    by (simp add: NONCE_LEN_def eval_nat_numeral)
  have t12: "take m (replicate 12 (0 :: u8)) = replicate m 0" "drop m (replicate 12 (0 :: u8)) = replicate (12 - m) 0"
    if "m \<le> 12" for m using that by simp_all
  have b1: "blit (of_nat (length a) # replicate 12 0) (1 + (NONCE_LEN - 6) - length a) a =
      of_nat (length a) # replicate (7 - length a) 0 @ a @ replicate 5 0"
  proof -
    have "1 + (NONCE_LEN - 6) - length a = Suc (7 - length a)" using assms(1) by (simp add: NONCE_LEN_def)
    moreover have "Suc (7 - length a) + length a = 8" using assms(1) by simp
    ultimately show ?thesis using assms(1) by (simp add: blit_def)
  qed
  have "take (13 - length ?b) (of_nat (length a) # replicate (7 - length a) (0 :: u8) @ a @ replicate 5 0) =
      of_nat (length a) # replicate (7 - length a) 0 @ a @ replicate (5 - length ?b) 0"
  proof -
    have "13 - length ?b = Suc (length (replicate (7 - length a) (0 :: u8) @ a) + (5 - length ?b))"
      using l assms(1) by simp
    then show ?thesis
      using l by (simp only: take_Suc_Cons append_assoc [symmetric] take_append) simp
  qed
  with assms(1,3) l show ?thesis
    unfolding nonce_def Let_def r b1
    by (simp add: blit_def NONCE_LEN_def)
qed

lemma nonce_eq_iff:
  assumes "length a \<le> 7" "length b \<le> 7" "piv_wf p" "piv_wf q" "length civ = 13"
  shows "nonce civ a p = nonce civ b q \<longleftrightarrow> a = b \<and> piv_seq p = piv_seq q"
proof -
  let ?p = "replicate (5 - length (piv_as_bytes p)) 0 @ piv_as_bytes p"
  let ?q = "replicate (5 - length (piv_as_bytes q)) 0 @ piv_as_bytes q"
  have l: "length ?p = 5" "length ?q = 5"
    using assms(3,4) by (auto simp: length_piv_as_bytes piv_wf_def piv_consts)
  have seq: "piv_seq p = piv_seq q \<longleftrightarrow> ?p = ?q"
  proof -
    have "piv_seq p = piv_seq q \<longleftrightarrow> be_val ?p = be_val ?q"
      using piv_seq_be [OF assms(3)] piv_seq_be [OF assms(4)] by (simp add: word_unat_eq_iff be_val_append)
    also have "\<dots> \<longleftrightarrow> ?p = ?q" using be_val_inj [of ?p ?q] l by (metis (no_types))
    finally show ?thesis .
  qed
  have len: "(of_nat (length a) :: u8) = of_nat (length b) \<longleftrightarrow> length a = length b"
  proof
    assume "(of_nat (length a) :: u8) = of_nat (length b)"
    then have "unat (of_nat (length a) :: u8) = unat (of_nat (length b) :: u8)" by simp
    then show "length a = length b" using assms(1,2) by (simp add: unat_of_nat_u8 del: unsigned_of_nat)
  qed simp
  have "nonce civ a p = nonce civ b q \<longleftrightarrow>
      (of_nat (length a) :: u8) # replicate (7 - length a) 0 @ a @ ?p =
      of_nat (length b) # replicate (7 - length b) 0 @ b @ ?q"
    unfolding nonce_raw [OF assms(1,3,5)] nonce_raw [OF assms(2,4,5)]
    using l assms by (intro map2_xor_inj) auto
  also have "\<dots> \<longleftrightarrow> a = b \<and> ?p = ?q" unfolding list.inject len by auto
  finally show ?thesis using seq by simp
qed

text \<open>
  Nonces do not collide. Two nonces built with the same common IV are equal exactly when the
  identifiers and the sequence numbers they carry are equal.
\<close>

theorem nonce_injective:
  assumes "length a \<le> MAX_ID_LEN" "length b \<le> MAX_ID_LEN" "length civ = NONCE_LEN"
    and "piv_from_seq m = Inr p" "piv_from_seq n = Inr q"
  shows "nonce civ a p = nonce civ b q \<longleftrightarrow> a = b \<and> m = n"
proof -
  have ok: "piv_wf r \<and> piv_seq r = k" if "piv_from_seq k = Inr r" for k r
    using that piv_from_seq_Ok [of k] piv_from_seq_Err [of k] by (cases "unat k < 2 ^ 40") auto
  with assms nonce_eq_iff [of a b p q civ] ok [OF assms(4)] ok [OF assms(5)] show ?thesis
    by (simp add: piv_consts)
qed

theorem nonce_injective_witness:
  "nonce (replicate 13 5) [1] \<lparr>pv_bytes = [1, 0, 0, 0, 0], pv_len = 2\<rparr> \<noteq>
   nonce (replicate 13 5) [1, 0] \<lparr>pv_bytes = [1, 0, 0, 0, 0], pv_len = 2\<rparr>"
proof -
  have "piv_from_seq 256 = Inr \<lparr>pv_bytes = [1, 0, 0, 0, 0], pv_len = 2\<rparr>" by code_simp
  from nonce_injective [of "[1]" "[1, 0]" "replicate 13 5", OF _ _ _ this this] show ?thesis
    by (simp add: piv_consts)
qed

end
