(* ===== verification/Osc_Cbor.thy ===== *)
theory Osc_Cbor
  imports Osc_Header
begin

text \<open>
  The CBOR that OSCORE feeds to key derivation and to the AEAD (\<open>src/oscore/cbor.rs\<close>), and key
  derivation (\<open>hkdf_expand\<close> of \<open>src/oscore/aead.rs\<close>). HKDF-SHA-256 itself is an argument.

  A writer takes the output slice and the position and returns the new position or the error,
  together with the slice. The associated data is shown to be the RFC 8613 structure and to
  determine the key identifier, the partial IV and the class I options.
\<close>

definition AEAD_AES_CCM_16_64_128 :: u8 where "AEAD_AES_CCM_16_64_128 = 10"
definition OSCORE_VERSION :: u8 where "OSCORE_VERSION = 1"

definition ENC0_PREFIX :: bytes where
  "ENC0_PREFIX = [0x83, 0x68, 0x45, 0x6e, 0x63, 0x72, 0x79, 0x70, 0x74, 0x30, 0x40]"

type_synonym written = "(oscore_error + nat) \<times> bytes"

text \<open>The question mark operator after a write.\<close>

definition wr_then :: "written \<Rightarrow> (bytes \<Rightarrow> nat \<Rightarrow> written) \<Rightarrow> written" where
  "wr_then w f = (case w of (Inl e, out) \<Rightarrow> (Inl e, out) | (Inr i, out) \<Rightarrow> f out i)"

definition cbor_push :: "u8 \<Rightarrow> bytes \<Rightarrow> nat \<Rightarrow> written" where
  "cbor_push b out i =
     (if length out \<le> i then (Inl OE_BufferTooSmall, out) else (Inr (i + 1), blit out i [b]))"

definition push_slice :: "bytes \<Rightarrow> bytes \<Rightarrow> nat \<Rightarrow> written" where
  "push_slice bs out i =
     (case checked_add i (length bs) of
        None \<Rightarrow> (Inl OE_BufferTooSmall, out)
      | Some e \<Rightarrow> if length out < e then (Inl OE_BufferTooSmall, out) else (Inr e, blit out i bs))"

definition put_len :: "u8 \<Rightarrow> nat \<Rightarrow> bytes \<Rightarrow> nat \<Rightarrow> written" where
  "put_len major len out i =
     (if len \<le> 23 then cbor_push (major OR of_nat len) out i
      else if len \<le> 255 then wr_then (cbor_push (major OR 24) out i) (cbor_push (of_nat len))
      else (Inl OE_Id, out))"

definition cbor_put_uint :: "u8 \<Rightarrow> bytes \<Rightarrow> nat \<Rightarrow> written" where
  "cbor_put_uint n out i =
     (if n \<le> 23 then cbor_push n out i else wr_then (cbor_push 0x18 out i) (cbor_push n))"

definition put_bstr :: "bytes \<Rightarrow> bytes \<Rightarrow> nat \<Rightarrow> written" where
  "put_bstr value out i = wr_then (put_len 0x40 (length value) out i) (push_slice value)"

definition put_tstr :: "bytes \<Rightarrow> bytes \<Rightarrow> nat \<Rightarrow> written" where
  "put_tstr value out i = wr_then (put_len 0x60 (length value) out i) (push_slice value)"

definition encode_info :: "bytes \<Rightarrow> bytes \<Rightarrow> bytes option \<Rightarrow> bytes \<Rightarrow> u8 \<Rightarrow> written" where
  "encode_info out id0 id_context label l =
     wr_then (cbor_push 0x85 out 0) (\<lambda>out i.
     wr_then (put_bstr id0 out i) (\<lambda>out i.
     wr_then (case id_context of None \<Rightarrow> cbor_push 0xf6 out i | Some ctx \<Rightarrow> put_bstr ctx out i) (\<lambda>out i.
     wr_then (cbor_put_uint AEAD_AES_CCM_16_64_128 out i) (\<lambda>out i.
     wr_then (put_tstr label out i) (\<lambda>out i.
     wr_then (cbor_put_uint l out i) (\<lambda>out i. (Inr i, out)))))))"

definition aad_bstr_end :: "nat \<Rightarrow> nat \<Rightarrow> oscore_error + nat" where
  "aad_bstr_end i len =
     and_then (if len \<le> 23 then Inr 1 else if len \<le> 255 then Inr 2 else Inl OE_Id) (\<lambda>header_len.
     and_then (ok_or OE_BufferTooSmall
                 (Option.bind (checked_add i header_len) (\<lambda>n. checked_add n len))) (\<lambda>e.
     if 48 < e then Inl OE_BufferTooSmall else Inr e))"

definition encode_aad :: "bytes \<Rightarrow> bytes \<Rightarrow> bytes \<Rightarrow> bytes \<Rightarrow> written" where
  "encode_aad out request_kid request_piv class_i =
     (case and_then (aad_bstr_end (4 + (if OSCORE_VERSION > 23 then 1 else 0) +
                                      (if AEAD_AES_CCM_16_64_128 > 23 then 1 else 0)) (length request_kid)) (\<lambda>n.
           and_then (aad_bstr_end n (length request_piv)) (\<lambda>n. aad_bstr_end n (length class_i))) of
        Inl e \<Rightarrow> (Inl e, out)
      | Inr array_len \<Rightarrow>
          if length out < length ENC0_PREFIX then (Inl OE_BufferTooSmall, out)
          else
            wr_then (put_len 0x40 array_len (blit out 0 ENC0_PREFIX) (length ENC0_PREFIX)) (\<lambda>out n.
            case checked_add n array_len of
              None \<Rightarrow> (Inl OE_BufferTooSmall, out)
            | Some e \<Rightarrow>
                if length out < e then (Inl OE_BufferTooSmall, out)
                else
                  let payload = take (e - n) (drop n out);
                      r = wr_then (cbor_push 0x85 payload 0) (\<lambda>p i.
                          wr_then (cbor_put_uint OSCORE_VERSION p i) (\<lambda>p i.
                          wr_then (cbor_push 0x81 p i) (\<lambda>p i.
                          wr_then (cbor_put_uint AEAD_AES_CCM_16_64_128 p i) (\<lambda>p i.
                          wr_then (put_bstr request_kid p i) (\<lambda>p i.
                          wr_then (put_bstr request_piv p i) (\<lambda>p i.
                          put_bstr class_i p i))))))
                  in (case r of
                        (Inl err, p) \<Rightarrow> (Inl err, take n out @ p @ drop e out)
                      | (Inr _, p) \<Rightarrow> (Inr e, take n out @ p @ drop e out))))"

text \<open>
  Key derivation: \<open>hkdf salt secret info n\<close> is what expanding n bytes gives, \<open>None\<close> when the
  library refuses the length.
\<close>

definition hkdf_expand ::
  "(bytes \<Rightarrow> bytes \<Rightarrow> bytes \<Rightarrow> nat \<Rightarrow> bytes option) \<Rightarrow>
   bytes \<Rightarrow> bytes \<Rightarrow> bytes \<Rightarrow> bytes option \<Rightarrow> bytes \<Rightarrow> nat \<Rightarrow> oscore_error + bytes" where
  "hkdf_expand hkdf master_secret master_salt id0 id_context label out_len =
     and_then (if out_len \<le> 255 then Inr (of_nat out_len) else Inl OE_Derive) (\<lambda>l.
     case encode_info (replicate 48 0) id0 id_context label l of
       (Inl e, _) \<Rightarrow> Inl e
     | (Inr n, info) \<Rightarrow> ok_or OE_Derive (hkdf master_salt master_secret (take n info) out_len))"

section \<open>Writers\<close>

text \<open>\<open>f\<close> writes exactly \<open>xs\<close> where they fit and otherwise reports a short buffer.\<close>

definition writes :: "(bytes \<Rightarrow> nat \<Rightarrow> written) \<Rightarrow> bytes \<Rightarrow> bool" where
  "writes f xs \<longleftrightarrow>
     (\<forall>out i. length out \<le> usize_max \<longrightarrow> i + length xs \<le> length out \<longrightarrow>
        f out i = (Inr (i + length xs), blit out i xs))"

lemma writesD: "writes f xs \<Longrightarrow> length out \<le> usize_max \<Longrightarrow> i + length xs \<le> length out \<Longrightarrow>
    f out i = (Inr (i + length xs), blit out i xs)"
  by (simp add: writes_def)

lemma writes_push: "writes (cbor_push b) [b]"
  by (simp add: writes_def cbor_push_def)

lemma writes_slice: "writes (push_slice bs) bs"
  by (auto simp: writes_def push_slice_def split: option.splits)

lemma writes_then:
  assumes "writes f xs" "writes g ys"
  shows "writes (\<lambda>out i. wr_then (f out i) g) (xs @ ys)"
proof (unfold writes_def, intro allI impI)
  fix out :: bytes and i
  assume l: "length out \<le> usize_max" "i + length (xs @ ys) \<le> length out"
  then have "f out i = (Inr (i + length xs), blit out i xs)" by (intro writesD [OF assms(1)]) auto
  moreover have "g (blit out i xs) (i + length xs) = (Inr (i + length xs + length ys), blit (blit out i xs) (i + length xs) ys)"
    using l by (intro writesD [OF assms(2)]) auto
  ultimately show "wr_then (f out i) g = (Inr (i + length (xs @ ys)), blit out i (xs @ ys))"
    using l by (simp add: wr_then_def blit_blit)
qed

definition cbor_head :: "u8 \<Rightarrow> nat \<Rightarrow> bytes" where
  "cbor_head major len = (if len \<le> 23 then [major OR of_nat len] else [major OR 24, of_nat len])"

definition cbor_bstr :: "bytes \<Rightarrow> bytes" where
  "cbor_bstr v = cbor_head 0x40 (length v) @ v"

lemma writes_len: "len \<le> 255 \<Longrightarrow> writes (put_len major len) (cbor_head major len)"
  using writes_then [OF writes_push writes_push, of "major OR 24" "of_nat len"] writes_push
  by (auto simp: put_len_def [abs_def] cbor_head_def)

lemma writes_bstr: "length v \<le> 255 \<Longrightarrow> writes (put_bstr v) (cbor_bstr v)"
  using writes_then [OF writes_len writes_slice] by (simp add: put_bstr_def [abs_def] cbor_bstr_def)

lemma writes_uint: "n \<le> 23 \<Longrightarrow> writes (cbor_put_uint n) [n]"
  using writes_push by (simp add: cbor_put_uint_def [abs_def])

section \<open>The associated data\<close>

definition aad_payload :: "bytes \<Rightarrow> bytes \<Rightarrow> bytes \<Rightarrow> bytes" where
  "aad_payload kid piv class_i =
     [0x85, OSCORE_VERSION, 0x81, AEAD_AES_CCM_16_64_128] @ cbor_bstr kid @ cbor_bstr piv @ cbor_bstr class_i"

definition aad_wire :: "bytes \<Rightarrow> bytes \<Rightarrow> bytes \<Rightarrow> bytes" where
  "aad_wire kid piv class_i = ENC0_PREFIX @ cbor_bstr (aad_payload kid piv class_i)"

lemma length_cbor_bstr: "length (cbor_bstr v) = (if length v \<le> 23 then 1 else 2) + length v"
  by (simp add: cbor_bstr_def cbor_head_def)

lemma length_aad_payload:
  "length (aad_payload kid piv class_i) =
     4 + length (cbor_bstr kid) + length (cbor_bstr piv) + length (cbor_bstr class_i)"
  by (simp add: aad_payload_def)

lemma aad_bstr_end_spec:
  "i \<le> 48 \<Longrightarrow> aad_bstr_end i (length v) =
     (if 255 < length v then Inl OE_Id
      else if 48 < i + length (cbor_bstr v) then Inl OE_BufferTooSmall
      else Inr (i + length (cbor_bstr v)))"
  by (auto simp: aad_bstr_end_def length_cbor_bstr checked_add_def usize_max_def)

lemma writes_aad_payload:
  assumes "length kid \<le> 255" "length piv \<le> 255" "length class_i \<le> 255"
  shows "writes (\<lambda>p i. wr_then (cbor_push 0x85 p i) (\<lambda>p i.
                        wr_then (cbor_put_uint OSCORE_VERSION p i) (\<lambda>p i.
                        wr_then (cbor_push 0x81 p i) (\<lambda>p i.
                        wr_then (cbor_put_uint AEAD_AES_CCM_16_64_128 p i) (\<lambda>p i.
                        wr_then (put_bstr kid p i) (\<lambda>p i.
                        wr_then (put_bstr piv p i) (\<lambda>p i. put_bstr class_i p i)))))))
           (aad_payload kid piv class_i)"
proof -
  have u: "writes (cbor_put_uint OSCORE_VERSION) [OSCORE_VERSION]"
    "writes (cbor_put_uint AEAD_AES_CCM_16_64_128) [AEAD_AES_CCM_16_64_128]"
    by (rule writes_uint, simp add: OSCORE_VERSION_def AEAD_AES_CCM_16_64_128_def)+
  note b = writes_bstr [OF assms(1)] writes_bstr [OF assms(2)] writes_bstr [OF assms(3)]
  from writes_then [OF writes_push [of "0x85"] writes_then [OF u(1) writes_then [OF writes_push [of "0x81"]
        writes_then [OF u(2) writes_then [OF b(1) writes_then [OF b(2) b(3)]]]]]]
  show ?thesis by (simp add: aad_payload_def)
qed

lemma encode_aad_short:
  assumes "length (aad_payload kid piv class_i) \<le> 48" "length out \<le> usize_max"
    and "length (aad_wire kid piv class_i) \<le> length out"
  shows "encode_aad out kid piv class_i =
           (Inr (length (aad_wire kid piv class_i)), blit out 0 (aad_wire kid piv class_i))"
proof -
  let ?pl = "aad_payload kid piv class_i"
  let ?out = "blit out 0 ENC0_PREFIX"
  let ?h = "cbor_head 0x40 (length ?pl)"
  have l: "length kid \<le> 255" "length piv \<le> 255" "length class_i \<le> 255"
    using assms(1) by (auto simp: length_aad_payload length_cbor_bstr split: if_splits)
  have pre: "length ENC0_PREFIX = 11" by (simp add: ENC0_PREFIX_def)
  have w: "aad_wire kid piv class_i = ENC0_PREFIX @ ?h @ ?pl" by (simp add: aad_wire_def cbor_bstr_def)
  have ends: "and_then (aad_bstr_end (4 + (if OSCORE_VERSION > 23 then 1 else 0) +
        (if AEAD_AES_CCM_16_64_128 > 23 then 1 else 0)) (length kid)) (\<lambda>n.
      and_then (aad_bstr_end n (length piv)) (\<lambda>n. aad_bstr_end n (length class_i))) = Inr (length ?pl)"
    using l assms(1)
    by (simp add: aad_bstr_end_spec length_aad_payload OSCORE_VERSION_def AEAD_AES_CCM_16_64_128_def)
  have h: "put_len 0x40 (length ?pl) ?out 11 = (Inr (11 + length ?h), blit out 0 (ENC0_PREFIX @ ?h))"
  proof -
    have "put_len 0x40 (length ?pl) ?out 11 = (Inr (11 + length ?h), blit ?out 11 ?h)"
      using assms pre by (intro writesD [OF writes_len]) (auto simp: w)
    also have "blit ?out 11 ?h = blit out 0 (ENC0_PREFIX @ ?h)"
      using blit_step [of ENC0_PREFIX ?h out] assms(3) pre by (simp add: w)
    finally show ?thesis .
  qed
  let ?n = "11 + length ?h" and ?o = "blit out 0 (ENC0_PREFIX @ ?h)"
  have lo: "length ?o = length out" "?n + length ?pl \<le> length out" "length (ENC0_PREFIX @ ?h) = ?n"
    using assms(3) pre by (simp_all add: w)
  let ?p = "take (length ?pl) (drop ?n ?o)"
  have lp: "length ?p = length ?pl" using lo by (simp del: blit_0)
  have pw: "wr_then (cbor_push 0x85 ?p 0) (\<lambda>p i. wr_then (cbor_put_uint OSCORE_VERSION p i) (\<lambda>p i.
      wr_then (cbor_push 0x81 p i) (\<lambda>p i. wr_then (cbor_put_uint AEAD_AES_CCM_16_64_128 p i) (\<lambda>p i.
      wr_then (put_bstr kid p i) (\<lambda>p i. wr_then (put_bstr piv p i) (\<lambda>p i. put_bstr class_i p i)))))) =
      (Inr (length ?pl), ?pl)"
    using writesD [OF writes_aad_payload [OF l], of ?p 0] lp lo(1,2) assms(2)
    by (simp del: blit_0) (simp add: lp del: take_all_iff)
  have fin: "take ?n ?o @ ?pl @ drop (?n + length ?pl) ?o = blit out 0 (aad_wire kid piv class_i)"
    using lo by (simp add: w blit_def ac_simps)
  have "checked_add ?n (length ?pl) = Some (?n + length ?pl)" using lo(2) assms(2) by simp
  then show ?thesis
    unfolding encode_aad_def ends pre
    using assms(3) lo h pw fin w pre
    by (simp add: wr_then_def [of "(Inr _, _)"] Let_def del: blit_0 checked_add_Some_iff)
qed

lemma aad_ends_Inr:
  assumes "and_then (aad_bstr_end (4 + (if OSCORE_VERSION > 23 then 1 else 0) +
        (if AEAD_AES_CCM_16_64_128 > 23 then 1 else 0)) (length kid)) (\<lambda>n.
      and_then (aad_bstr_end n (length piv)) (\<lambda>n. aad_bstr_end n (length class_i))) = Inr len"
  shows "len = length (aad_payload kid piv class_i) \<and> len \<le> 48"
  using assms
  by (auto simp: and_then_Inr_iff aad_bstr_end_spec length_aad_payload OSCORE_VERSION_def
      AEAD_AES_CCM_16_64_128_def split: if_splits)

lemma put_len_fits:
  assumes "put_len major len out i = (Inr n, out')" "i \<le> length out"
  shows "n = i + length (cbor_head major len) \<and> n \<le> length out \<and> length out' = length out"
  using assms
  by (auto simp: put_len_def cbor_push_def wr_then_def cbor_head_def split: if_splits)

lemma encode_aad_fits:
  assumes "encode_aad out kid piv class_i = (Inr n, a)"
  shows "length (aad_payload kid piv class_i) \<le> 48 \<and> length (aad_wire kid piv class_i) \<le> length out"
proof -
  let ?pl = "aad_payload kid piv class_i"
  have pre: "length ENC0_PREFIX = 11" by (simp add: ENC0_PREFIX_def)
  let ?ends = "and_then (aad_bstr_end (4 + (if OSCORE_VERSION > 23 then 1 else 0) +
        (if AEAD_AES_CCM_16_64_128 > 23 then 1 else 0)) (length kid)) (\<lambda>n.
      and_then (aad_bstr_end n (length piv)) (\<lambda>n. aad_bstr_end n (length class_i)))"
  from assms obtain len where ends: "?ends = Inr len"
    by (cases ?ends) (auto simp: encode_aad_def)
  have len: "len = length ?pl" "len \<le> 48" using aad_ends_Inr [OF ends] by auto
  have room: "11 \<le> length out"
    using assms pre unfolding encode_aad_def ends by (auto split: if_splits)
  then have lb: "length (blit out 0 ENC0_PREFIX) = length out" using pre by simp
  obtain m o1 where h: "put_len 0x40 len (blit out 0 ENC0_PREFIX) 11 = (m, o1)" by fastforce
  from assms obtain k where k: "m = Inr k"
    unfolding encode_aad_def ends using room h pre by (cases m) (auto simp: wr_then_def)
  have f: "k = 11 + length (cbor_head 0x40 len)" "length o1 = length out"
    using put_len_fits [OF h [unfolded k]] lb room by auto
  have "k + len \<le> length o1"
    using assms room h k pre unfolding encode_aad_def ends
    by (auto simp: wr_then_def split: option.splits if_splits)
  then show ?thesis using len f pre by (simp add: aad_wire_def cbor_bstr_def)
qed

lemma cbor_head_inj:
  assumes "length a \<le> 255" "length b \<le> 255" "cbor_bstr a @ xs = cbor_bstr b @ ys"
  shows "a = b \<and> xs = ys"
proof -
  have "\<forall>n\<in>set [0..<25]. unat ((0x40 :: u8) OR of_nat n) = 64 + n" by code_simp
  then have o: "unat ((0x40 :: u8) OR of_nat n) = 64 + n" if "n \<le> 24" for n
    using that by (simp only: set_upt atLeastLessThan_iff ball_simps) simp
  have o24: "unat ((0x40 :: u8) OR 24) = 88" using o [of 24] by simp
  have "length a = length b"
  proof (cases "length a \<le> 23"; cases "length b \<le> 23")
    assume l: "length a \<le> 23" "length b \<le> 23"
    then have "(0x40 :: u8) OR of_nat (length a) = 0x40 OR of_nat (length b)"
      using assms(3) by (simp add: cbor_bstr_def cbor_head_def)
    then have "unat ((0x40 :: u8) OR of_nat (length a)) = unat ((0x40 :: u8) OR of_nat (length b))" by simp
    then show ?thesis using l by (simp only: o)
  next
    assume l: "length a \<le> 23" "\<not> length b \<le> 23"
    then have "(0x40 :: u8) OR of_nat (length a) = 0x40 OR 24"
      using assms(3) by (simp add: cbor_bstr_def cbor_head_def)
    then have "unat ((0x40 :: u8) OR of_nat (length a)) = unat ((0x40 :: u8) OR 24)" by simp
    then show ?thesis using l by (simp only: o o24)
  next
    assume l: "\<not> length a \<le> 23" "length b \<le> 23"
    then have "(0x40 :: u8) OR of_nat (length b) = 0x40 OR 24"
      using assms(3) by (simp add: cbor_bstr_def cbor_head_def)
    then have "unat ((0x40 :: u8) OR of_nat (length b)) = unat ((0x40 :: u8) OR 24)" by simp
    then show ?thesis using l by (simp only: o o24)
  next
    assume l: "\<not> length a \<le> 23" "\<not> length b \<le> 23"
    then have "(of_nat (length a) :: u8) = of_nat (length b)"
      using assms(3) by (simp add: cbor_bstr_def cbor_head_def)
    then have "unat (of_nat (length a) :: u8) = unat (of_nat (length b) :: u8)" by simp
    then show ?thesis using assms(1,2) by (simp add: unat_of_nat_u8 del: unsigned_of_nat)
  qed
  then show ?thesis using assms(3) by (simp add: cbor_bstr_def)
qed

text \<open>
  C28: the associated data binds the request. When the encoder succeeds, the bytes it reports are the
  RFC 8613 \<open>Enc_structure\<close> over the algorithm, the request's key identifier and partial IV and the
  class I options, and two such encodings are equal exactly when all three inputs are equal.
\<close>

theorem aad_binds_request:
  assumes "encode_aad out kid piv ci = (Inr n, a)" "encode_aad out' kid' piv' ci' = (Inr m, b)"
    and "length out \<le> usize_max" "length out' \<le> usize_max"
  shows "take n a = aad_wire kid piv ci \<and>
         (take n a = take m b \<longleftrightarrow> kid = kid' \<and> piv = piv' \<and> ci = ci')"
proof -
  note f = encode_aad_fits [OF assms(1)] and g = encode_aad_fits [OF assms(2)]
  have a: "take n a = aad_wire kid piv ci"
    using encode_aad_short [OF _ assms(3), of kid piv ci] f assms(1) by auto
  have b: "take m b = aad_wire kid' piv' ci'"
    using encode_aad_short [OF _ assms(4), of kid' piv' ci'] g assms(2) by auto
  have l: "length v \<le> 255" if "length (aad_payload x y z) \<le> 48" "v \<in> {x, y, z}" for v x y z
    using that by (auto simp: length_aad_payload length_cbor_bstr split: if_splits)
  have lf: "length kid \<le> 255" "length piv \<le> 255" "length ci \<le> 255"
    "length kid' \<le> 255" "length piv' \<le> 255" "length ci' \<le> 255"
    using f g l [of kid piv ci] l [of kid' piv' ci'] by auto
  have "kid = kid' \<and> piv = piv' \<and> ci = ci'" if "aad_wire kid piv ci = aad_wire kid' piv' ci'"
  proof -
    from that have "cbor_bstr (aad_payload kid piv ci) @ [] = cbor_bstr (aad_payload kid' piv' ci') @ []"
      by (simp add: aad_wire_def)
    from cbor_head_inj [OF _ _ this] f g have "aad_payload kid piv ci = aad_payload kid' piv' ci'" by auto
    then have e: "cbor_bstr kid @ cbor_bstr piv @ cbor_bstr ci @ [] = cbor_bstr kid' @ cbor_bstr piv' @ cbor_bstr ci' @ []"
      by (simp add: aad_payload_def)
    note k = cbor_head_inj [OF lf(1,4) e]
    note p = cbor_head_inj [OF lf(2,5) conjunct2 [OF k]]
    from k p cbor_head_inj [OF lf(3,6) conjunct2 [OF p]] show ?thesis by simp
  qed
  then show ?thesis unfolding a b by auto
qed

theorem aad_binds_request_witness:
  "\<exists>n a m b. encode_aad (replicate 48 0) [1] [2] [] = (Inr n, a) \<and> encode_aad (replicate 48 0) [1, 2] [] [] = (Inr m, b) \<and>
     take n a \<noteq> take m b"
proof -
  have "is_ok (fst (encode_aad (replicate 48 0) [1] [2] []))" "is_ok (fst (encode_aad (replicate 48 0) [1, 2] [] []))"
    by code_simp+
  then obtain n a m b where e: "encode_aad (replicate 48 0) [1] [2] [] = (Inr n, a)"
    "encode_aad (replicate 48 0) [1, 2] [] [] = (Inr m, b)"
    by (cases "encode_aad (replicate 48 0) [1] [2] []"; cases "encode_aad (replicate 48 0) [1, 2] [] []")
      (auto simp: is_ok_def split: sum.splits)
  from aad_binds_request [OF e] e show ?thesis by (auto simp: usize_max_def)
qed

end
