(* ===== verification/Osc_Context.thy ===== *)
theory Osc_Context
  imports Osc_Cbor
begin

text \<open>
  The pairwise security context (\<open>src/oscore/context.rs\<close>): key derivation, the sender sequence
  number with its durable reservations, the recipient replay window with its checkpoints, and the
  table of live request bindings.

  The state is one record; every method is a function on it. The properties concern sequences of
  calls: sender numbers are never issued twice, accepted sequence numbers are never accepted again,
  checkpoints only ever strengthen the window, and notification numbers increase.
\<close>

section \<open>Identifiers and bindings\<close>

record osc_id =
  oid_bytes :: bytes
  oid_len :: u8

definition osc_id_new :: "bytes \<Rightarrow> oscore_error + osc_id" where
  "osc_id_new bs =
     (if MAX_ID_LEN < length bs then Inl OE_Id
      else Inr \<lparr>oid_bytes = blit (replicate MAX_ID_LEN 0) 0 bs, oid_len = of_nat (length bs)\<rparr>)"

definition osc_id_as_bytes :: "osc_id \<Rightarrow> bytes" where
  "osc_id_as_bytes i = take (unat (oid_len i)) (oid_bytes i)"

record request_ref =
  rr_kid :: osc_id
  rr_piv :: partial_iv

definition request_ref_from_kid :: "bytes \<Rightarrow> partial_iv \<Rightarrow> oscore_error + request_ref" where
  "request_ref_from_kid kid piv =
     and_then (osc_id_new kid) (\<lambda>i. Inr \<lparr>rr_kid = i, rr_piv = piv\<rparr>)"

record 't live_request =
  lr_token :: 't
  lr_request :: request_ref
  lr_observe :: bool
  lr_observe_request :: "request_ref option"
  lr_response_no_piv :: bool
  lr_notify_no_piv :: bool
  lr_notify_number :: "u64 option"

record 't security_context =
  sc_sender_id :: osc_id
  sc_recipient_id :: osc_id
  sc_id_context :: bytes
  sc_id_context_len :: u8
  sc_sender_key :: bytes
  sc_recipient_key :: bytes
  sc_common_iv :: bytes
  sc_sender_seq :: u64
  sc_sender_reserved_end :: u64
  sc_replay_left :: u64
  sc_replay_bits :: u32
  sc_live :: "'t live_request option list"

section \<open>Derivation\<close>

record derive_params =
  dp_master_secret :: bytes
  dp_master_salt :: bytes
  dp_sender_id :: bytes
  dp_recipient_id :: bytes
  dp_id_context :: bytes

definition label_key :: bytes where "label_key = [0x4b, 0x65, 0x79]"
definition label_iv :: bytes where "label_iv = [0x49, 0x56]"

definition context_derive ::
  "(bytes \<Rightarrow> bytes \<Rightarrow> bytes \<Rightarrow> nat \<Rightarrow> bytes option) \<Rightarrow> nat \<Rightarrow> derive_params \<Rightarrow> oscore_error + 't security_context" where
  "context_derive hkdf REQUESTS params =
     (if dp_master_secret params = [] \<or> 64 < length (dp_master_secret params) then Inl OE_MasterSecret
      else if 64 < length (dp_master_salt params) then Inl OE_MasterSalt
      else if MAX_ID_CONTEXT_LEN < length (dp_id_context params) then Inl OE_Id
      else
        and_then (osc_id_new (dp_sender_id params)) (\<lambda>sender_id.
        and_then (osc_id_new (dp_recipient_id params)) (\<lambda>recipient_id.
        if osc_id_as_bytes sender_id = osc_id_as_bytes recipient_id then Inl OE_IdCollision
        else
          let id_context = (if dp_id_context params = [] then None else Some (dp_id_context params)) in
          and_then (hkdf_expand hkdf (dp_master_secret params) (dp_master_salt params)
                      (osc_id_as_bytes sender_id) id_context label_key KEY_LEN) (\<lambda>sender_key.
          and_then (hkdf_expand hkdf (dp_master_secret params) (dp_master_salt params)
                      (osc_id_as_bytes recipient_id) id_context label_key KEY_LEN) (\<lambda>recipient_key.
          and_then (hkdf_expand hkdf (dp_master_secret params) (dp_master_salt params)
                      [] id_context label_iv NONCE_LEN) (\<lambda>common_iv.
          Inr \<lparr>sc_sender_id = sender_id, sc_recipient_id = recipient_id,
               sc_id_context = blit (replicate MAX_ID_CONTEXT_LEN 0) 0 (dp_id_context params),
               sc_id_context_len = of_nat (length (dp_id_context params)),
               sc_sender_key = sender_key, sc_recipient_key = recipient_key, sc_common_iv = common_iv,
               sc_sender_seq = 0, sc_sender_reserved_end = - 1, sc_replay_left = 0,
               sc_replay_bits = 0, sc_live = replicate REQUESTS None\<rparr>))))))"

definition sc_id_context_bytes :: "'t security_context \<Rightarrow> bytes" where
  "sc_id_context_bytes c = take (unat (sc_id_context_len c)) (sc_id_context c)"

definition matches_recipient :: "'t security_context \<Rightarrow> bytes option \<Rightarrow> bytes option \<Rightarrow> bool" where
  "matches_recipient c kid kid_context =
     (if (case kid of None \<Rightarrow> [] | Some k \<Rightarrow> k) \<noteq> osc_id_as_bytes (sc_recipient_id c) then False
      else case kid_context of
             None \<Rightarrow> sc_id_context_len c = 0
           | Some ctx \<Rightarrow> ctx = sc_id_context_bytes c)"

section \<open>Sender sequence numbers\<close>

text \<open>The literal \<open>1 << 40\<close>.\<close>

definition SEQ_END :: u64 where "SEQ_END = 0x10000000000"

definition set_sender_seq :: "'t security_context \<Rightarrow> u64 \<Rightarrow> (oscore_error + unit) \<times> 't security_context" where
  "set_sender_seq c seq =
     (if seq < sc_sender_seq c then (Inl OE_SequenceRollback, c)
      else if seq > SEQ_END then (Inl OE_SequenceExhausted, c)
      else (Inr (), c\<lparr>sc_sender_seq := seq\<rparr>))"

definition restore_sender_reservation ::
  "'t security_context \<Rightarrow> u64 \<Rightarrow> (oscore_error + unit) \<times> 't security_context" where
  "restore_sender_reservation c exclusive_end =
     (if exclusive_end < sc_sender_seq c \<or>
         (sc_sender_reserved_end c \<noteq> - 1 \<and> exclusive_end < sc_sender_reserved_end c)
      then (Inl OE_SequenceRollback, c)
      else if exclusive_end > SEQ_END then (Inl OE_SequenceExhausted, c)
      else (Inr (), c\<lparr>sc_sender_seq := exclusive_end, sc_sender_reserved_end := exclusive_end\<rparr>))"

definition sender_reservation_end :: "'t security_context \<Rightarrow> u64 option" where
  "sender_reservation_end c =
     (if sc_sender_reserved_end c = - 1 then None else Some (sc_sender_reserved_end c))"

datatype 'e reservation_error = RE_NotEnabled | RE_InvalidSize | RE_SequenceExhausted | RE_Persistence 'e

definition reserve_sender_sequences ::
  "(u64 \<Rightarrow> 'e + unit) \<Rightarrow> 't security_context \<Rightarrow> u64 \<Rightarrow> ('e reservation_error + u64) \<times> 't security_context" where
  "reserve_sender_sequences persist c additional =
     (case sender_reservation_end c of
        None \<Rightarrow> (Inl RE_NotEnabled, c)
      | Some old_end \<Rightarrow>
          if additional = 0 then (Inl RE_InvalidSize, c)
          else
            case Option.bind (checked_add_w (max old_end (sc_sender_seq c)) additional)
                   (\<lambda>e. if e \<le> SEQ_END then Some e else None) of
              None \<Rightarrow> (Inl RE_SequenceExhausted, c)
            | Some e \<Rightarrow>
                (case persist e of
                   Inl err \<Rightarrow> (Inl (RE_Persistence err), c)
                 | Inr _ \<Rightarrow> (Inr e, c\<lparr>sc_sender_reserved_end := e\<rparr>)))"

definition take_sender_piv :: "'t security_context \<Rightarrow> (oscore_error + partial_iv) \<times> 't security_context" where
  "take_sender_piv c =
     (if sc_sender_seq c \<ge> SEQ_END then (Inl OE_SequenceExhausted, c)
      else if sc_sender_seq c \<ge> sc_sender_reserved_end c then (Inl OE_SequenceUnreserved, c)
      else case piv_from_seq (sc_sender_seq c) of
             Inl e \<Rightarrow> (Inl e, c)
           | Inr piv \<Rightarrow> (Inr piv, c\<lparr>sc_sender_seq := sc_sender_seq c + 1\<rparr>))"

definition sc_request_ref :: "'t security_context \<Rightarrow> partial_iv \<Rightarrow> request_ref" where
  "sc_request_ref c piv = \<lparr>rr_kid = sc_sender_id c, rr_piv = piv\<rparr>"

definition request_nonce :: "'t security_context \<Rightarrow> partial_iv \<Rightarrow> bytes" where
  "request_nonce c piv = nonce (sc_common_iv c) (osc_id_as_bytes (sc_sender_id c)) piv"

definition recipient_nonce :: "'t security_context \<Rightarrow> partial_iv \<Rightarrow> bytes" where
  "recipient_nonce c piv = nonce (sc_common_iv c) (osc_id_as_bytes (sc_recipient_id c)) piv"

section \<open>Replay window\<close>

record replay_checkpoint =
  rc_left :: u64
  rc_received :: u32

definition leading_zeros_u32 :: "u32 \<Rightarrow> nat" where
  "leading_zeros_u32 w = length (takeWhile Not (map (bit w) (rev [0..<32])))"

definition checkpoint_from_parts :: "u64 \<Rightarrow> u32 \<Rightarrow> oscore_error + replay_checkpoint" where
  "checkpoint_from_parts left received =
     (if left > SEQ_END \<or>
         (received \<noteq> 0 \<and>
          (left = SEQ_END \<or> of_nat (31 - leading_zeros_u32 received) \<ge> SEQ_END - left))
      then Inl OE_ReplayState
      else Inr \<lparr>rc_left = left, rc_received = received\<rparr>)"

definition checkpoint_parts :: "replay_checkpoint \<Rightarrow> u64 \<times> u32" where
  "checkpoint_parts r = (rc_left r, rc_received r)"

definition validate_successor :: "replay_checkpoint \<Rightarrow> replay_checkpoint \<Rightarrow> oscore_error + unit" where
  "validate_successor r nxt =
     (if rc_left nxt < rc_left r then Inl OE_ReplayRollback
      else
        let shift = rc_left nxt - rc_left r;
            retained = (if shift \<ge> REPLAY_WINDOW then 0 else drop_bit (unat shift) (rc_received r))
        in if retained AND NOT (rc_received nxt) \<noteq> 0 then Inl OE_ReplayRollback else Inr ())"

definition replay_checkpoint_of :: "'t security_context \<Rightarrow> replay_checkpoint" where
  "replay_checkpoint_of c = \<lparr>rc_left = sc_replay_left c, rc_received = sc_replay_bits c\<rparr>"

definition restore_replay :: "'t security_context \<Rightarrow> replay_checkpoint \<Rightarrow> (oscore_error + unit) \<times> 't security_context" where
  "restore_replay c checkpoint =
     (case validate_successor (replay_checkpoint_of c) checkpoint of
        Inl e \<Rightarrow> (Inl e, c)
      | Inr _ \<Rightarrow>
          (Inr (), c\<lparr>sc_replay_left := rc_left checkpoint, sc_replay_bits := rc_received checkpoint\<rparr>))"

definition replay_fresh :: "'t security_context \<Rightarrow> u64 \<Rightarrow> bool" where
  "replay_fresh c seq =
     (if seq \<ge> SEQ_END \<or> seq < sc_replay_left c then False
      else
        let delta = seq - sc_replay_left c in
        if delta \<ge> REPLAY_WINDOW then True
        else sc_replay_bits c AND push_bit (unat delta) 1 = 0)"

definition replay_accept :: "'t security_context \<Rightarrow> u64 \<Rightarrow> 't security_context" where
  "replay_accept c seq =
     (if seq \<ge> SEQ_END \<or> seq < sc_replay_left c then c
      else
        let delta = seq - sc_replay_left c in
        if delta \<ge> REPLAY_WINDOW then
          let shift = delta - (REPLAY_WINDOW - 1);
              bits = (if shift \<ge> 32 then 0 else drop_bit (unat shift) (sc_replay_bits c))
          in c\<lparr>sc_replay_left := seq - (REPLAY_WINDOW - 1),
               sc_replay_bits := bits OR push_bit (unat (REPLAY_WINDOW - 1)) 1\<rparr>
        else c\<lparr>sc_replay_bits := sc_replay_bits c OR push_bit (unat delta) 1\<rparr>)"

section \<open>Live request bindings\<close>

definition live_rows :: "'t security_context \<Rightarrow> 't live_request list" where
  "live_rows c = List.map_filter (\<lambda>r. r) (sc_live c)"

definition has_live_requests :: "'t security_context \<Rightarrow> bool" where
  "has_live_requests c \<longleftrightarrow> (\<exists>r\<in>set (sc_live c). r \<noteq> None)"

text \<open>Write to the first row that satisfies a condition, if there is one.\<close>

fun update_first :: "('r \<Rightarrow> bool) \<Rightarrow> ('r \<Rightarrow> 'r) \<Rightarrow> 'r list \<Rightarrow> 'r list option" where
  "update_first P f [] = None"
| "update_first P f (r # rs) = (if P r then Some (f r # rs) else map_option (\<lambda>rs'. r # rs') (update_first P f rs))"

definition row_of :: "'t \<Rightarrow> 't live_request option \<Rightarrow> bool" where
  "row_of token row = (case row of None \<Rightarrow> False | Some r \<Rightarrow> lr_token r = token)"

definition remember_live ::
  "'t security_context \<Rightarrow> 't \<Rightarrow> request_ref \<Rightarrow> bool \<Rightarrow> (oscore_error + unit) \<times> 't security_context" where
  "remember_live c token request observe =
     (let binding = \<lparr>lr_token = token, lr_request = request, lr_observe = observe,
                     lr_observe_request = (if observe then Some request else None),
                     lr_response_no_piv = False, lr_notify_no_piv = False, lr_notify_number = None\<rparr>
      in case update_first (row_of token) (\<lambda>_. Some binding) (sc_live c) of
           Some live \<Rightarrow> (Inr (), c\<lparr>sc_live := live\<rparr>)
         | None \<Rightarrow>
             (case update_first (\<lambda>row. row = None) (\<lambda>_. Some binding) (sc_live c) of
                Some live \<Rightarrow> (Inr (), c\<lparr>sc_live := live\<rparr>)
              | None \<Rightarrow> (Inl OE_Saturated, c)))"

definition remember :: "'t security_context \<Rightarrow> 't \<Rightarrow> request_ref \<Rightarrow> (oscore_error + unit) \<times> 't security_context" where
  "remember c token request = remember_live c token request False"

definition remember_download ::
  "'t security_context \<Rightarrow> 't \<Rightarrow> request_ref \<Rightarrow> (oscore_error + unit) \<times> 't security_context" where
  "remember_download c token request =
     (case update_first (\<lambda>row. case row of None \<Rightarrow> False | Some r \<Rightarrow> lr_token r = token \<and> lr_observe r)
             (map_option (\<lambda>r. r\<lparr>lr_request := request, lr_response_no_piv := False\<rparr>)) (sc_live c) of
        Some live \<Rightarrow> (Inr (), c\<lparr>sc_live := live\<rparr>)
      | None \<Rightarrow> remember c token request)"

definition observe_request :: "'t security_context \<Rightarrow> 't \<Rightarrow> request_ref option" where
  "observe_request c token =
     Option.bind (find (\<lambda>r. lr_token r = token) (live_rows c)) lr_observe_request"

definition response_without_piv_fresh :: "'t security_context \<Rightarrow> 't \<Rightarrow> oscore_error + unit" where
  "response_without_piv_fresh c token =
     (case find (\<lambda>r. lr_token r = token) (live_rows c) of
        None \<Rightarrow> Inl OE_Context
      | Some row \<Rightarrow> if lr_response_no_piv row then Inl OE_Replay else Inr ())"

definition accept_response_without_piv ::
  "'t security_context \<Rightarrow> 't \<Rightarrow> (oscore_error + unit) \<times> 't security_context" where
  "accept_response_without_piv c token =
     (case response_without_piv_fresh c token of
        Inl e \<Rightarrow> (Inl e, c)
      | Inr _ \<Rightarrow>
          (case update_first (row_of token) (map_option (\<lambda>r. r\<lparr>lr_response_no_piv := True\<rparr>)) (sc_live c) of
             None \<Rightarrow> (Inl OE_Context, c)
           | Some live \<Rightarrow> (Inr (), c\<lparr>sc_live := live\<rparr>)))"

definition context_lookup :: "'t security_context \<Rightarrow> 't \<Rightarrow> request_ref option" where
  "context_lookup c token = map_option lr_request (find (\<lambda>r. lr_token r = token) (live_rows c))"

definition is_observe :: "'t security_context \<Rightarrow> 't \<Rightarrow> bool" where
  "is_observe c token \<longleftrightarrow> (\<exists>r\<in>set (live_rows c). lr_token r = token \<and> lr_observe r)"

definition context_take :: "'t security_context \<Rightarrow> 't \<Rightarrow> request_ref option \<times> 't security_context" where
  "context_take c token =
     (case update_first (row_of token) (\<lambda>_. None) (sc_live c) of
        Some live \<Rightarrow> (context_lookup c token, c\<lparr>sc_live := live\<rparr>)
      | None \<Rightarrow> (None, c))"

definition notification_fresh :: "'t security_context \<Rightarrow> 't \<Rightarrow> partial_iv option \<Rightarrow> oscore_error + unit" where
  "notification_fresh c token piv =
     (case find (\<lambda>r. lr_token r = token) (live_rows c) of
        None \<Rightarrow> Inl OE_Context
      | Some row \<Rightarrow>
          if (case piv of
                None \<Rightarrow> lr_notify_no_piv row
              | Some p \<Rightarrow> (case lr_notify_number row of None \<Rightarrow> False | Some n \<Rightarrow> piv_seq p \<le> n))
          then Inl OE_Replay else Inr ())"

definition accept_notification ::
  "'t security_context \<Rightarrow> 't \<Rightarrow> partial_iv option \<Rightarrow> (oscore_error + unit) \<times> 't security_context" where
  "accept_notification c token piv =
     (case notification_fresh c token piv of
        Inl e \<Rightarrow> (Inl e, c)
      | Inr _ \<Rightarrow>
          (case update_first (row_of token)
                  (map_option (\<lambda>r. case piv of
                                     None \<Rightarrow> r\<lparr>lr_notify_no_piv := True\<rparr>
                                   | Some p \<Rightarrow> r\<lparr>lr_notify_number := Some (piv_seq p)\<rparr>)) (sc_live c) of
             None \<Rightarrow> (Inl OE_Context, c)
           | Some live \<Rightarrow> (Inr (), c\<lparr>sc_live := live\<rparr>)))"

section \<open>Sender numbers are used once\<close>

lemma unat_SEQ_END: "unat SEQ_END = 2 ^ 40"
  by (simp add: SEQ_END_def)

lemma less_SEQ_END: "x < SEQ_END \<longleftrightarrow> unat x < 2 ^ 40"
  by (simp add: word_less_nat_alt unat_SEQ_END)

text \<open>The calls that touch the sender state; \<open>persist\<close> is the caller's storage.\<close>

datatype sender_op = TakePiv | SetSeq u64 | RestoreReservation u64 | Reserve u64

definition sender_step ::
  "(u64 \<Rightarrow> 'e + unit) \<Rightarrow> sender_op \<Rightarrow> 't security_context \<Rightarrow> partial_iv option \<times> 't security_context" where
  "sender_step persist op c =
     (case op of
        TakePiv \<Rightarrow> (case take_sender_piv c of (r, c') \<Rightarrow> (to_ok r, c'))
      | SetSeq n \<Rightarrow> (None, snd (set_sender_seq c n))
      | RestoreReservation n \<Rightarrow> (None, snd (restore_sender_reservation c n))
      | Reserve n \<Rightarrow> (None, snd (reserve_sender_sequences persist c n)))"

fun sender_run ::
  "(u64 \<Rightarrow> 'e + unit) \<Rightarrow> sender_op list \<Rightarrow> 't security_context \<Rightarrow> partial_iv list \<times> 't security_context" where
  "sender_run persist [] c = ([], c)"
| "sender_run persist (op # ops) c =
     (case sender_step persist op c of
        (piv, c') \<Rightarrow> (case sender_run persist ops c' of
          (ps, c'') \<Rightarrow> ((case piv of None \<Rightarrow> ps | Some p \<Rightarrow> p # ps), c'')))"

lemma sender_step_cases:
  assumes "sender_step persist op c = (r, c')"
  obtains "r = None" "sc_sender_seq c \<le> sc_sender_seq c'"
      "sc_sender_id c' = sc_sender_id c" "sc_common_iv c' = sc_common_iv c"
  | p where "r = Some p" "piv_wf p" "piv_seq p = sc_sender_seq c" "unat (sc_sender_seq c') = unat (sc_sender_seq c) + 1"
      "sc_sender_seq c < sc_sender_reserved_end c" "sc_sender_seq c < SEQ_END"
      "sc_sender_id c' = sc_sender_id c" "sc_common_iv c' = sc_common_iv c"
proof (cases op)
  case TakePiv
  show thesis
  proof (cases "sc_sender_seq c < SEQ_END \<and> sc_sender_seq c < sc_sender_reserved_end c")
    case True
    then have lt: "unat (sc_sender_seq c) < 2 ^ 40" by (simp add: less_SEQ_END)
    with piv_from_seq_Ok [OF lt] obtain p where p: "piv_from_seq (sc_sender_seq c) = Inr p" "piv_wf p"
      "piv_seq p = sc_sender_seq c" by blast
    have "unat (sc_sender_seq c + 1) = unat (sc_sender_seq c) + 1"
      using lt by (subst unat_add_less) auto
    moreover have "take_sender_piv c = (Inr p, c\<lparr>sc_sender_seq := sc_sender_seq c + 1\<rparr>)"
      using True p(1) by (simp add: take_sender_piv_def not_le)
    ultimately show thesis
      using True p TakePiv assms by (intro that(2) [of p]) (auto simp: sender_step_def)
  next
    case False
    then have "take_sender_piv c = (Inl OE_SequenceExhausted, c) \<or> take_sender_piv c = (Inl OE_SequenceUnreserved, c)"
      by (auto simp: take_sender_piv_def not_less)
    with TakePiv assms that(1) show thesis by (auto simp: sender_step_def)
  qed
next
  case (SetSeq n)
  with assms that(1) show thesis by (auto simp: sender_step_def set_sender_seq_def split: if_splits)
next
  case (RestoreReservation n)
  with assms that(1) show thesis
    by (auto simp: sender_step_def restore_sender_reservation_def split: if_splits)
next
  case (Reserve n)
  then have "sc_sender_seq c' = sc_sender_seq c" "r = None" "sc_sender_id c' = sc_sender_id c" "sc_common_iv c' = sc_common_iv c"
    using assms by (auto simp: sender_step_def reserve_sender_sequences_def split: option.splits sum.splits if_splits)
  with that(1) show thesis by simp
qed

lemma sender_run_numbers:
  assumes "sender_run persist ops c = (ps, c')"
  shows "sc_sender_id c' = sc_sender_id c \<and> sc_common_iv c' = sc_common_iv c \<and> sc_sender_seq c \<le> sc_sender_seq c' \<and>
         (\<forall>p\<in>set ps. piv_wf p \<and> sc_sender_seq c \<le> piv_seq p \<and> piv_seq p < SEQ_END) \<and>
         sorted_wrt (\<lambda>p q. piv_seq p < piv_seq q) ps"
  using assms
proof (induction ops arbitrary: c c' ps)
  case (Cons op ops)
  obtain r c1 where st: "sender_step persist op c = (r, c1)" by fastforce
  obtain qs c2 where rn: "sender_run persist ops c1 = (qs, c2)" by fastforce
  from Cons.prems st rn have e: "c' = c2" "ps = (case r of None \<Rightarrow> qs | Some p \<Rightarrow> p # qs)" by auto
  note ih = Cons.IH [OF rn]
  from st show ?case
  proof (cases rule: sender_step_cases)
    case 1
    with ih e show ?thesis by (auto intro: order_trans)
  next
    case (2 p)
    then have lt: "sc_sender_seq c < sc_sender_seq c1" by (simp add: word_less_nat_alt)
    have "piv_seq p < piv_seq q" if "q \<in> set qs" for q
      using 2(3) lt ih that by (auto intro: less_le_trans)
    moreover have "sc_sender_seq c \<le> piv_seq q" if "q \<in> set qs" for q
      using lt ih that by (meson less_imp_le order_trans)
    moreover have "sc_sender_seq c \<le> sc_sender_seq c2" using lt ih by (meson less_imp_le order_trans)
    ultimately show ?thesis using 2 ih e by simp
  qed
qed simp

definition context_wf :: "'t security_context \<Rightarrow> bool" where
  "context_wf c \<longleftrightarrow>
     length (sc_common_iv c) = NONCE_LEN \<and> length (oid_bytes (sc_sender_id c)) = MAX_ID_LEN \<and>
     length (oid_bytes (sc_recipient_id c)) = MAX_ID_LEN"

text \<open>
  C25: a sender never repeats a nonce. Over any sequence of calls on the sender state, including
  skipping ahead and extending or restoring reservations, whatever the storage callback answers, the
  partial IVs handed out strictly increase, stay below 2^40, and give pairwise distinct nonces.
\<close>

theorem sender_nonces_unique:
  assumes "sender_run persist ops c = (ps, c')" "context_wf c"
  shows "sorted_wrt (\<lambda>p q. piv_seq p < piv_seq q) ps \<and> (\<forall>p\<in>set ps. unat (piv_seq p) < 2 ^ 40) \<and>
         distinct (map (request_nonce c) ps)"
proof -
  note n = sender_run_numbers [OF assms(1)]
  let ?i = "osc_id_as_bytes (sc_sender_id c)"
  have "length ?i \<le> 7" "length (sc_common_iv c) = 13"
    using assms(2) by (auto simp: context_wf_def osc_id_as_bytes_def piv_consts)
  then have inj: "request_nonce c p = request_nonce c q \<longleftrightarrow> piv_seq p = piv_seq q" if "piv_wf p" "piv_wf q" for p q
    using that by (simp add: request_nonce_def nonce_eq_iff)
  have "distinct (map (request_nonce c) ps)"
    using n
  proof (induction ps)
    case (Cons p ps)
    then show ?case by (auto simp: inj)
  qed simp
  with n show ?thesis by (auto simp: less_SEQ_END)
qed

theorem sender_nonces_unique_witness:
  "\<exists>p q c' . sender_run (\<lambda>_. Inr () :: unit + unit) [TakePiv, SetSeq 300, TakePiv]
      \<lparr>sc_sender_id = \<lparr>oid_bytes = [1, 0, 0, 0, 0, 0, 0], oid_len = 1\<rparr>,
       sc_recipient_id = \<lparr>oid_bytes = [2, 0, 0, 0, 0, 0, 0], oid_len = 1\<rparr>, sc_id_context = replicate 16 0,
       sc_id_context_len = 0, sc_sender_key = replicate 16 1, sc_recipient_key = replicate 16 2,
       sc_common_iv = replicate 13 3, sc_sender_seq = 0, sc_sender_reserved_end = - 1, sc_replay_left = 0,
       sc_replay_bits = 0, sc_live = [] :: unit live_request option list\<rparr> = ([p, q], c') \<and> piv_seq p < piv_seq q"
proof -
  let ?c = "\<lparr>sc_sender_id = \<lparr>oid_bytes = [1, 0, 0, 0, 0, 0, 0], oid_len = 1\<rparr>,
       sc_recipient_id = \<lparr>oid_bytes = [2, 0, 0, 0, 0, 0, 0], oid_len = 1\<rparr>, sc_id_context = replicate 16 0,
       sc_id_context_len = 0, sc_sender_key = replicate 16 1, sc_recipient_key = replicate 16 2,
       sc_common_iv = replicate 13 3, sc_sender_seq = 0, sc_sender_reserved_end = - 1, sc_replay_left = 0,
       sc_replay_bits = 0, sc_live = [] :: unit live_request option list\<rparr>"
  let ?r = "sender_run (\<lambda>_. Inr () :: unit + unit) [TakePiv, SetSeq 300, TakePiv] ?c"
  obtain ps c' where r: "?r = (ps, c')" by fastforce
  have "context_wf ?c" by (simp add: context_wf_def piv_consts)
  note s = sender_nonces_unique [OF r this]
  have "length (fst ?r) = 2" by code_simp
  then obtain p q where "ps = [p, q]" using r by (auto simp: length_Suc_conv numeral_2_eq_2)
  with r s show ?thesis by auto
qed

section \<open>The replay window\<close>

lemma unat_of_nat_u64: "n < 18446744073709551616 \<Longrightarrow> unat (of_nat n :: u64) = n"
  by (simp add: unat_of_nat take_bit_nat_eq_self)

lemma and_bit_eq_0: "w AND push_bit k 1 = 0 \<longleftrightarrow> \<not> bit w k" for w :: u32
  by (simp add: push_bit_of_1 and_exp_eq_0_iff_not_bit)

lemma bit_u32_ge: "32 \<le> n \<Longrightarrow> \<not> bit (w :: u32) n"
  using bit_imp_le_length [of w n] by auto

lemma unat_diff: "b \<le> a \<Longrightarrow> unat (a - b) = unat a - unat b" for a b :: u64
  by (rule unat_sub)

lemma window_consts: "unat REPLAY_WINDOW = 32" "unat (REPLAY_WINDOW - 1) = 31"
  by (simp_all add: REPLAY_WINDOW_def)

lemma replay_fresh_iff:
  "replay_fresh c s \<longleftrightarrow>
     unat s < 2 ^ 40 \<and> unat (sc_replay_left c) \<le> unat s \<and>
     \<not> bit (sc_replay_bits c) (unat s - unat (sc_replay_left c))"
proof (cases "s < SEQ_END \<and> sc_replay_left c \<le> s")
  case True
  let ?d = "unat s - unat (sc_replay_left c)"
  have d: "unat (s - sc_replay_left c) = ?d" using True by (simp add: unat_diff)
  have r: "\<not> (s \<ge> SEQ_END \<or> s < sc_replay_left c)" using True by auto
  have w: "s - sc_replay_left c \<ge> REPLAY_WINDOW \<longleftrightarrow> 32 \<le> ?d"
    by (simp add: word_le_nat_alt d window_consts)
  have "replay_fresh c s \<longleftrightarrow> 32 \<le> ?d \<or> \<not> bit (sc_replay_bits c) ?d"
    unfolding replay_fresh_def Let_def w d and_bit_eq_0 using r by simp
  also have "\<dots> \<longleftrightarrow> \<not> bit (sc_replay_bits c) ?d" using bit_u32_ge by blast
  finally show ?thesis using True by (simp add: less_SEQ_END word_le_nat_alt)
next
  case False
  then have "\<not> (unat s < 2 ^ 40 \<and> unat (sc_replay_left c) \<le> unat s)"
    by (simp add: less_SEQ_END word_le_nat_alt)
  moreover have "\<not> replay_fresh c s" using False by (auto simp: replay_fresh_def not_less not_le)
  ultimately show ?thesis by blast
qed

lemma replay_accept_state:
  assumes "sc_replay_left c \<le> s" "s < SEQ_END"
  defines "d \<equiv> unat s - unat (sc_replay_left c)"
  shows "unat (sc_replay_left (replay_accept c s)) = (if 32 \<le> d then unat s - 31 else unat (sc_replay_left c))"
    "bit (sc_replay_bits (replay_accept c s)) j \<longleftrightarrow>
       (if 32 \<le> d then j = 31 \<or> bit (sc_replay_bits c) (j + (d - 31)) else bit (sc_replay_bits c) j \<or> j = d)"
proof -
  have dd: "unat (s - sc_replay_left c) = d" using assms by (simp add: unat_diff)
  have r: "\<not> (s \<ge> SEQ_END \<or> s < sc_replay_left c)" using assms by auto
  have w: "s - sc_replay_left c \<ge> REPLAY_WINDOW \<longleftrightarrow> 32 \<le> d"
    by (simp add: word_le_nat_alt dd window_consts)
  have big: "unat (s - (REPLAY_WINDOW - 1)) = unat s - 31 \<and>
      unat (s - sc_replay_left c - (REPLAY_WINDOW - 1)) = d - 31" if "32 \<le> d"
  proof
    have "31 \<le> unat s" using that by (simp add: d_def)
    then show "unat (s - (REPLAY_WINDOW - 1)) = unat s - 31"
      by (subst unat_diff) (simp_all add: word_le_nat_alt window_consts)
    show "unat (s - sc_replay_left c - (REPLAY_WINDOW - 1)) = d - 31"
      using that by (subst unat_diff) (simp_all add: word_le_nat_alt window_consts dd)
  qed
  show "unat (sc_replay_left (replay_accept c s)) = (if 32 \<le> d then unat s - 31 else unat (sc_replay_left c))"
    using r big by (simp add: replay_accept_def Let_def w)
  have b1: "bit (push_bit n 1 :: u32) j \<longleftrightarrow> j = n \<and> n < 32" for n
    by (auto simp: bit_simps)
  have sh: "bit (if s - sc_replay_left c - (REPLAY_WINDOW - 1) \<ge> 32 then 0
      else drop_bit (unat (s - sc_replay_left c - (REPLAY_WINDOW - 1))) (sc_replay_bits c)) j \<longleftrightarrow>
      bit (sc_replay_bits c) (j + (d - 31))" if "32 \<le> d"
  proof -
    have "s - sc_replay_left c - (REPLAY_WINDOW - 1) \<ge> 32 \<longleftrightarrow> 32 \<le> d - 31"
      using big [OF that] word_le_nat_alt [of 32 "s - sc_replay_left c - (REPLAY_WINDOW - 1)"] by simp
    with conjunct2 [OF big [OF that]] bit_u32_ge [of "(d - 31) + j" "sc_replay_bits c"] show ?thesis
      by (cases "32 \<le> d - 31") (simp_all only: bit_drop_bit_eq add.commute [of j] if_True if_False
          comp_def bit_0_eq simp_thms, simp_all)
  qed
  show "bit (sc_replay_bits (replay_accept c s)) j \<longleftrightarrow>
       (if 32 \<le> d then j = 31 \<or> bit (sc_replay_bits c) (j + (d - 31)) else bit (sc_replay_bits c) j \<or> j = d)"
  proof (cases "32 \<le> d")
    case True
    have e: "sc_replay_bits (replay_accept c s) =
        (if s - sc_replay_left c - (REPLAY_WINDOW - 1) \<ge> 32 then 0
         else drop_bit (unat (s - sc_replay_left c - (REPLAY_WINDOW - 1))) (sc_replay_bits c)) OR
        push_bit (unat (REPLAY_WINDOW - 1)) 1"
      using True r w by (simp add: replay_accept_def Let_def)
    show ?thesis unfolding e bit_or_iff sh [OF True] window_consts b1 using True by auto
  next
    case False
    have e: "sc_replay_bits (replay_accept c s) = sc_replay_bits c OR push_bit d 1"
      using False r w by (simp add: replay_accept_def Let_def dd)
    show ?thesis unfolding e bit_or_iff b1 using False by auto
  qed
qed

lemma replay_accept_fresh:
  assumes "sc_replay_left c \<le> s" "s < SEQ_END"
  shows "replay_fresh (replay_accept c s) x \<longleftrightarrow> replay_fresh c x \<and> x \<noteq> s \<and> unat s \<le> unat x + 31"
proof -
  define l d where "l = unat (sc_replay_left c)" and "d = unat s - unat (sc_replay_left c)"
  note st = replay_accept_state [OF assms, folded d_def l_def]
  have sl: "l \<le> unat s" "d = unat s - l" using assms(1) by (auto simp: l_def d_def word_le_nat_alt)
  have xs: "x = s \<longleftrightarrow> unat x = unat s" by (simp add: word_unat_eq_iff)
  show ?thesis
  proof (cases "32 \<le> d")
    case True
    have b: "bit (sc_replay_bits (replay_accept c s)) (unat x - (unat s - 31)) \<longleftrightarrow>
        unat x = unat s \<or> bit (sc_replay_bits c) (unat x - l)" if "unat s - 31 \<le> unat x"
    proof -
      have "unat x - (unat s - 31) = 31 \<longleftrightarrow> unat x = unat s" using that True sl by arith
      moreover have "unat x - (unat s - 31) + (d - 31) = unat x - l" using that True sl by arith
      ultimately show ?thesis unfolding st(2) using True by (simp only: if_True)
    qed
    have "unat s - 31 \<le> unat x \<longleftrightarrow> unat s \<le> unat x + 31" by arith
    moreover have "l \<le> unat x" if "unat s - 31 \<le> unat x" using that True sl by arith
    ultimately show ?thesis
      using True b unfolding replay_fresh_iff st(1) xs l_def [symmetric] by auto
  next
    case False
    have "unat x - l = d \<longleftrightarrow> unat x = unat s" if "l \<le> unat x" using that sl by arith
    moreover have "unat s \<le> unat x + 31" if "l \<le> unat x" using that sl False by arith
    ultimately show ?thesis
      unfolding replay_fresh_iff st xs using False by (auto simp: l_def [symmetric])
  qed
qed

lemma replay_accept_stale: "\<not> (sc_replay_left c \<le> s \<and> s < SEQ_END) \<Longrightarrow> replay_accept c s = c"
  by (auto simp: replay_accept_def not_less not_le)

lemma and_not_eq_0: "a AND NOT b = 0 \<longleftrightarrow> (\<forall>j. bit a j \<longrightarrow> bit b j)" for a b :: u32
proof
  assume "a AND NOT b = 0"
  then have "\<not> bit (a AND NOT b) j" for j by simp
  then show "\<forall>j. bit a j \<longrightarrow> bit b j"
    using bit_imp_le_length [of a] by (auto simp: bit_and_iff bit_not_iff)
next
  assume "\<forall>j. bit a j \<longrightarrow> bit b j"
  then show "a AND NOT b = 0" by (intro bit_word_eqI) (auto simp: bit_and_iff bit_not_iff)
qed

lemma validate_successor_iff:
  "validate_successor r n = Inr () \<longleftrightarrow>
     rc_left r \<le> rc_left n \<and>
     (\<forall>j. bit (rc_received r) (unat (rc_left n) - unat (rc_left r) + j) \<longrightarrow> bit (rc_received n) j)"
proof (cases "rc_left r \<le> rc_left n")
  case True
  define d where "d = unat (rc_left n) - unat (rc_left r)"
  let ?ret = "if rc_left n - rc_left r \<ge> REPLAY_WINDOW then 0 else drop_bit d (rc_received r)"
  have d: "unat (rc_left n - rc_left r) = d" using True by (simp add: unat_diff d_def)
  have w: "rc_left n - rc_left r \<ge> REPLAY_WINDOW \<longleftrightarrow> 32 \<le> d"
    by (simp add: word_le_nat_alt d window_consts)
  have b: "bit ?ret j \<longleftrightarrow> bit (rc_received r) (d + j)" for j
    unfolding w using bit_u32_ge [of "d + j" "rc_received r"] by (simp add: bit_drop_bit_eq)
  have "validate_successor r n = Inr () \<longleftrightarrow> ?ret AND NOT (rc_received n) = 0"
    unfolding validate_successor_def Let_def d using True by (simp add: leD)
  then show ?thesis unfolding and_not_eq_0 b d_def [symmetric] using True by blast
next
  case False
  then show ?thesis by (simp add: validate_successor_def not_le)
qed

lemma validate_successor_cases:
  "validate_successor r n = Inr () \<or> validate_successor r n = Inl OE_ReplayRollback"
  by (simp add: validate_successor_def Let_def)

lemma validate_successor_fresh:
  assumes "validate_successor r n = Inr ()"
    and "sc_replay_left c = rc_left r" "sc_replay_bits c = rc_received r"
    and "sc_replay_left c' = rc_left n" "sc_replay_bits c' = rc_received n"
    and "replay_fresh c' x"
  shows "replay_fresh c x"
proof -
  let ?l = "unat (rc_left r)" and ?m = "unat (rc_left n)"
  have v: "?l \<le> ?m" "bit (rc_received r) (?m - ?l + j) \<Longrightarrow> bit (rc_received n) j" for j
    using assms(1) by (auto simp: validate_successor_iff word_le_nat_alt)
  have x: "unat x < 2 ^ 40" "?m \<le> unat x" "\<not> bit (rc_received n) (unat x - ?m)"
    using assms(4,5,6) by (auto simp: replay_fresh_iff)
  have "?m - ?l + (unat x - ?m) = unat x - ?l" using v(1) x(2) by simp
  then have "\<not> bit (rc_received r) (unat x - ?l)" using v(2) [of "unat x - ?m"] x(3) by auto
  then show ?thesis using assms(2,3) v(1) x by (simp add: replay_fresh_iff)
qed

lemma restore_replay_fresh:
  assumes "restore_replay c k = (r, c')" "replay_fresh c' x"
  shows "replay_fresh c x"
proof (cases "validate_successor (replay_checkpoint_of c) k")
  case (Inl e)
  with assms show ?thesis by (simp add: restore_replay_def)
next
  case (Inr u)
  with assms(1) have "c' = c\<lparr>sc_replay_left := rc_left k, sc_replay_bits := rc_received k\<rparr>"
    by (simp add: restore_replay_def)
  with Inr assms(2) show ?thesis
    by (intro validate_successor_fresh [of "replay_checkpoint_of c" k c c']) (auto simp: replay_checkpoint_of_def)
qed

text \<open>
  C26: the window is exact. Marking a number in range makes precisely that number and the numbers more
  than 31 below it stale: every other number that was fresh stays fresh. A number outside the range
  leaves the window alone.
\<close>

theorem replay_window_exact:
  "replay_fresh (replay_accept c s) x \<longleftrightarrow>
     (if sc_replay_left c \<le> s \<and> unat s < 2 ^ 40
      then replay_fresh c x \<and> x \<noteq> s \<and> unat s \<le> unat x + 31 else replay_fresh c x)"
proof (cases "sc_replay_left c \<le> s \<and> s < SEQ_END")
  case True
  then show ?thesis using replay_accept_fresh [of c s x] by (simp add: less_SEQ_END)
next
  case False
  then show ?thesis using replay_accept_stale [of c s] by (auto simp: less_SEQ_END)
qed

datatype replay_op = Receive u64 | RestoreReplay replay_checkpoint

text \<open>
  A receiver delivers a number when it is fresh and then marks it; checkpoints may be restored at any
  point. The result lists the numbers delivered.
\<close>

fun replay_run :: "replay_op list \<Rightarrow> 't security_context \<Rightarrow> u64 list \<times> 't security_context" where
  "replay_run [] c = ([], c)"
| "replay_run (Receive s # ops) c =
     (if replay_fresh c s
      then (case replay_run ops (replay_accept c s) of (ds, c') \<Rightarrow> (s # ds, c'))
      else replay_run ops c)"
| "replay_run (RestoreReplay k # ops) c = replay_run ops (snd (restore_replay c k))"

lemma replay_run_delivers:
  assumes "replay_run ops c = (ds, c')"
  shows "distinct ds \<and> (\<forall>s\<in>set ds. replay_fresh c s \<and> \<not> replay_fresh c' s) \<and>
         (\<forall>x. replay_fresh c' x \<longrightarrow> replay_fresh c x)"
  using assms
proof (induction ops arbitrary: c ds)
  case (Cons op ops)
  show ?case
  proof (cases op)
    case (Receive s)
    show ?thesis
    proof (cases "replay_fresh c s")
      case True
      obtain es where es: "replay_run ops (replay_accept c s) = (es, c')" "ds = s # es"
        using Cons.prems Receive True by (auto split: prod.splits)
      have r: "sc_replay_left c \<le> s" "s < SEQ_END"
        using True by (auto simp: replay_fresh_iff less_SEQ_END word_le_nat_alt)
      note a = replay_accept_fresh [OF r] and ih = Cons.IH [OF es(1)]
      from ih a True es(2) show ?thesis by auto
    next
      case False
      with Cons Receive show ?thesis by simp
    qed
  next
    case (RestoreReplay k)
    obtain r c1 where c1: "restore_replay c k = (r, c1)" by fastforce
    with Cons RestoreReplay have "replay_run ops c1 = (ds, c')" by simp
    from Cons.IH [OF this] restore_replay_fresh [OF c1] show ?thesis by blast
  qed
qed simp

text \<open>
  C24: no message is accepted twice. Over any sequence of received sequence numbers and restored
  checkpoints, the numbers delivered are pairwise distinct, were fresh at the start and are stale at
  the end, and nothing that was stale ever becomes fresh.
\<close>

theorem replay_delivered_once:
  assumes "replay_run ops c = (ds, c')"
  shows "distinct ds \<and> (\<forall>s\<in>set ds. replay_fresh c s \<and> \<not> replay_fresh c' s) \<and>
         (\<forall>x. replay_fresh c' x \<longrightarrow> replay_fresh c x)"
  by (rule replay_run_delivers [OF assms])

definition sample_context :: "nat \<Rightarrow> nat security_context" where
  "sample_context n =
     \<lparr>sc_sender_id = \<lparr>oid_bytes = [1, 0, 0, 0, 0, 0, 0], oid_len = 1\<rparr>,
      sc_recipient_id = \<lparr>oid_bytes = [2, 0, 0, 0, 0, 0, 0], oid_len = 1\<rparr>, sc_id_context = replicate 16 0,
      sc_id_context_len = 0, sc_sender_key = replicate 16 1, sc_recipient_key = replicate 16 2,
      sc_common_iv = replicate 13 3, sc_sender_seq = 0, sc_sender_reserved_end = - 1, sc_replay_left = 0,
      sc_replay_bits = 0, sc_live = replicate n None\<rparr>"

theorem replay_delivered_once_witness:
  "\<exists>c'. replay_run [Receive 3, Receive 3] (sample_context 0) = ([3], c') \<and> \<not> replay_fresh c' 3"
proof -
  let ?c = "sample_context 0"
  have f: "replay_fresh ?c 3" by (simp add: replay_fresh_iff sample_context_def)
  have "sc_replay_left ?c \<le> 3" "(3 :: u64) < SEQ_END" by (simp_all add: sample_context_def SEQ_END_def)
  from replay_accept_fresh [OF this, of 3] f
  have r: "replay_run [Receive 3, Receive 3] ?c = ([3], replay_accept ?c 3)" by simp
  from replay_delivered_once [OF r] r show ?thesis by simp
qed

section \<open>Checkpoints\<close>

lemma leading_zeros_bit:
  assumes "bit w k" "k < 32"
  shows "k \<le> 31 - leading_zeros_u32 w"
proof -
  let ?xs = "map (bit w) (rev [0..<32])"
  have "?xs ! (31 - k)" using assms by (simp add: rev_nth)
  then have "length (takeWhile Not ?xs) \<le> 31 - k"
  proof -
    have False if l: "31 - k < length (takeWhile Not ?xs)"
      using takeWhile_nth [OF l] nth_mem [OF l] set_takeWhileD [of "takeWhile Not ?xs ! (31 - k)" Not ?xs]
        \<open>?xs ! (31 - k)\<close> by simp
    then show ?thesis by (meson not_le)
  qed
  then show ?thesis using assms(2) by (simp add: leading_zeros_u32_def)
qed

lemma checkpoint_bits:
  assumes "checkpoint_from_parts l w = Inr r" "bit w k"
  shows "unat l + k < 2 ^ 40"
proof -
  have k: "k < 32" using assms(2) bit_imp_le_length [of w k] by simp
  have nz: "w \<noteq> 0" using assms(2) by auto
  let ?h = "31 - leading_zeros_u32 w"
  have "?h \<le> 31" by simp
  then have h: "unat (of_nat ?h :: u64) = ?h" by (intro unat_of_nat_u64) simp
  from assms(1) nz have c: "\<not> l > SEQ_END" "l \<noteq> SEQ_END" "\<not> of_nat ?h \<ge> SEQ_END - l"
    by (auto simp: checkpoint_from_parts_def split: if_splits)
  then have "l < SEQ_END" "l \<le> SEQ_END" by auto
  then have "unat (SEQ_END - l) = 2 ^ 40 - unat l" "unat l < 2 ^ 40"
    by (simp_all add: unat_diff unat_SEQ_END less_SEQ_END)
  moreover from c(3) have "?h < unat (SEQ_END - l)" using h by (simp add: word_le_nat_alt not_le)
  moreover have "k \<le> ?h" using leading_zeros_bit [OF assms(2) k] .
  ultimately show ?thesis by linarith
qed

text \<open>
  C27: checkpoints. For a checkpoint that \<open>from_parts\<close> accepts, a second checkpoint with any lower
  bound is a valid successor exactly when its lower bound is no smaller and every sequence number it
  would accept was acceptable before; restoring one that is not is refused and changes nothing.
\<close>

theorem checkpoint_successor_exact:
  assumes "checkpoint_from_parts (sc_replay_left c) (sc_replay_bits c) = Inr r"
  shows "(validate_successor r n = Inr () \<longleftrightarrow>
            rc_left r \<le> rc_left n \<and>
            (\<forall>x. replay_fresh (c\<lparr>sc_replay_left := rc_left n, sc_replay_bits := rc_received n\<rparr>) x \<longrightarrow> replay_fresh c x)) \<and>
         (validate_successor r n \<noteq> Inr () \<longrightarrow> restore_replay c n = (Inl OE_ReplayRollback, c))"
proof -
  let ?c = "c\<lparr>sc_replay_left := rc_left n, sc_replay_bits := rc_received n\<rparr>"
  have r: "r = replay_checkpoint_of c"
    using assms unfolding checkpoint_from_parts_def replay_checkpoint_of_def
    by (simp only: split: if_splits) (simp_all only: sum.inject sum.distinct)
  have complete: "validate_successor r n = Inr ()"
    if le: "rc_left r \<le> rc_left n" and sub: "\<And>x. replay_fresh ?c x \<Longrightarrow> replay_fresh c x"
    unfolding validate_successor_iff
  proof (intro conjI allI impI le)
    fix j
    let ?l = "unat (rc_left r)" and ?m = "unat (rc_left n)"
    assume "bit (rc_received r) (?m - ?l + j)"
    then have b: "bit (sc_replay_bits c) (?m - ?l + j)" by (simp add: r replay_checkpoint_of_def)
    have lm: "?l \<le> ?m" using le by (simp add: word_le_nat_alt)
    have l: "unat (sc_replay_left c) = ?l" by (simp add: r replay_checkpoint_of_def)
    have lt: "?m + j < 2 ^ 40" using checkpoint_bits [OF assms b] lm l by simp
    have x: "unat (of_nat (?m + j) :: u64) = ?m + j" using lt by (intro unat_of_nat_u64) simp
    have "\<not> replay_fresh c (of_nat (?m + j))"
      unfolding replay_fresh_iff x l using b lm by (simp del: of_nat_add)
    with sub have "\<not> replay_fresh ?c (of_nat (?m + j))" by blast
    then show "bit (rc_received n) j" unfolding replay_fresh_iff x using lt by simp
  qed
  have sound: "replay_fresh c x" if "validate_successor r n = Inr ()" "replay_fresh ?c x" for x
    by (rule validate_successor_fresh [OF that(1) _ _ _ _ that(2)]) (simp_all add: r replay_checkpoint_of_def)
  have "restore_replay c n = (Inl OE_ReplayRollback, c)" if "validate_successor r n \<noteq> Inr ()"
    using that validate_successor_cases [of r n] by (auto simp: restore_replay_def r)
  moreover have "rc_left r \<le> rc_left n" if "validate_successor r n = Inr ()"
    using that by (simp only: validate_successor_iff)
  ultimately show ?thesis using complete sound by (intro conjI iffI impI) auto
qed

theorem checkpoint_successor_exact_witness:
  "validate_successor \<lparr>rc_left = 0, rc_received = 0\<rparr> \<lparr>rc_left = 5, rc_received = 1\<rparr> = Inr () \<and>
   replay_fresh (sample_context 0\<lparr>sc_replay_left := 5, sc_replay_bits := 1\<rparr>) 7 \<and> replay_fresh (sample_context 0) 7"
proof -
  have f: "checkpoint_from_parts (sc_replay_left (sample_context 0)) (sc_replay_bits (sample_context 0)) =
      Inr \<lparr>rc_left = 0, rc_received = 0\<rparr>" by code_simp
  have v: "validate_successor \<lparr>rc_left = 0, rc_received = 0\<rparr> \<lparr>rc_left = 5, rc_received = 1\<rparr> = Inr ()" by code_simp
  have "replay_fresh (sample_context 0\<lparr>sc_replay_left := 5, sc_replay_bits := 1\<rparr>) 7"
    by (simp add: replay_fresh_iff bit_1_iff)
  with v checkpoint_successor_exact [OF f, of "\<lparr>rc_left = 5, rc_received = 1\<rparr>"] show ?thesis by simp
qed

end
