(* ===== verification/Store_Block.thy ===== *)
theory Store_Block
  imports Store_Tables Osc_Context
begin

text \<open>
  Block-wise transfers (\<open>src/storage/block.rs\<close>): the sidecar of a body slot for classic Block, BERT
  and Q-Block transfers, the retained request identity and the byte stores. A method that changes the
  sidecar in place returns it, also next to an error, as the code may have changed it before it fails.
\<close>

datatype block_error =
    BE_NoBodyPools | BE_Saturated | BE_Slot slot_error | BE_NoTransfer | BE_IdentityMismatch | BE_MissingBlock
  | BE_Overlap | BE_Gap | BE_OutsideWindow | BE_Duplicate | BE_SzxMismatch | BE_Overflow | BE_LengthInconsistent
  | BE_MissingSize | BE_MissingIdentity | BE_AlreadyComplete | BE_PayloadLength | BE_Value value_error
  | BE_Parse parse_error | BE_TokenCapacity capacity_error | BE_Encode encode_error

section \<open>Numbers\<close>

definition checked_mul :: "nat \<Rightarrow> nat \<Rightarrow> nat option" where
  "checked_mul a b = (if a * b \<le> usize_max then Some (a * b) else None)"

definition block_offset :: "u32 \<Rightarrow> nat \<Rightarrow> block_error + nat" where
  "block_offset num sz = ok_or BE_Overflow (checked_mul (unat num) sz)"

definition trailing_ones_u16 :: "u16 \<Rightarrow> nat" where
  "trailing_ones_u16 w = length (takeWhile id (map (bit w) [0..<16]))"

definition trailing_zeros_u16 :: "u16 \<Rightarrow> nat" where
  "trailing_zeros_u16 w = length (takeWhile Not (map (bit w) [0..<16]))"

definition leading_zeros_u16 :: "u16 \<Rightarrow> nat" where
  "leading_zeros_u16 w = length (takeWhile Not (map (bit w) (rev [0..<16])))"

definition count_ones_u16 :: "u16 \<Rightarrow> nat" where
  "count_ones_u16 w = length (filter id (map (bit w) [0..<16]))"

definition classic_block2_range :: "nat \<Rightarrow> block_value \<Rightarrow> block_error + block_value \<times> nat \<times> nat" where
  "classic_block2_range body_len requested =
     (if block_is_bert requested then Inl BE_IdentityMismatch
      else
        let sz = unat (block_size requested) in
        and_then (ok_or BE_Overflow (checked_mul (unat (bv_num requested)) sz)) (\<lambda>offset.
        if body_len < offset \<or> (offset = body_len \<and> 0 < body_len) then Inl BE_Gap
        else
          let e = offset + min (body_len - offset) sz in
          and_then (map_err BE_Value (block_new (bv_num requested) (e < body_len) (bv_szx requested)))
            (\<lambda>block. Inr (block, offset, e))))"

section \<open>Identities\<close>

record body_tag =
  tg_bytes :: bytes
  tg_n :: u8

definition TAG_ABSENT :: body_tag where "TAG_ABSENT = \<lparr>tg_bytes = replicate 8 0, tg_n = 0xff\<rparr>"
definition TAG_EMPTY :: body_tag where "TAG_EMPTY = \<lparr>tg_bytes = replicate 8 0, tg_n = 0\<rparr>"

definition body_tag_new :: "bytes \<Rightarrow> value_error + body_tag" where
  "body_tag_new bs =
     (if 8 < length bs then Inl VE_OpaqueLength
      else Inr \<lparr>tg_bytes = blit (tg_bytes TAG_EMPTY) 0 bs, tg_n = of_nat (length bs)\<rparr>)"

definition body_tag_from_first :: "bytes option \<Rightarrow> value_error + body_tag" where
  "body_tag_from_first bs = (case bs of None \<Rightarrow> Inr TAG_ABSENT | Some b \<Rightarrow> body_tag_new b)"

definition body_tag_is_absent :: "body_tag \<Rightarrow> bool" where
  "body_tag_is_absent t \<longleftrightarrow> tg_n t = 0xff"

definition body_tag_as_slice :: "body_tag \<Rightarrow> bytes option" where
  "body_tag_as_slice t = (if 8 < tg_n t then None else Some (take (unat (tg_n t)) (tg_bytes t)))"

record 't block_key =
  bk_token :: 't
  bk_endpoint :: endpoint
  bk_identity :: body_tag

definition block_key_new :: "'t \<Rightarrow> endpoint \<Rightarrow> 't block_key" where
  "block_key_new token ep = \<lparr>bk_token = token, bk_endpoint = ep, bk_identity = TAG_ABSENT\<rparr>"

definition block_key_with_identity :: "'t block_key \<Rightarrow> body_tag \<Rightarrow> 't block_key" where
  "block_key_with_identity k tag = k\<lparr>bk_identity := tag\<rparr>"

datatype block_role =
    IncomingBlock1 | IncomingBlock2 | IncomingQBlock1 | IncomingQBlock2
  | OutgoingBlock1 | OutgoingBlock2 | OutgoingQBlock1 | OutgoingQBlock2

definition is_incoming :: "block_role \<Rightarrow> bool" where
  "is_incoming r \<longleftrightarrow> r \<in> {IncomingBlock1, IncomingBlock2, IncomingQBlock1, IncomingQBlock2}"

definition is_outgoing :: "block_role \<Rightarrow> bool" where
  "is_outgoing r \<longleftrightarrow> r \<in> {OutgoingBlock1, OutgoingBlock2, OutgoingQBlock1, OutgoingQBlock2}"

definition is_q_block :: "block_role \<Rightarrow> bool" where
  "is_q_block r \<longleftrightarrow> r \<in> {IncomingQBlock1, IncomingQBlock2, OutgoingQBlock1, OutgoingQBlock2}"

section \<open>Recovery wait\<close>

definition NON_MAX_RETRANSMIT :: u8 where "NON_MAX_RETRANSMIT = MAX_RETRANSMIT"

record receive_wait =
  rw_attempts :: u8
  rw_next_timeout_ms :: u64
  rw_timeout_ms :: u32

definition receive_wait_new :: "u64 \<Rightarrow> receive_wait" where
  "receive_wait_new now =
     \<lparr>rw_attempts = 0, rw_next_timeout_ms = saturating_add now (ucast NON_RECEIVE_TIMEOUT_MS),
      rw_timeout_ms = NON_RECEIVE_TIMEOUT_MS\<rparr>"

definition receive_wait_is_due :: "receive_wait \<Rightarrow> u64 \<Rightarrow> bool" where
  "receive_wait_is_due w now \<longleftrightarrow> rw_next_timeout_ms w \<le> now"

definition receive_wait_next :: "receive_wait \<Rightarrow> u64 \<Rightarrow> receive_wait option" where
  "receive_wait_next w now =
     (if NON_MAX_RETRANSMIT \<le> rw_attempts w then None
      else
        let timeout = saturating_mul (rw_timeout_ms w) 2 in
        Some \<lparr>rw_attempts = saturating_add (rw_attempts w) 1,
              rw_next_timeout_ms = saturating_add now (ucast timeout), rw_timeout_ms = timeout\<rparr>)"

section \<open>Request identity\<close>

definition REQUEST_IDENTITY_BYTES :: nat where "REQUEST_IDENTITY_BYTES = 512"

record request_binding =
  rb_bytes :: bytes
  rb_len :: u16
  rb_if_none_match :: "bool option"
  rb_non_confirmable :: bool

definition binding_value :: "opt \<Rightarrow> bytes" where
  "binding_value x =
     (if option_value_format_of (opt_number x) = Some FmtUint then dropWhile (\<lambda>b. b = 0) (opt_value x)
      else opt_value x)"

definition binding_push :: "request_binding \<Rightarrow> opt \<Rightarrow> block_error + request_binding" where
  "binding_push b x =
     (let val = binding_value x;
          start = unat (rb_len b)
      in
        and_then (ok_or BE_Overflow (Option.bind (checked_add start 4) (\<lambda>n. checked_add n (length val)))) (\<lambda>e.
        if length (rb_bytes b) < e then Inl BE_Overflow
        else
          let bs = blit (rb_bytes b) start (u16_to_be (opt_number x));
              bs = blit bs (start + 2) (u16_to_be (of_nat (length val)));
              bs = blit bs (start + 4) val
          in Inr (b\<lparr>rb_bytes := bs, rb_len := of_nat e\<rparr>)))"

fun binding_options :: "opt list \<Rightarrow> bool \<Rightarrow> request_binding \<Rightarrow> block_error + request_binding" where
  "binding_options [] _ b = Inr b"
| "binding_options (x # xs) saw_if_none_match b =
     (if opt_number x = OPT_IF_NONE_MATCH then
        if saw_if_none_match \<or> opt_value x \<noteq> [] then Inl BE_IdentityMismatch
        else binding_options xs True b
      else if is_no_cache_key (opt_number x) \<or>
              opt_number x \<in> {OPT_BLOCK1, OPT_BLOCK2, OPT_Q_BLOCK1, OPT_Q_BLOCK2} then
        binding_options xs saw_if_none_match b
      else and_then (binding_push b x) (binding_options xs saw_if_none_match))"

definition binding_from_message :: "('t, 'z) parsed_message_scheme \<Rightarrow> u32 \<Rightarrow> block_error + request_binding" where
  "binding_from_message m num =
     binding_options (pm_iter m) False
       \<lparr>rb_bytes = (replicate REQUEST_IDENTITY_BYTES 0)[0 := hdr_code (pm_header m)], rb_len = 1,
        rb_if_none_match = (if num = 0 then Some (pm_if_none_match m) else None),
        rb_non_confirmable = (hdr_ty (pm_header m) = NonConfirmable)\<rparr>"

definition same_options :: "request_binding \<Rightarrow> request_binding \<Rightarrow> bool" where
  "same_options a b \<longleftrightarrow> rb_len a = rb_len b \<and> rb_bytes a = rb_bytes b"

definition binding_if_none_match :: "request_binding \<Rightarrow> bool" where
  "binding_if_none_match b \<longleftrightarrow> rb_if_none_match b = Some True"

definition retain_condition :: "request_binding \<Rightarrow> request_binding \<Rightarrow> block_error + request_binding" where
  "retain_condition b candidate =
     (if \<not> same_options b candidate \<or>
         (case (rb_if_none_match b, rb_if_none_match candidate) of
            (Some left, Some right) \<Rightarrow> left \<noteq> right
          | _ \<Rightarrow> False)
      then Inl BE_IdentityMismatch
      else
        Inr (b\<lparr>rb_if_none_match :=
                 (case rb_if_none_match b of None \<Rightarrow> rb_if_none_match candidate | Some v \<Rightarrow> Some v)\<rparr>))"

section \<open>The sidecar\<close>

definition MAX_PAYLOADS :: u8 where "MAX_PAYLOADS = 10"

record q_window =
  qw_base :: u32
  qw_mask :: u16
  qw_final_num :: "u32 option"
  qw_final_payload_len :: u16
  qw_continue_trigger :: "u32 option"
  qw_continue_ack :: "u32 option"

record notification_snapshot =
  ns_code :: code
  ns_format :: "content_format option"
  ns_max_age :: "u32 option"

datatype body_retention = RetainNone | RetainWait receive_wait | RetainStatic bytes

fun retention_wait :: "body_retention \<Rightarrow> receive_wait option" where
  "retention_wait (RetainWait w) = Some w"
| "retention_wait _ = None"

fun retention_update :: "(receive_wait \<Rightarrow> receive_wait) \<Rightarrow> body_retention \<Rightarrow> body_retention" where
  "retention_update f (RetainWait w) = RetainWait (f w)"
| "retention_update _ r = r"

record 't block_transfer =
  bt_key :: "'t block_key"
  bt_role :: block_role
  bt_num :: u32
  bt_szx :: u8
  bt_more :: bool
  bt_next_num :: u32
  bt_filled :: nat
  bt_complete :: bool
  bt_expected_len :: "u32 option"
  bt_q :: "q_window option"
  bt_q_receive :: body_retention
  bt_request_binding :: "request_binding option"
  bt_oscore_request :: "('t \<times> request_ref) option"
  bt_notification :: "notification_snapshot option"

definition q_window_new :: q_window where
  "q_window_new =
     \<lparr>qw_base = 0, qw_mask = 0, qw_final_num = None, qw_final_payload_len = 0,
      qw_continue_trigger = None, qw_continue_ack = None\<rparr>"

definition bt_is_bert :: "'t block_transfer \<Rightarrow> bool" where
  "bt_is_bert t \<longleftrightarrow> bt_szx t = SZX_BERT"

definition window_base :: "'t block_transfer \<Rightarrow> u32" where
  "window_base t = (case bt_q t of Some q \<Rightarrow> qw_base q | None \<Rightarrow> 0)"

definition window_mask :: "'t block_transfer \<Rightarrow> u16" where
  "window_mask t = (case bt_q t of Some q \<Rightarrow> qw_mask q | None \<Rightarrow> 0)"

definition window_full :: u16 where
  "window_full = push_bit (unat MAX_PAYLOADS) 1 - 1"

definition retain_static_body :: "'t block_transfer \<Rightarrow> bytes \<Rightarrow> 't block_transfer" where
  "retain_static_body t body = t\<lparr>bt_q_receive := RetainStatic body\<rparr>"

definition static_body :: "'t block_transfer \<Rightarrow> bytes option" where
  "static_body t = (case bt_q_receive t of RetainStatic body \<Rightarrow> Some body | _ \<Rightarrow> None)"

definition clear_static_body :: "'t block_transfer \<Rightarrow> 't block_transfer" where
  "clear_static_body t =
     (case bt_q_receive t of RetainStatic _ \<Rightarrow> t\<lparr>bt_q_receive := RetainNone\<rparr> | _ \<Rightarrow> t)"

definition without_static_body :: "'t block_transfer \<Rightarrow> 't block_transfer" where
  "without_static_body t = clear_static_body t"

record issue_checkpoint =
  ic_num :: u32
  ic_next_num :: u32
  ic_more :: bool
  ic_complete :: bool
  ic_q_mask :: "u16 option"

definition issue_checkpoint :: "'t block_transfer \<Rightarrow> issue_checkpoint" where
  "issue_checkpoint t =
     \<lparr>ic_num = bt_num t, ic_next_num = bt_next_num t, ic_more = bt_more t, ic_complete = bt_complete t,
      ic_q_mask = map_option qw_mask (bt_q t)\<rparr>"

definition restore_issue :: "'t block_transfer \<Rightarrow> issue_checkpoint \<Rightarrow> 't block_transfer" where
  "restore_issue t c =
     (let t = t\<lparr>bt_num := ic_num c, bt_next_num := ic_next_num c, bt_more := ic_more c,
                bt_complete := ic_complete c\<rparr>
      in case (bt_q t, ic_q_mask c) of
           (Some q, Some m) \<Rightarrow> t\<lparr>bt_q := Some (q\<lparr>qw_mask := m\<rparr>)\<rparr>
         | _ \<Rightarrow> t)"

section \<open>Receiving\<close>

definition accept_at ::
  "'t block_transfer \<Rightarrow> block_value \<Rightarrow> nat \<Rightarrow> nat \<Rightarrow> u32 \<Rightarrow> (block_error + nat) \<times> 't block_transfer" where
  "accept_at t block offset e n =
     (let t = t\<lparr>bt_num := bv_num block, bt_more := bv_more block, bt_filled := e\<rparr> in
      case checked_add_w (bv_num block) n of
        None \<Rightarrow> (Inl BE_Overflow, t)
      | Some nxt \<Rightarrow> (Inr offset, t\<lparr>bt_next_num := nxt, bt_complete := \<not> bv_more block\<rparr>))"

definition incoming_end :: "u32 \<Rightarrow> nat \<Rightarrow> nat \<Rightarrow> nat \<Rightarrow> block_error + nat \<times> nat" where
  "incoming_end num sz payload_len capacity =
     and_then (block_offset num sz) (\<lambda>offset.
     and_then (ok_or BE_Overflow (checked_add offset payload_len)) (\<lambda>e.
     if capacity < e then Inl BE_Overflow else Inr (offset, e)))"

definition accept_bert_incoming ::
  "'t block_transfer \<Rightarrow> block_value \<Rightarrow> nat \<Rightarrow> nat \<Rightarrow> (block_error + nat) \<times> 't block_transfer" where
  "accept_bert_incoming t block payload_len capacity =
     (if \<not> block_is_bert block then (Inl BE_SzxMismatch, t)
      else
        let sz = unat SIZE_MAX in
        if bv_more block \<and> (payload_len = 0 \<or> payload_len mod sz \<noteq> 0) then (Inl BE_PayloadLength, t)
        else case incoming_end (bv_num block) sz payload_len capacity of
            Inl e \<Rightarrow> (Inl e, t)
          | Inr (offset, e) \<Rightarrow>
              (case u32_try_from (payload_len div sz) of
                 None \<Rightarrow> (Inl BE_Overflow, t)
               | Some nblocks \<Rightarrow> accept_at t block offset e nblocks))"

definition adopt_incoming_szx :: "'t block_transfer \<Rightarrow> block_value \<Rightarrow> block_error + 't block_transfer" where
  "adopt_incoming_szx t block =
     (if bv_szx block \<noteq> bt_szx t then
        if bt_is_bert t \<or> block_is_bert block \<or> bt_szx t < bv_szx block then Inl BE_SzxMismatch
        else
          and_then (block_offset (bv_num block) (unat (block_size block))) (\<lambda>offset.
          if offset \<noteq> bt_filled t then Inl BE_Gap
          else Inr (t\<lparr>bt_szx := bv_szx block, bt_next_num := bv_num block\<rparr>))
      else Inr t)"

definition accept_incoming ::
  "'t block_transfer \<Rightarrow> block_value \<Rightarrow> nat \<Rightarrow> nat \<Rightarrow> (block_error + nat) \<times> 't block_transfer" where
  "accept_incoming t block payload_len capacity =
     (if \<not> is_incoming (bt_role t) \<or> is_q_block (bt_role t) then (Inl BE_IdentityMismatch, t)
      else if bt_complete t then (Inl BE_AlreadyComplete, t)
      else case adopt_incoming_szx t block of
          Inl e \<Rightarrow> (Inl e, t)
        | Inr t \<Rightarrow>
            if bv_num block < bt_next_num t then (Inl BE_Overlap, t)
            else if bt_next_num t < bv_num block then (Inl BE_Gap, t)
            else if block_is_bert block then accept_bert_incoming t block payload_len capacity
            else
              let sz = unat (block_size block) in
              if (if bv_more block then payload_len \<noteq> sz else sz < payload_len) then (Inl BE_PayloadLength, t)
              else case incoming_end (bv_num block) sz payload_len capacity of
                  Inl e \<Rightarrow> (Inl e, t)
                | Inr (offset, e) \<Rightarrow> accept_at t block offset e 1)"

definition q_incoming_range :: "block_value \<Rightarrow> nat \<Rightarrow> nat \<Rightarrow> u32 option \<Rightarrow> block_error + nat \<times> u16" where
  "q_incoming_range block payload_len capacity expected_len =
     (let sz = unat (block_size block) in
      if (if bv_more block then payload_len \<noteq> sz else sz < payload_len) then Inl BE_PayloadLength
      else if 65535 < payload_len then Inl BE_Overflow
      else
        and_then (incoming_end (bv_num block) sz payload_len capacity) (\<lambda>(offset, e).
        if (case expected_len of
              None \<Rightarrow> False
            | Some x \<Rightarrow> unat x < e \<or> (\<not> bv_more block \<and> e \<noteq> unat x))
        then Inl BE_LengthInconsistent
        else Inr (offset, of_nat payload_len)))"

definition q_bit :: "u32 \<Rightarrow> u16" where
  "q_bit idx = push_bit (unat idx) 1"

definition q_check :: "q_window \<Rightarrow> block_value \<Rightarrow> block_error + u32" where
  "q_check q block =
     (if bv_num block < qw_base q then Inl BE_Duplicate
      else
        let idx = bv_num block - qw_base q in
        if ucast MAX_PAYLOADS \<le> idx then Inl BE_OutsideWindow
        else if qw_mask q AND q_bit idx \<noteq> 0 then Inl BE_Duplicate
        else if (case qw_final_num q of None \<Rightarrow> False | Some f \<Rightarrow> f < bv_num block) then Inl BE_LengthInconsistent
        else if \<not> bv_more block \<and> saturating_add idx 1 < ucast MAX_PAYLOADS \<and>
                drop_bit (unat (saturating_add idx 1)) (qw_mask q) \<noteq> 0 then Inl BE_LengthInconsistent
        else Inr idx)"

function q_advance :: "u32 \<Rightarrow> q_window \<Rightarrow> (block_error + unit) \<times> q_window" where
  "q_advance num q =
     (if qw_mask q = window_full \<and> qw_final_num q = None then
        case checked_add_w (qw_base q) (ucast MAX_PAYLOADS - 1) of
          None \<Rightarrow> (Inl BE_Overflow, q)
        | Some ack \<Rightarrow>
            (let q = q\<lparr>qw_continue_trigger := Some num, qw_continue_ack := Some ack\<rparr> in
             case checked_add_w (qw_base q) (ucast MAX_PAYLOADS) of
               None \<Rightarrow> (Inl BE_Overflow, q)
             | Some base \<Rightarrow> q_advance num (q\<lparr>qw_base := base, qw_mask := 0\<rparr>))
      else (Inr (), q))"
  by pat_completeness auto
termination
  by (relation "measure (\<lambda>(_, q). if qw_mask q = window_full then 1 else 0)")
    (auto simp: window_full_def MAX_PAYLOADS_def)

declare q_advance.simps [simp del]

definition q_settle :: "'t block_transfer \<Rightarrow> q_window \<Rightarrow> nat \<Rightarrow> (block_error + unit) \<times> 't block_transfer" where
  "q_settle t q sz =
     (case checked_add_w (qw_base q) (of_nat (trailing_ones_u16 (qw_mask q))) of
        None \<Rightarrow> (Inl BE_Overflow, t)
      | Some contig \<Rightarrow>
          let prefix = (case block_offset contig sz of
                 Inl e \<Rightarrow> (Inl e, t)
               | Inr n \<Rightarrow> (Inr (), t\<lparr>bt_filled := n, bt_complete := False, bt_next_num := contig\<rparr>))
          in case qw_final_num q of
               None \<Rightarrow> prefix
             | Some f \<Rightarrow>
                 if f < contig then
                   (case and_then (block_offset f sz) (\<lambda>o1.
                           ok_or BE_Overflow (checked_add o1 (unat (qw_final_payload_len q)))) of
                      Inl e \<Rightarrow> (Inl e, t)
                    | Inr n \<Rightarrow>
                        let t = t\<lparr>bt_filled := n, bt_complete := True\<rparr> in
                        (case checked_add_w f 1 of
                           None \<Rightarrow> (Inl BE_Overflow, t)
                         | Some nxt \<Rightarrow> (Inr (), t\<lparr>bt_next_num := nxt\<rparr>)))
                 else prefix)"

definition accept_q_incoming ::
  "'t block_transfer \<Rightarrow> block_value \<Rightarrow> nat \<Rightarrow> nat \<Rightarrow> (block_error + nat) \<times> 't block_transfer" where
  "accept_q_incoming t block payload_len capacity =
     (if \<not> is_q_block (bt_role t) then (Inl BE_IdentityMismatch, t)
      else if block_is_bert block then (Inl (BE_Value VE_IllegalSzx), t)
      else if bt_complete t then (Inl BE_AlreadyComplete, t)
      else if bv_szx block \<noteq> bt_szx t then (Inl BE_SzxMismatch, t)
      else case and_then (ok_or BE_IdentityMismatch (bt_q t)) (\<lambda>q.
                and_then (q_check q block) (\<lambda>idx.
                and_then (q_incoming_range block payload_len capacity (bt_expected_len t)) (\<lambda>(offset, n).
                Inr (q, idx, offset, n)))) of
          Inl e \<Rightarrow> (Inl e, t)
        | Inr (q, idx, offset, n) \<Rightarrow>
            let q = q\<lparr>qw_mask := qw_mask q OR q_bit idx\<rparr>;
                q = (if bv_more block then q
                     else q\<lparr>qw_final_num := Some (bv_num block), qw_final_payload_len := n\<rparr>)
            in case q_advance (bv_num block) q of
                 (Inl e, q) \<Rightarrow> (Inl e, t\<lparr>bt_q := Some q\<rparr>)
               | (Inr _, q) \<Rightarrow>
                   (case q_settle (t\<lparr>bt_q := Some q\<rparr>) q (unat (block_size block)) of
                      (Inl e, t) \<Rightarrow> (Inl e, t)
                    | (Inr _, t) \<Rightarrow> (Inr offset, t\<lparr>bt_num := bv_num block, bt_more := bv_more block\<rparr>)))"

definition transfer_new ::
  "'t block_key \<Rightarrow> block_role \<Rightarrow> u8 \<Rightarrow> bool \<Rightarrow> nat \<Rightarrow> u32 option \<Rightarrow> q_window option \<Rightarrow> 't block_transfer" where
  "transfer_new k r szx mo n expected_len q =
     \<lparr>bt_key = k, bt_role = r, bt_num = 0, bt_szx = szx, bt_more = mo, bt_next_num = 0, bt_filled = n,
      bt_complete = False, bt_expected_len = expected_len, bt_q = q, bt_q_receive = RetainNone,
      bt_request_binding = None, bt_oscore_request = None, bt_notification = None\<rparr>"

definition incoming ::
  "'t block_key \<Rightarrow> block_role \<Rightarrow> block_value \<Rightarrow> nat \<Rightarrow> nat \<Rightarrow> u32 option \<Rightarrow> block_error + 't block_transfer" where
  "incoming k r block payload_len capacity expected_len =
     (if \<not> is_incoming r \<or> is_q_block r then Inl BE_IdentityMismatch
      else if bv_num block \<noteq> 0 then Inl BE_Gap
      else case accept_incoming (transfer_new k r (bv_szx block) (bv_more block) 0 expected_len None)
                  block payload_len capacity of
          (Inl e, _) \<Rightarrow> Inl e
        | (Inr _, t) \<Rightarrow> Inr t)"

definition incoming_q ::
  "'t block_key \<Rightarrow> block_role \<Rightarrow> block_value \<Rightarrow> nat \<Rightarrow> nat \<Rightarrow> u32 option \<Rightarrow> block_error + 't block_transfer" where
  "incoming_q k r block payload_len capacity expected_len =
     (if \<not> is_incoming r \<or> \<not> is_q_block r then Inl BE_IdentityMismatch
      else if block_is_bert block then Inl (BE_Value VE_IllegalSzx)
      else case accept_q_incoming
                  (transfer_new k r (bv_szx block) (bv_more block) 0 expected_len (Some q_window_new))
                  block payload_len capacity of
          (Inl e, _) \<Rightarrow> Inl e
        | (Inr _, t) \<Rightarrow> Inr t)"

definition start_incoming ::
  "'t block_key \<Rightarrow> block_role \<Rightarrow> block_value \<Rightarrow> nat \<Rightarrow> nat \<Rightarrow> u32 option \<Rightarrow> block_error + 't block_transfer" where
  "start_incoming k r block payload_len capacity expected_len =
     (if is_q_block r then incoming_q k r block payload_len capacity expected_len
      else incoming k r block payload_len capacity expected_len)"

definition accept_incoming_role ::
  "'t block_transfer \<Rightarrow> block_value \<Rightarrow> nat \<Rightarrow> nat \<Rightarrow> (block_error + nat) \<times> 't block_transfer" where
  "accept_incoming_role t block payload_len capacity =
     (if is_q_block (bt_role t) then accept_q_incoming t block payload_len capacity
      else accept_incoming t block payload_len capacity)"

definition store_incoming ::
  "bytes \<Rightarrow> nat \<Rightarrow> nat \<Rightarrow> bytes \<Rightarrow> nat option \<Rightarrow> (block_error + unit) \<times> bytes \<times> nat" where
  "store_incoming buf n offset payload contiguous =
     (case checked_add offset (length payload) of
        None \<Rightarrow> (Inl BE_Overflow, buf, n)
      | Some e \<Rightarrow>
          if length buf < e then (Inl BE_Overflow, buf, n)
          else (Inr (), blit buf offset payload, case contiguous of Some c \<Rightarrow> c | None \<Rightarrow> e))"

definition write_range :: "bytes \<Rightarrow> nat \<Rightarrow> nat \<Rightarrow> bytes \<Rightarrow> (block_error + unit) \<times> bytes \<times> nat" where
  "write_range buf n offset payload =
     (case checked_add offset (length payload) of
        None \<Rightarrow> (Inl BE_Overflow, buf, n)
      | Some e \<Rightarrow>
          if length buf < e then (Inl BE_Overflow, buf, n) else (Inr (), blit buf offset payload, e))"

definition same_body_identity :: "'t block_transfer \<Rightarrow> 't block_key \<Rightarrow> block_role \<Rightarrow> bool" where
  "same_body_identity t k r \<longleftrightarrow>
     \<not> body_tag_is_absent (bk_identity k) \<and> bt_role t = r \<and>
     bk_endpoint (bt_key t) = bk_endpoint k \<and> bk_identity (bt_key t) = bk_identity k"

definition validate_q1_future :: "'t block_transfer \<Rightarrow> block_value \<Rightarrow> nat \<Rightarrow> nat \<Rightarrow> block_error + unit" where
  "validate_q1_future t block payload_len capacity =
     (if bt_role t \<noteq> IncomingQBlock1 \<or> bt_complete t \<or>
         \<not> (case bt_request_binding t of Some b \<Rightarrow> rb_non_confirmable b | None \<Rightarrow> False)
      then Inl BE_IdentityMismatch
      else if block_is_bert block \<or> bv_szx block \<noteq> bt_szx t then Inl BE_SzxMismatch
      else
        and_then (ok_or BE_IdentityMismatch (bt_q t)) (\<lambda>q.
        if saturating_sub (bv_num block) (qw_base q) < ucast MAX_PAYLOADS \<or> qw_final_num q \<noteq> None
        then Inl BE_IdentityMismatch
        else
          and_then (q_incoming_range block payload_len capacity (bt_expected_len t)) (\<lambda>(offset, _).
          and_then (ok_or BE_MissingSize (bt_expected_len t)) (\<lambda>x.
          if unat x \<le> offset \<or> (bv_more block \<and> unat x \<le> offset + payload_len) then Inl BE_LengthInconsistent
          else Inr ()))))"

definition q_continue_for :: "'t block_transfer \<Rightarrow> u32 \<Rightarrow> u32 option" where
  "q_continue_for t num =
     (case bt_q t of
        Some q \<Rightarrow> if qw_continue_trigger q = Some num then qw_continue_ack q else None
      | None \<Rightarrow> None)"

section \<open>Known holes and recovery\<close>

definition q_known_end :: "'t block_transfer \<Rightarrow> q_window \<Rightarrow> u32 option" where
  "q_known_end t q =
     (if bt_role t = IncomingQBlock1 \<and>
         (case bt_request_binding t of Some b \<Rightarrow> rb_non_confirmable b | None \<Rightarrow> False)
      then map_option (\<lambda>n.
             let sz = push_bit (unat (bt_szx t + 4)) 1 in
             saturating_sub (n div sz + (if n mod sz \<noteq> 0 then 1 else 0)) (qw_base q)) (bt_expected_len t)
      else None)"

definition q_hole_end :: "'t block_transfer \<Rightarrow> q_window \<Rightarrow> u32 option" where
  "q_hole_end t q =
     (case q_known_end t q of
        Some e \<Rightarrow> Some (if e < ucast MAX_PAYLOADS then e else ucast MAX_PAYLOADS)
      | None \<Rightarrow>
          (case qw_final_num q of
             Some f \<Rightarrow>
               let idx = f - qw_base q in
               Some (if ucast MAX_PAYLOADS \<le> idx then ucast MAX_PAYLOADS else idx + 1)
           | None \<Rightarrow>
               if qw_mask q \<noteq> 0 then Some (of_nat (15 - leading_zeros_u16 (qw_mask q))) else None))"

definition hole_mask_of :: "u16 \<Rightarrow> nat \<Rightarrow> u16" where
  "hole_mask_of m e =
     fold (\<lambda>i holes. if m AND push_bit i 1 = 0 then holes OR push_bit i 1 else holes) [0..<e] 0"

definition q_holes :: "'t block_transfer \<Rightarrow> (u32 \<times> u16) option" where
  "q_holes t =
     (if \<not> is_incoming (bt_role t) \<or> \<not> is_q_block (bt_role t) \<or> bt_complete t then None
      else Option.bind (bt_q t) (\<lambda>q.
           Option.bind (q_hole_end t q) (\<lambda>e.
           let holes = hole_mask_of (qw_mask q) (unat e) in
           if holes = 0 then None else Some (qw_base q + of_nat (trailing_zeros_u16 holes), holes))))"

definition q_receive :: "'t block_transfer \<Rightarrow> receive_wait option" where
  "q_receive t = (if bt_role t = OutgoingBlock2 then None else retention_wait (bt_q_receive t))"

definition note_q_receive :: "'t block_transfer \<Rightarrow> u64 \<Rightarrow> 't block_transfer" where
  "note_q_receive t now =
     (if \<not> is_incoming (bt_role t) \<or> \<not> is_q_block (bt_role t) then t
      else if q_holes t \<noteq> None then t\<lparr>bt_q_receive := RetainWait (receive_wait_new now)\<rparr>
      else t\<lparr>bt_q_receive := RetainNone\<rparr>)"

definition note_q_recover :: "'t block_transfer \<Rightarrow> u64 \<Rightarrow> receive_wait option \<times> 't block_transfer" where
  "note_q_recover t now =
     (case Option.bind (retention_wait (bt_q_receive t)) (\<lambda>w. receive_wait_next w now) of
        None \<Rightarrow> (None, t)
      | Some w \<Rightarrow> (Some w, t\<lparr>bt_q_receive := RetainWait w\<rparr>))"

record 't q_block_recover =
  qr_id :: slot_id
  qr_key :: "'t block_key"
  qr_role :: block_role
  qr_missing_num :: u32
  qr_hole_mask :: u16
  qr_window_base :: u32
  qr_szx :: u8

definition recover_missing_count :: "'t q_block_recover \<Rightarrow> u8" where
  "recover_missing_count r = of_nat (count_ones_u16 (qr_hole_mask r))"

definition recover_contains :: "'t q_block_recover \<Rightarrow> u32 \<Rightarrow> bool" where
  "recover_contains r num \<longleftrightarrow>
     (if num < qr_window_base r then False
      else
        let idx = num - qr_window_base r in
        if ucast MAX_PAYLOADS \<le> idx then False else qr_hole_mask r AND q_bit idx \<noteq> 0)"

function copy_missing_loop :: "'t q_block_recover \<Rightarrow> u32 list \<Rightarrow> nat \<Rightarrow> nat \<Rightarrow> nat \<times> u32 list" where
  "copy_missing_loop r out n i =
     (if i < unat MAX_PAYLOADS \<and> n < length out then
        if qr_hole_mask r AND push_bit i 1 \<noteq> 0
        then copy_missing_loop r (out[n := qr_window_base r + of_nat i]) (n + 1) (i + 1)
        else copy_missing_loop r out n (i + 1)
      else (n, out))"
  by pat_completeness auto
termination
  by (relation "measure (\<lambda>(_, _, _, i). unat MAX_PAYLOADS - i)") auto

declare copy_missing_loop.simps [simp del]

definition copy_missing_nums :: "'t q_block_recover \<Rightarrow> u32 list \<Rightarrow> nat \<times> u32 list" where
  "copy_missing_nums r out = copy_missing_loop r out 0 0"

section \<open>Sending\<close>

definition outgoing_common ::
  "'t block_key \<Rightarrow> block_role \<Rightarrow> nat \<Rightarrow> u8 \<Rightarrow> nat \<Rightarrow> q_window option \<Rightarrow> block_error + 't block_transfer" where
  "outgoing_common k r body_len szx capacity q =
     and_then (map_err BE_Value (size_from_szx szx)) (\<lambda>_.
     if capacity < body_len then Inl BE_Overflow
     else case u32_try_from body_len of
         Some n \<Rightarrow> Inr (transfer_new k r szx False body_len (Some n) q)
       | None \<Rightarrow> Inl BE_Overflow)"

definition outgoing :: "'t block_key \<Rightarrow> block_role \<Rightarrow> nat \<Rightarrow> u8 \<Rightarrow> nat \<Rightarrow> block_error + 't block_transfer" where
  "outgoing k r body_len szx capacity =
     (if \<not> is_outgoing r \<or> is_q_block r then Inl BE_IdentityMismatch
      else outgoing_common k r body_len szx capacity None)"

definition outgoing_q :: "'t block_key \<Rightarrow> block_role \<Rightarrow> nat \<Rightarrow> u8 \<Rightarrow> nat \<Rightarrow> block_error + 't block_transfer" where
  "outgoing_q k r body_len szx capacity =
     (if \<not> is_outgoing r \<or> \<not> is_q_block r then Inl BE_IdentityMismatch
      else if szx = SZX_BERT then Inl (BE_Value VE_IllegalSzx)
      else outgoing_common k r body_len szx capacity (Some q_window_new))"

definition outgoing_range :: "'t block_transfer \<Rightarrow> u32 \<Rightarrow> block_error + block_value \<times> nat \<times> nat" where
  "outgoing_range t num =
     and_then (map_err BE_Value (size_from_szx (bt_szx t))) (\<lambda>s.
     let sz = unat s in
     and_then (block_offset num sz) (\<lambda>offset.
     if bt_filled t < offset \<or> (offset = bt_filled t \<and> 0 < bt_filled t) then Inl BE_Gap
     else
       let remaining = bt_filled t - offset in
       and_then (map_err BE_Value (block_new num (sz < remaining) (bt_szx t))) (\<lambda>block.
       Inr (block, offset, min remaining sz))))"

definition q_observe_sequence :: "'t block_transfer \<Rightarrow> u32 option" where
  "q_observe_sequence t =
     (if bt_role t = OutgoingQBlock2 then map_option rw_timeout_ms (retention_wait (bt_q_receive t)) else None)"

definition wait_flag :: "'t block_transfer \<Rightarrow> u8 \<Rightarrow> bool" where
  "wait_flag t flag \<longleftrightarrow>
     (case retention_wait (bt_q_receive t) of Some w \<Rightarrow> rw_attempts w AND flag \<noteq> 0 | None \<Rightarrow> False)"

definition q_observe_confirmable :: "'t block_transfer \<Rightarrow> bool" where
  "q_observe_confirmable t \<longleftrightarrow> q_observe_sequence t \<noteq> None \<and> wait_flag t 1"

definition q_observe_recovery :: "'t block_transfer \<Rightarrow> bool" where
  "q_observe_recovery t \<longleftrightarrow> q_observe_confirmable t \<and> wait_flag t 2"

definition issue_check :: "q_window \<Rightarrow> u32 \<Rightarrow> block_error + unit" where
  "issue_check q num =
     (if num < qw_base q then Inl BE_Duplicate
      else
        let idx = num - qw_base q in
        if ucast MAX_PAYLOADS \<le> idx then Inl BE_OutsideWindow
        else if qw_mask q AND q_bit idx \<noteq> 0 then Inl BE_Duplicate
        else Inr ())"

type_synonym issued = "block_value \<times> nat \<times> nat"

definition issue_range :: "'t block_transfer \<Rightarrow> u32 \<Rightarrow> (block_error + issued) \<times> 't block_transfer" where
  "issue_range t num =
     (case and_then (case bt_q t of Some q \<Rightarrow> issue_check q num | None \<Rightarrow> Inr ()) (\<lambda>_. outgoing_range t num) of
        Inl e \<Rightarrow> (Inl e, t)
      | Inr (block, offset, n) \<Rightarrow>
          let t = t\<lparr>bt_q := map_option (\<lambda>q. q\<lparr>qw_mask := qw_mask q OR q_bit (num - qw_base q)\<rparr>) (bt_q t)\<rparr>;
              t = t\<lparr>bt_num := num, bt_more := bv_more block\<rparr>
          in case checked_add_w num 1 of
               None \<Rightarrow> (Inl BE_Overflow, t)
             | Some nxt \<Rightarrow>
                 let t = t\<lparr>bt_next_num := nxt\<rparr> in
                 (Inr (block, offset, n),
                  t\<lparr>bt_complete := (\<not> bv_more block \<or>
                       (q_observe_recovery t \<and>
                        (case bt_q t of Some q \<Rightarrow> qw_mask q = window_full | None \<Rightarrow> False)))\<rparr>))"

definition issue_bert_outgoing :: "'t block_transfer \<Rightarrow> nat \<Rightarrow> (block_error + issued) \<times> 't block_transfer" where
  "issue_bert_outgoing t max_payload =
     (if \<not> is_outgoing (bt_role t) \<or> is_q_block (bt_role t) then (Inl BE_IdentityMismatch, t)
      else if \<not> bt_is_bert t then (Inl BE_SzxMismatch, t)
      else if bt_complete t then (Inl BE_AlreadyComplete, t)
      else
        let sz = unat SIZE_MAX in
        case block_offset (bt_next_num t) sz of
          Inl e \<Rightarrow> (Inl e, t)
        | Inr offset \<Rightarrow>
            if bt_filled t < offset \<or> (offset = bt_filled t \<and> 0 < bt_filled t) then (Inl BE_Gap, t)
            else
              let remaining = bt_filled t - offset;
                  n = (if remaining \<le> max_payload then remaining else max_payload div sz * sz)
              in
                if 0 < remaining \<and> n = 0 then (Inl BE_PayloadLength, t)
                else if n < remaining \<and> (n = 0 \<or> n mod sz \<noteq> 0) then (Inl BE_PayloadLength, t)
                else
                  let mo = (n < remaining) in
                  case and_then (map_err BE_Value (block_bert (bt_next_num t) mo)) (\<lambda>block.
                         and_then (ok_or BE_Overflow (u32_try_from (n div sz))) (\<lambda>nblocks. Inr (block, nblocks))) of
                    Inl e \<Rightarrow> (Inl e, t)
                  | Inr (block, nblocks) \<Rightarrow>
                      let nxt = checked_add_w (bt_next_num t) nblocks;
                          t = t\<lparr>bt_num := bt_next_num t, bt_more := mo\<rparr>
                      in case nxt of
                           None \<Rightarrow> (Inl BE_Overflow, t)
                         | Some m \<Rightarrow> (Inr (block, offset, n), t\<lparr>bt_next_num := m, bt_complete := \<not> mo\<rparr>))"

definition issue_outgoing :: "'t block_transfer \<Rightarrow> (block_error + issued) \<times> 't block_transfer" where
  "issue_outgoing t =
     (if \<not> is_outgoing (bt_role t) \<or> is_q_block (bt_role t) then (Inl BE_IdentityMismatch, t)
      else if bt_complete t then (Inl BE_AlreadyComplete, t)
      else if bt_is_bert t then issue_bert_outgoing t (bt_filled t)
      else issue_range t (bt_next_num t))"

definition adopt_smaller_szx :: "'t block_transfer \<Rightarrow> u8 \<Rightarrow> (block_error + unit) \<times> 't block_transfer" where
  "adopt_smaller_szx t szx =
     (if \<not> is_outgoing (bt_role t) \<or> is_q_block (bt_role t) \<or> bt_is_bert t then (Inl BE_IdentityMismatch, t)
      else if bt_complete t then (Inl BE_AlreadyComplete, t)
      else if bt_szx t \<le> szx then (Inl BE_SzxMismatch, t)
      else case and_then (map_err (\<lambda>_. BE_SzxMismatch) (size_from_szx (bt_szx t))) (\<lambda>old.
                and_then (map_err (\<lambda>_. BE_SzxMismatch) (size_from_szx szx)) (\<lambda>new.
                and_then (ok_or BE_Overflow (checked_mul (unat (bt_next_num t)) (unat old))) (\<lambda>issued.
                if issued mod unat new \<noteq> 0 then Inl BE_Gap else Inr (issued div unat new)))) of
          Inl e \<Rightarrow> (Inl e, t)
        | Inr n \<Rightarrow>
            let t = t\<lparr>bt_szx := szx\<rparr> in
            (case u32_try_from n of
               None \<Rightarrow> (Inl BE_Overflow, t)
             | Some m \<Rightarrow> (Inr (), t\<lparr>bt_next_num := m\<rparr>)))"

definition issue_q_outgoing :: "'t block_transfer \<Rightarrow> (block_error + issued) \<times> 't block_transfer" where
  "issue_q_outgoing t =
     (if \<not> is_outgoing (bt_role t) \<or> \<not> is_q_block (bt_role t) then (Inl BE_IdentityMismatch, t)
      else if bt_complete t then (Inl BE_AlreadyComplete, t)
      else case and_then (ok_or BE_IdentityMismatch (bt_q t)) (\<lambda>q.
                let idx = trailing_ones_u16 (qw_mask q) in
                if unat MAX_PAYLOADS \<le> idx then Inl BE_OutsideWindow
                else ok_or BE_Overflow (checked_add_w (qw_base q) (of_nat idx))) of
          Inl e \<Rightarrow> (Inl e, t)
        | Inr num \<Rightarrow> issue_range t num)"

definition reissue_q_outgoing :: "'t block_transfer \<Rightarrow> u32 \<Rightarrow> block_error + issued" where
  "reissue_q_outgoing t num =
     (if \<not> is_outgoing (bt_role t) \<or> \<not> is_q_block (bt_role t) then Inl BE_IdentityMismatch
      else outgoing_range t num)"

definition pace_q_block1 :: "'t block_transfer \<Rightarrow> (block_error + unit) \<times> 't block_transfer" where
  "pace_q_block1 t =
     (if bt_role t \<noteq> OutgoingQBlock1 then (Inl BE_IdentityMismatch, t)
      else if bt_complete t then (Inl BE_AlreadyComplete, t)
      else case bt_q t of
          None \<Rightarrow> (Inl BE_IdentityMismatch, t)
        | Some q \<Rightarrow>
            if qw_mask q \<noteq> window_full then (Inl BE_Gap, t)
            else case checked_add_w (qw_base q) (ucast MAX_PAYLOADS) of
                None \<Rightarrow> (Inl BE_Overflow, t)
              | Some b \<Rightarrow> (Inr (), t\<lparr>bt_q := Some (q\<lparr>qw_base := b, qw_mask := 0\<rparr>)\<rparr>))"

definition ack_q1 :: "q_window \<Rightarrow> u32 \<Rightarrow> block_error + q_window" where
  "ack_q1 q num =
     (if num < qw_base q then Inl BE_Duplicate
      else
        let idx = num - qw_base q in
        if ucast MAX_PAYLOADS \<le> idx then Inl BE_OutsideWindow
        else if idx \<noteq> ucast MAX_PAYLOADS - 1 then Inl BE_Gap
        else
          let needed = q_bit (idx + 1) - 1 in
          if qw_mask q AND needed \<noteq> needed then Inl BE_Gap
          else
            and_then (ok_or BE_Overflow (checked_add_w num 1)) (\<lambda>b.
            Inr (q\<lparr>qw_base := b, qw_mask := 0\<rparr>)))"

definition ack_q2 :: "q_window \<Rightarrow> u32 \<Rightarrow> block_error + q_window" where
  "ack_q2 q num =
     and_then (ok_or BE_Overflow (checked_add_w (qw_base q) (ucast MAX_PAYLOADS))) (\<lambda>nxt.
     if num < nxt then Inl BE_Duplicate
     else if nxt < num then Inl BE_OutsideWindow
     else if qw_mask q \<noteq> window_full then Inl BE_Gap
     else Inr (q\<lparr>qw_base := num, qw_mask := 0\<rparr>))"

definition ack_q_window :: "'t block_transfer \<Rightarrow> u32 \<Rightarrow> (block_error + nat \<times> bool) \<times> 't block_transfer" where
  "ack_q_window t num =
     (if \<not> is_outgoing (bt_role t) \<or> \<not> is_q_block (bt_role t) then (Inl BE_IdentityMismatch, t)
      else if bt_complete t then (Inl BE_AlreadyComplete, t)
      else case (case bt_role t of
                   OutgoingQBlock1 \<Rightarrow> and_then (ok_or BE_IdentityMismatch (bt_q t)) (\<lambda>q. ack_q1 q num)
                 | OutgoingQBlock2 \<Rightarrow>
                     if num = 0 \<or> num mod ucast MAX_PAYLOADS \<noteq> 0 then Inl BE_Gap
                     else and_then (ok_or BE_IdentityMismatch (bt_q t)) (\<lambda>q. ack_q2 q num)
                 | _ \<Rightarrow> Inl BE_IdentityMismatch) of
          Inl e \<Rightarrow> (Inl e, t)
        | Inr q \<Rightarrow>
            let t = t\<lparr>bt_q := Some q\<rparr> in
            (Inr (bt_filled t, bt_complete t), t))"

section \<open>Notifications and upload controls\<close>

record observe_selection =
  sel_bytes :: bytes
  sel_len :: u16

definition remember_notification ::
  "'t block_transfer \<Rightarrow> code \<Rightarrow> content_format option \<Rightarrow> u32 option \<Rightarrow> 't block_transfer" where
  "remember_notification t c fmt age =
     t\<lparr>bt_notification := Some \<lparr>ns_code = c, ns_format = fmt, ns_max_age = age\<rparr>\<rparr>"

definition notification_metadata :: "'t block_transfer \<Rightarrow> (code \<times> content_format option \<times> u32 option) option" where
  "notification_metadata t = map_option (\<lambda>n. (ns_code n, ns_format n, ns_max_age n)) (bt_notification t)"

definition expire_terminal_at :: "'t block_transfer \<Rightarrow> u64 \<Rightarrow> 't block_transfer" where
  "expire_terminal_at t deadline =
     (if bt_role t = OutgoingBlock2 \<and>
         (case bt_notification t of Some n \<Rightarrow> \<not> code_is_success (ns_code n) | None \<Rightarrow> False)
      then t\<lparr>bt_q_receive :=
               RetainWait \<lparr>rw_attempts = 0, rw_next_timeout_ms = deadline, rw_timeout_ms = 0\<rparr>\<rparr>
      else t)"

definition terminal_deadline :: "'t block_transfer \<Rightarrow> u64 option" where
  "terminal_deadline t =
     (if bt_role t \<in> {OutgoingBlock2, OutgoingQBlock2}
      then map_option rw_next_timeout_ms (retention_wait (bt_q_receive t)) else None)"

definition remember_q_observe :: "'t block_transfer \<Rightarrow> u32 \<Rightarrow> u64 \<Rightarrow> 't block_transfer" where
  "remember_q_observe t sequence deadline =
     t\<lparr>bt_q_receive :=
         RetainWait \<lparr>rw_attempts = 0, rw_next_timeout_ms = deadline, rw_timeout_ms = sequence\<rparr>\<rparr>"

definition negotiate_q_observe_szx :: "'t block_transfer \<Rightarrow> u8 \<Rightarrow> (block_error + unit) \<times> 't block_transfer" where
  "negotiate_q_observe_szx t szx =
     (if q_observe_sequence t = None \<or> bt_szx t < szx \<or> bt_next_num t \<noteq> 0 \<or>
         (case bt_q t of None \<Rightarrow> True | Some q \<Rightarrow> qw_mask q \<noteq> 0)
      then (Inl BE_SzxMismatch, t)
      else (Inr (), t\<lparr>bt_szx := szx\<rparr>))"

definition set_wait_flag :: "u8 \<Rightarrow> 't block_transfer \<Rightarrow> 't block_transfer" where
  "set_wait_flag flag t =
     t\<lparr>bt_q_receive := retention_update (\<lambda>w. w\<lparr>rw_attempts := rw_attempts w OR flag\<rparr>) (bt_q_receive t)\<rparr>"

definition set_q_observe_confirmable :: "'t block_transfer \<Rightarrow> 't block_transfer" where
  "set_q_observe_confirmable t = set_wait_flag 1 t"

definition q_observe_last_mid :: "'t block_transfer \<Rightarrow> message_id option" where
  "q_observe_last_mid t =
     Option.bind (q_observe_sequence t) (\<lambda>_.
     Option.bind (bt_q t) (\<lambda>q. map_option ucast (qw_continue_ack q)))"

definition q_observe_pending_mid :: "'t block_transfer \<Rightarrow> message_id option" where
  "q_observe_pending_mid t = (if q_observe_confirmable t then q_observe_last_mid t else None)"

definition set_q_observe_last_mid :: "'t block_transfer \<Rightarrow> message_id option \<Rightarrow> 't block_transfer" where
  "set_q_observe_last_mid t mid =
     t\<lparr>bt_q := map_option (\<lambda>q. q\<lparr>qw_continue_ack := map_option ucast mid\<rparr>) (bt_q t)\<rparr>"

definition set_q_observe_pending_mid :: "'t block_transfer \<Rightarrow> message_id option \<Rightarrow> 't block_transfer" where
  "set_q_observe_pending_mid t mid = set_q_observe_last_mid t mid"

fun recovery_range :: "'t block_transfer \<Rightarrow> u32 \<Rightarrow> u32 list \<Rightarrow> u16 \<Rightarrow> block_error + u16" where
  "recovery_range t base [] m = Inr m"
| "recovery_range t base (num # nums) m =
     and_then (outgoing_range t num) (\<lambda>(block, _, _).
     let m = m AND NOT (q_bit (num - base)) in
     if bv_more block then recovery_range t base nums m else Inr m)"

fun recovery_mask :: "'t block_transfer \<Rightarrow> u32 \<Rightarrow> block_value list \<Rightarrow> u16 \<Rightarrow> block_error + u16" where
  "recovery_mask t base [] m = Inr m"
| "recovery_mask t base (v # vs) m =
     (let width = ucast MAX_PAYLOADS in
      if bv_num v < base \<or> base + width \<le> bv_num v then Inl BE_OutsideWindow
      else
        let n = (if bv_more v then width - bv_num v mod width else 1) in
        and_then (recovery_range t base (map of_nat [unat (bv_num v)..<unat (bv_num v) + unat n]) m)
          (recovery_mask t base vs))"

definition select_q_observe_recovery ::
  "'t block_transfer \<Rightarrow> block_value list \<Rightarrow> (block_error + unit) \<times> 't block_transfer" where
  "select_q_observe_recovery t selected =
     (if \<not> q_observe_confirmable t \<or> \<not> bt_complete t \<or> q_observe_pending_mid t \<noteq> None
      then (Inl BE_OutsideWindow, t)
      else case selected of
          [] \<Rightarrow> (Inl BE_Gap, t)
        | first # _ \<Rightarrow>
            let width = ucast MAX_PAYLOADS; base = bv_num first div width * width in
            case and_then (recovery_mask t base selected window_full) (\<lambda>m.
                   and_then (ok_or BE_IdentityMismatch (bt_q t)) (\<lambda>q. Inr (m, q))) of
              Inl e \<Rightarrow> (Inl e, t)
            | Inr (m, q) \<Rightarrow>
                (Inr (), set_wait_flag 2
                   (t\<lparr>bt_q := Some (q\<lparr>qw_base := base, qw_mask := m\<rparr>), bt_complete := False\<rparr>)))"

definition retain_observe_selection :: "'t block_transfer \<Rightarrow> observe_selection option \<Rightarrow> 't block_transfer" where
  "retain_observe_selection t sel =
     t\<lparr>bt_request_binding := map_option (\<lambda>s.
         \<lparr>rb_bytes = sel_bytes s, rb_len = sel_len s, rb_if_none_match = None, rb_non_confirmable = False\<rparr>) sel\<rparr>"

definition bt_observe_selection :: "'t block_transfer \<Rightarrow> observe_selection option" where
  "bt_observe_selection t =
     (if bt_notification t = None \<or> bt_role t \<notin> {OutgoingBlock2, OutgoingQBlock2} then None
      else map_option (\<lambda>b. \<lparr>sel_bytes = rb_bytes b, sel_len = rb_len b\<rparr>) (bt_request_binding t))"

definition bt_if_none_match :: "'t block_transfer \<Rightarrow> bool" where
  "bt_if_none_match t \<longleftrightarrow>
     bt_role t \<in> {IncomingBlock1, IncomingQBlock1} \<and>
     (case bt_request_binding t of Some b \<Rightarrow> binding_if_none_match b | None \<Rightarrow> False)"

fun select_controls :: "opt list \<Rightarrow> options_builder \<Rightarrow> block_error + options_builder" where
  "select_controls [] b = Inr b"
| "select_controls (x # xs) b =
     (if opt_number x \<in> {OPT_OBSERVE, OPT_BLOCK2, OPT_Q_BLOCK2}
      then case builder_push (unat MAX_PAYLOADS + 2) b x of
          (Inl _, _) \<Rightarrow> Inl BE_Overflow
        | (Inr _, b) \<Rightarrow> select_controls xs b
      else select_controls xs b)"

definition retain_upload_controls :: "'t block_transfer \<Rightarrow> opt list \<Rightarrow> (block_error + unit) \<times> 't block_transfer" where
  "retain_upload_controls t os =
     (if bt_role t \<notin> {OutgoingBlock1, OutgoingQBlock1} then (Inl BE_IdentityMismatch, t)
      else case select_controls os (builder_new (unat MAX_PAYLOADS + 2)) of
          Inl e \<Rightarrow> (Inl e, t)
        | Inr b \<Rightarrow>
            if builder_as_slice b = [] then (Inr (), t)
            else
              let m = message_with_options (message_new Confirmable CODE_FETCH 0) (builder_as_slice b) in
              case encode compact_owned m (replicate REQUEST_IDENTITY_BYTES 0) of
                (Inl e, _) \<Rightarrow> (Inl (BE_Encode e), t)
              | (Inr n, bs) \<Rightarrow>
                  (Inr (), t\<lparr>bt_request_binding := Some
                     \<lparr>rb_bytes = bs, rb_len = of_nat n, rb_if_none_match = None, rb_non_confirmable = False\<rparr>\<rparr>))"

definition upload_controls :: "'t block_transfer \<Rightarrow> token parsed_message option" where
  "upload_controls t =
     (if bt_role t \<notin> {OutgoingBlock1, OutgoingQBlock1} then None
      else Option.bind (bt_request_binding t) (\<lambda>b. to_ok (decode (take (unat (rb_len b)) (rb_bytes b)))))"

end
