(* ===== verification/Store_Body.thy ===== *)
theory Store_Body
  imports Store_Block
begin

text \<open>
  The pool of complete bodies (\<open>src/storage/pool.rs\<close>, \<open>BodyPool\<close>): slots of \<open>BYTES\<close> bytes with a
  filled length and a transfer sidecar, the admission and continuation of incoming bodies and the
  issue of outgoing ranges. The const generic \<open>BYTES\<close> is an argument where the code uses it.
\<close>

record 't body_pool =
  bp_bytes :: "bytes list"
  bp_lens :: "nat list"
  bp_transfers :: "'t block_transfer option list"
  bp_occ :: occupancy

definition body_pool_new :: "nat \<Rightarrow> nat \<Rightarrow> 't body_pool" where
  "body_pool_new SLOTS BYTES =
     \<lparr>bp_bytes = replicate SLOTS (replicate BYTES 0), bp_lens = replicate SLOTS 0,
      bp_transfers = replicate SLOTS None, bp_occ = occ_new SLOTS SLOTS\<rparr>"

definition body_slot_error :: "'t body_pool \<Rightarrow> slot_id \<Rightarrow> slot_error" where
  "body_slot_error p i = (if i < length (bp_lens p) then SE_NotOccupied else SE_InvalidSlot)"

definition body_reset :: "'t body_pool \<Rightarrow> slot_id \<Rightarrow> 't body_pool" where
  "body_reset p i = p\<lparr>bp_lens := (bp_lens p)[i := 0], bp_transfers := (bp_transfers p)[i := None]\<rparr>"

definition body_acquire :: "'t body_pool \<Rightarrow> slot_id option \<times> 't body_pool" where
  "body_acquire p =
     (case occ_acquire (bp_occ p) of
        (None, occ) \<Rightarrow> (None, p\<lparr>bp_occ := occ\<rparr>)
      | (Some i, occ) \<Rightarrow> (Some i, body_reset (p\<lparr>bp_occ := occ\<rparr>) i))"

definition body_release :: "'t body_pool \<Rightarrow> slot_id \<Rightarrow> (slot_error + unit) \<times> 't body_pool" where
  "body_release p i =
     (case occ_release (bp_occ p) i of
        (Inl e, occ) \<Rightarrow> (Inl e, p\<lparr>bp_occ := occ\<rparr>)
      | (Inr _, occ) \<Rightarrow> (Inr (), body_reset (p\<lparr>bp_occ := occ\<rparr>) i))"

definition body_advance :: "'t body_pool \<Rightarrow> nat \<Rightarrow> 't body_pool" where
  "body_advance p steps = p\<lparr>bp_occ := occ_advance (bp_occ p) steps\<rparr>"

definition slot_static_body :: "'t body_pool \<Rightarrow> slot_id \<Rightarrow> bytes option" where
  "slot_static_body p i = Option.bind (bp_transfers p ! i) static_body"

definition body_view :: "'t body_pool \<Rightarrow> slot_id \<Rightarrow> bytes" where
  "body_view p i =
     take (bp_lens p ! i) (case slot_static_body p i of Some body \<Rightarrow> body | None \<Rightarrow> bp_bytes p ! i)"

definition body_payload :: "'t body_pool \<Rightarrow> slot_id \<Rightarrow> bytes option" where
  "body_payload p i = (if \<not> occ_is_occupied (bp_occ p) i then None else Some (body_view p i))"

definition materialize :: "'t body_pool \<Rightarrow> slot_id \<Rightarrow> 't body_pool" where
  "materialize p i =
     (case slot_static_body p i of
        None \<Rightarrow> p
      | Some body \<Rightarrow>
          p\<lparr>bp_bytes := (bp_bytes p)[i := blit (bp_bytes p ! i) 0 body],
            bp_transfers := (bp_transfers p)[i := map_option clear_static_body (bp_transfers p ! i)]\<rparr>)"

definition body_payload_mut :: "'t body_pool \<Rightarrow> slot_id \<Rightarrow> bytes option \<times> 't body_pool" where
  "body_payload_mut p i =
     (if \<not> occ_is_occupied (bp_occ p) i then (None, p)
      else let p = materialize p i in (Some (bp_bytes p ! i), p))"

definition body_set_len :: "nat \<Rightarrow> 't body_pool \<Rightarrow> slot_id \<Rightarrow> nat \<Rightarrow> (slot_error + unit) \<times> 't body_pool" where
  "body_set_len BYTES p i n =
     (if \<not> occ_is_occupied (bp_occ p) i then (Inl (body_slot_error p i), p)
      else if BYTES < n then (Inl SE_LengthExceedsSlot, p)
      else let p = materialize p i in (Inr (), p\<lparr>bp_lens := (bp_lens p)[i := n]\<rparr>))"

definition body_transfer :: "'t body_pool \<Rightarrow> slot_id \<Rightarrow> 't block_transfer option" where
  "body_transfer p i =
     (if \<not> occ_is_occupied (bp_occ p) i then None
      else map_option without_static_body (Option.bind (get_at (bp_transfers p) i) id))"

definition body_set_transfer ::
  "'t body_pool \<Rightarrow> slot_id \<Rightarrow> 't block_transfer \<Rightarrow> (slot_error + unit) \<times> 't body_pool" where
  "body_set_transfer p i t =
     (if \<not> occ_is_occupied (bp_occ p) i then (Inl (body_slot_error p i), p)
      else
        let p = materialize p i in
        (Inr (), p\<lparr>bp_transfers := (bp_transfers p)[i := Some (without_static_body t)]\<rparr>))"

definition body_access :: "'t body_pool \<Rightarrow> slot_id \<Rightarrow> (slot_error + bytes) \<times> 't body_pool" where
  "body_access p i =
     (case occ_try_pin (bp_occ p) i of
        (Inl e, occ) \<Rightarrow> (Inl e, p\<lparr>bp_occ := occ\<rparr>)
      | (Inr _, occ) \<Rightarrow>
          let p = p\<lparr>bp_occ := occ\<rparr> in
          if length (oc_pinned occ) \<le> i then (Inl SE_InvalidSlot, p) else (Inr (body_view p i), p))"

definition body_access_mut :: "'t body_pool \<Rightarrow> slot_id \<Rightarrow> (slot_error + bytes) \<times> 't body_pool" where
  "body_access_mut p i =
     (case occ_try_pin (bp_occ p) i of
        (Inl e, occ) \<Rightarrow> (Inl e, p\<lparr>bp_occ := occ\<rparr>)
      | (Inr _, occ) \<Rightarrow>
          let p = materialize (p\<lparr>bp_occ := occ\<rparr>) i in
          if length (oc_pinned occ) \<le> i then (Inl SE_InvalidSlot, p) else (Inr (bp_bytes p ! i), p))"

section \<open>Finding a body\<close>

definition body_find :: "'t body_pool \<Rightarrow> ('t block_transfer \<Rightarrow> bool) \<Rightarrow> slot_id option" where
  "body_find p P =
     find_map (\<lambda>i. case body_transfer p i of
                     Some t \<Rightarrow> if P t then Some i else None
                   | None \<Rightarrow> None) [0..<length (bp_lens p)]"

definition body_lookup :: "'t body_pool \<Rightarrow> 't block_key \<Rightarrow> slot_id option" where
  "body_lookup p k = body_find p (\<lambda>t. bt_key t = k)"

definition lookup_role :: "'t body_pool \<Rightarrow> 't block_key \<Rightarrow> block_role \<Rightarrow> slot_id option" where
  "lookup_role p k r = body_find p (\<lambda>t. bt_key t = k \<and> bt_role t = r)"

definition lookup_identity :: "'t body_pool \<Rightarrow> 't block_key \<Rightarrow> block_role \<Rightarrow> slot_id option" where
  "lookup_identity p k r =
     (if body_tag_is_absent (bk_identity k) then None else body_find p (\<lambda>t. same_body_identity t k r))"

section \<open>Incoming bodies\<close>

record block_progress =
  pg_id :: slot_id
  pg_filled :: nat
  pg_complete :: bool

definition admit_incoming ::
  "nat \<Rightarrow> 't body_pool \<Rightarrow> 't block_key \<Rightarrow> block_role \<Rightarrow> block_value \<Rightarrow> bytes \<Rightarrow> u32 option \<Rightarrow>
     (block_error + slot_id) \<times> 't body_pool" where
  "admit_incoming BYTES p k r block payload expected_len =
     (case start_incoming k r block (length payload) BYTES expected_len of
        Inl e \<Rightarrow> (Inl e, p)
      | Inr t \<Rightarrow>
          (case body_acquire p of
             (None, p) \<Rightarrow> (Inl BE_Saturated, p)
           | (Some i, p) \<Rightarrow>
               (case (if is_q_block r then block_offset (bv_num block) (unat (block_size block)) else Inr 0) of
                  Inl e \<Rightarrow> (Inl e, p)
                | Inr offset \<Rightarrow>
                    (case store_incoming (bp_bytes p ! i) (bp_lens p ! i) offset payload
                            (if is_q_block r then Some (bt_filled t) else None) of
                       (Inl e, _, _) \<Rightarrow> (Inl e, snd (body_release p i))
                     | (Inr _, buf, n) \<Rightarrow>
                         (Inr i, p\<lparr>bp_bytes := (bp_bytes p)[i := buf], bp_lens := (bp_lens p)[i := n],
                                   bp_transfers := (bp_transfers p)[i := Some t]\<rparr>)))))"

definition write_incoming ::
  "nat \<Rightarrow> 't body_pool \<Rightarrow> slot_id \<Rightarrow> block_role \<Rightarrow> block_value \<Rightarrow> bytes \<Rightarrow>
     (block_error + block_progress) \<times> 't body_pool" where
  "write_incoming BYTES p i r block payload =
     (if \<not> occ_is_occupied (bp_occ p) i then (Inl (BE_Slot (body_slot_error p i)), p)
      else case bp_transfers p ! i of
          None \<Rightarrow> (Inl BE_NoTransfer, p)
        | Some t \<Rightarrow>
            if bt_role t \<noteq> r then (Inl BE_IdentityMismatch, p)
            else case accept_incoming_role t block (length payload) BYTES of
                (Inl e, t) \<Rightarrow> (Inl e, p\<lparr>bp_transfers := (bp_transfers p)[i := Some t]\<rparr>)
              | (Inr offset, t) \<Rightarrow>
                  let p = p\<lparr>bp_transfers := (bp_transfers p)[i := Some t]\<rparr> in
                  (case store_incoming (bp_bytes p ! i) (bp_lens p ! i) offset payload
                          (if is_q_block r then Some (bt_filled t) else None) of
                     (Inl e, buf, n) \<Rightarrow> (Inl e, p)
                   | (Inr _, buf, n) \<Rightarrow>
                       (Inr \<lparr>pg_id = i, pg_filled = bt_filled t, pg_complete = bt_complete t\<rparr>,
                        p\<lparr>bp_bytes := (bp_bytes p)[i := buf], bp_lens := (bp_lens p)[i := n]\<rparr>)))"

definition apply_incoming ::
  "nat \<Rightarrow> 't body_pool \<Rightarrow> 't block_key \<Rightarrow> block_role \<Rightarrow> block_value \<Rightarrow> bytes \<Rightarrow> u32 option \<Rightarrow>
     (block_error + block_progress) \<times> 't body_pool" where
  "apply_incoming BYTES p k r block payload expected_len =
     (case (case lookup_role p k r of Some i \<Rightarrow> Some i | None \<Rightarrow> lookup_identity p k r) of
        Some i \<Rightarrow>
          (case body_transfer p i of
             None \<Rightarrow> (Inl BE_NoTransfer, p)
           | Some t \<Rightarrow>
               if is_q_block r \<and> bt_expected_len t \<noteq> expected_len then (Inl BE_LengthInconsistent, p)
               else write_incoming BYTES p i r block payload)
      | None \<Rightarrow>
          (case admit_incoming BYTES p k r block payload expected_len of
             (Inl e, p) \<Rightarrow> (Inl e, p)
           | (Inr i, p) \<Rightarrow>
               (case body_transfer p i of
                  None \<Rightarrow> (Inl BE_NoTransfer, p)
                | Some t \<Rightarrow>
                    (Inr \<lparr>pg_id = i, pg_filled = bt_filled t, pg_complete = bt_complete t\<rparr>, p))))"

section \<open>Outgoing bodies\<close>

record outgoing_block =
  og_id :: slot_id
  og_block :: block_value
  og_offset :: nat
  og_len :: nat
  og_complete :: bool

definition outgoing_sidecar ::
  "nat \<Rightarrow> 't block_key \<Rightarrow> block_role \<Rightarrow> bytes \<Rightarrow> u8 \<Rightarrow> block_error + 't block_transfer" where
  "outgoing_sidecar BYTES k r body szx =
     (if is_q_block r then outgoing_q k r (length body) szx BYTES else outgoing k r (length body) szx BYTES)"

definition start_outgoing ::
  "nat \<Rightarrow> 't body_pool \<Rightarrow> 't block_key \<Rightarrow> block_role \<Rightarrow> bytes \<Rightarrow> u8 \<Rightarrow> (block_error + slot_id) \<times> 't body_pool" where
  "start_outgoing BYTES p k r body szx =
     (case outgoing_sidecar BYTES k r body szx of
        Inl e \<Rightarrow> (Inl e, p)
      | Inr t \<Rightarrow>
          (case body_acquire p of
             (None, p) \<Rightarrow> (Inl BE_Saturated, p)
           | (Some i, p) \<Rightarrow>
               (case write_range (bp_bytes p ! i) (bp_lens p ! i) 0 body of
                  (Inl e, _, _) \<Rightarrow> (Inl e, snd (body_release p i))
                | (Inr _, buf, n) \<Rightarrow>
                    (Inr i, p\<lparr>bp_bytes := (bp_bytes p)[i := buf], bp_lens := (bp_lens p)[i := n],
                              bp_transfers := (bp_transfers p)[i := Some t]\<rparr>))))"

definition start_outgoing_static ::
  "nat \<Rightarrow> 't body_pool \<Rightarrow> 't block_key \<Rightarrow> block_role \<Rightarrow> bytes \<Rightarrow> u8 \<Rightarrow> (block_error + slot_id) \<times> 't body_pool" where
  "start_outgoing_static BYTES p k r body szx =
     (if r \<notin> {OutgoingBlock2, OutgoingQBlock2} then (Inl BE_IdentityMismatch, p)
      else case outgoing_sidecar BYTES k r body szx of
          Inl e \<Rightarrow> (Inl e, p)
        | Inr t \<Rightarrow>
            (case body_acquire p of
               (None, p) \<Rightarrow> (Inl BE_Saturated, p)
             | (Some i, p) \<Rightarrow>
                 (Inr i, p\<lparr>bp_lens := (bp_lens p)[i := length body],
                           bp_transfers := (bp_transfers p)[i := Some (retain_static_body t body)]\<rparr>)))"

definition with_transfer ::
  "'t body_pool \<Rightarrow> slot_id \<Rightarrow> block_role \<Rightarrow> ('t block_transfer \<Rightarrow> (block_error + 'r) \<times> 't block_transfer) \<Rightarrow>
     (block_error + 'r \<times> 't block_transfer) \<times> 't body_pool" where
  "with_transfer p i r f =
     (if \<not> occ_is_occupied (bp_occ p) i then (Inl (BE_Slot (body_slot_error p i)), p)
      else case bp_transfers p ! i of
          None \<Rightarrow> (Inl BE_NoTransfer, p)
        | Some t \<Rightarrow>
            if bt_role t \<noteq> r then (Inl BE_IdentityMismatch, p)
            else case f t of
                (res, t) \<Rightarrow> (map_ok (\<lambda>x. (x, t)) res, p\<lparr>bp_transfers := (bp_transfers p)[i := Some t]\<rparr>))"

definition outgoing_block_of :: "slot_id \<Rightarrow> issued \<times> 't block_transfer \<Rightarrow> outgoing_block" where
  "outgoing_block_of i r =
     (case r of ((block, offset, n), t) \<Rightarrow>
        \<lparr>og_id = i, og_block = block, og_offset = offset, og_len = n, og_complete = bt_complete t\<rparr>)"

definition next_outgoing ::
  "'t body_pool \<Rightarrow> slot_id \<Rightarrow> block_role \<Rightarrow> (block_error + outgoing_block) \<times> 't body_pool" where
  "next_outgoing p i r =
     map_prod (map_ok (outgoing_block_of i)) id
       (with_transfer p i r (if is_q_block r then issue_q_outgoing else issue_outgoing))"

definition adopt_smaller_outgoing_szx ::
  "'t body_pool \<Rightarrow> slot_id \<Rightarrow> block_role \<Rightarrow> u8 \<Rightarrow> (block_error + unit) \<times> 't body_pool" where
  "adopt_smaller_outgoing_szx p i r szx =
     map_prod (map_ok fst) id (with_transfer p i r (\<lambda>t. adopt_smaller_szx t szx))"

definition next_bert_outgoing ::
  "'t body_pool \<Rightarrow> slot_id \<Rightarrow> block_role \<Rightarrow> nat \<Rightarrow> (block_error + outgoing_block) \<times> 't body_pool" where
  "next_bert_outgoing p i r max_payload =
     map_prod (map_ok (outgoing_block_of i)) id (with_transfer p i r (\<lambda>t. issue_bert_outgoing t max_payload))"

definition ack_outgoing ::
  "'t body_pool \<Rightarrow> slot_id \<Rightarrow> block_role \<Rightarrow> u32 \<Rightarrow> (block_error + block_progress) \<times> 't body_pool" where
  "ack_outgoing p i r num =
     map_prod (map_ok (\<lambda>((n, fin), _). \<lparr>pg_id = i, pg_filled = n, pg_complete = fin\<rparr>)) id
       (with_transfer p i r (\<lambda>t. ack_q_window t num))"

definition body_pace_q_block1 :: "'t body_pool \<Rightarrow> slot_id \<Rightarrow> (block_error + unit) \<times> 't body_pool" where
  "body_pace_q_block1 p i =
     (case body_transfer p i of
        None \<Rightarrow> (Inl BE_NoTransfer, p)
      | Some t \<Rightarrow>
          (case pace_q_block1 t of
             (Inl e, _) \<Rightarrow> (Inl e, p)
           | (Inr _, t) \<Rightarrow>
               (case body_set_transfer p i t of
                  (Inl e, p) \<Rightarrow> (Inl (BE_Slot e), p)
                | (Inr _, p) \<Rightarrow> (Inr (), p))))"

end
