(* ===== verification/Coap_Sim.thy ===== *)
theory Coap_Sim
  imports Coap_Prelude
begin

text \<open>
  Runs of a component: a sequence of calls on a state, with what each call returns. The locale
  \<open>simulation\<close> is the contract between a component and its specification; a component that meets it
  for each call meets it for every sequence of calls.
\<close>

fun run_steps :: "('c \<Rightarrow> 's \<Rightarrow> 'r \<times> 's) \<Rightarrow> 'c list \<Rightarrow> 's \<Rightarrow> 'r list \<times> 's" where
  "run_steps step [] s = ([], s)"
| "run_steps step (c # cs) s =
     (case step c s of (r, s') \<Rightarrow> (case run_steps step cs s' of (rs, s'') \<Rightarrow> (r # rs, s'')))"

lemma run_steps_append:
  "run_steps step (xs @ ys) s =
     (case run_steps step xs s of (rs, s') \<Rightarrow> (case run_steps step ys s' of (qs, s'') \<Rightarrow> (rs @ qs, s'')))"
  by (induction xs arbitrary: s) (auto split: prod.splits)

lemma length_run_steps: "length (fst (run_steps step cs s)) = length cs"
  by (induction cs arbitrary: s) (simp_all add: case_prod_beta)

locale component =
  fixes inv :: "'s \<Rightarrow> bool" and step :: "'c \<Rightarrow> 's \<Rightarrow> 'r \<times> 's"
  assumes inv_step: "inv s \<Longrightarrow> inv (snd (step c s))"
begin

lemma inv_run: "inv s \<Longrightarrow> inv (snd (run_steps step cs s))"
proof (induction cs arbitrary: s)
  case (Cons c cs)
  then show ?case using inv_step [OF Cons.prems, of c] by (simp add: case_prod_beta)
qed simp

end

locale simulation = component inv step
  for inv :: "'s \<Rightarrow> bool" and step :: "'c \<Rightarrow> 's \<Rightarrow> 'r \<times> 's" +
  fixes abs :: "'s \<Rightarrow> 'a" and spec :: "'c \<Rightarrow> 'a \<Rightarrow> 'r \<times> 'a"
  assumes sim_step: "inv s \<Longrightarrow> spec c (abs s) = map_prod id abs (step c s)"
begin

lemma sim_run: "inv s \<Longrightarrow> run_steps spec cs (abs s) = map_prod id abs (run_steps step cs s)"
proof (induction cs arbitrary: s)
  case (Cons c cs)
  then show ?case
    using inv_step [OF Cons.prems, of c] sim_step [OF Cons.prems, of c]
    by (simp add: case_prod_beta)
qed simp

end

end
