(* ===== verification/Store_Transfer.thy ===== *)
theory Store_Transfer
  imports Store_Body Coap_Sim
begin

text \<open>
  Classic block-wise transfers end to end: what one side issues from its body pool, the other side
  assembles in its own, whatever smaller sizes the receiver asks for on the way.
\<close>

section \<open>Block sizes\<close>

definition szx_bytes :: "u8 \<Rightarrow> nat" where
  "szx_bytes szx = 2 ^ (unat szx + 4)"

lemma szx_cases:
  assumes "szx \<le> (6 :: u8)"
  shows "szx \<in> {0, 1, 2, 3, 4, 5, 6}"
proof -
  have "unat szx \<le> 6" using assms by (simp add: word_le_nat_alt)
  then have "unat szx \<in> {0, 1, 2, 3, 4, 5, 6}" by auto
  then have "word_of_nat (unat szx) \<in> (word_of_nat ` {0, 1, 2, 3, 4, 5, 6} :: u8 set)" by blast
  then show ?thesis by simp
qed

lemma size_from_szx_ok:
  assumes "szx \<le> 6"
  shows "size_from_szx szx = Inr (push_bit (unat szx) 16)" and
    "unat (push_bit (unat szx) (16 :: u16)) = szx_bytes szx"
  using szx_cases [OF assms]
  by (auto simp: size_from_szx_def SZX_BERT_def SZX_MAX_def szx_bytes_def push_bit_eq_mult)

lemma block_size_ok:
  assumes "szx \<le> 6"
  shows "block_is_bert \<lparr>bv_num = n, bv_more = m, bv_szx = szx\<rparr> = False"
    and "unat (block_size \<lparr>bv_num = n, bv_more = m, bv_szx = szx\<rparr>) = szx_bytes szx"
proof -
  show b: "block_is_bert \<lparr>bv_num = n, bv_more = m, bv_szx = szx\<rparr> = False"
    using szx_cases [OF assms] by (auto simp: block_is_bert_def SZX_BERT_def)
  then show "unat (block_size \<lparr>bv_num = n, bv_more = m, bv_szx = szx\<rparr>) = szx_bytes szx"
    using size_from_szx_ok(2) [OF assms] by (simp add: block_size_def)
qed

lemma szx_bytes_bounds: "szx \<le> 6 \<Longrightarrow> 16 \<le> szx_bytes szx \<and> szx_bytes szx \<le> 1024"
  using szx_cases [of szx] by (auto simp: szx_bytes_def)

lemma szx_bytes_dvd: "a \<le> b \<Longrightarrow> szx_bytes a dvd szx_bytes b"
  by (simp add: szx_bytes_def word_le_nat_alt le_imp_power_dvd)

lemma szx_bytes_pos [simp]: "0 < szx_bytes szx" "szx_bytes szx \<noteq> 0"
  by (simp_all add: szx_bytes_def)

lemma szx_not_bert: "szx \<le> 6 \<Longrightarrow> szx \<noteq> SZX_BERT"
  using szx_cases [of szx] by (auto simp: SZX_BERT_def)

lemma block_offset_ok: "unat num * sz \<le> usize_max \<Longrightarrow> block_offset num sz = Inr (unat num * sz)"
  by (simp add: block_offset_def checked_mul_def ok_or_def)

lemma u32_next: "unat num < 2 ^ 20 \<Longrightarrow> checked_add_w num 1 = Some (num + 1) \<and> unat (num + 1) = unat num + 1"
  for num :: u32
  by (simp add: checked_add_w_def unat_word_ariths)

lemma block_new_ok:
  assumes "szx \<le> 6" "unat num < 2 ^ 20"
  shows "block_new num m szx = Inr \<lparr>bv_num = num, bv_more = m, bv_szx = szx\<rparr>"
proof -
  have "\<not> SZX_BERT < szx" using szx_cases [OF assms(1)] by (auto simp: SZX_BERT_def)
  moreover have "\<not> NUM_MAX < num" using assms(2) by (simp add: NUM_MAX_def word_less_nat_alt)
  ultimately show ?thesis by (simp add: block_new_def)
qed

section \<open>One block\<close>

definition body_limit :: nat where
  "body_limit = 16 * 2 ^ 20"

definition sending :: "'t block_transfer \<Rightarrow> nat \<Rightarrow> nat \<Rightarrow> bool" where
  "sending t N d \<longleftrightarrow>
     is_outgoing (bt_role t) \<and> \<not> is_q_block (bt_role t) \<and> \<not> bt_complete t \<and> bt_szx t \<le> 6 \<and>
     bt_q t = None \<and> bt_filled t = N \<and> N \<le> body_limit \<and>
     unat (bt_next_num t) * szx_bytes (bt_szx t) = d \<and> (d < N \<or> (d = 0 \<and> N = 0))"

definition receiving :: "'t block_transfer \<Rightarrow> nat \<Rightarrow> bool" where
  "receiving t d \<longleftrightarrow>
     is_incoming (bt_role t) \<and> \<not> is_q_block (bt_role t) \<and> \<not> bt_complete t \<and> bt_szx t \<le> 6 \<and>
     bt_filled t = d \<and> unat (bt_next_num t) * szx_bytes (bt_szx t) = d"

lemma num_bound:
  assumes "n * szx_bytes szx = d" "d < N \<or> (d = 0 \<and> N = 0)" "N \<le> body_limit" "szx \<le> 6"
  shows "n < 2 ^ 20"
proof -
  have "16 * n \<le> d" using szx_bytes_bounds [OF assms(4)] assms(1) by (metis mult.commute mult_le_mono1)
  with assms(2,3) show ?thesis by (auto simp: body_limit_def)
qed

lemma sending_num: "sending t N d \<Longrightarrow> unat (bt_next_num t) < 2 ^ 20"
  using num_bound [of "unat (bt_next_num t)" "bt_szx t" d N] unfolding sending_def by blast

definition issued_block :: "'t block_transfer \<Rightarrow> nat \<Rightarrow> block_value" where
  "issued_block t d =
     \<lparr>bv_num = bt_next_num t, bv_more = (d + szx_bytes (bt_szx t) < bt_filled t), bv_szx = bt_szx t\<rparr>"

lemma issue_next:
  assumes s: "sending t N d"
  shows "issue_outgoing t =
      (Inr (issued_block t d, d, min (N - d) (szx_bytes (bt_szx t))),
       t\<lparr>bt_num := bt_next_num t, bt_more := d + szx_bytes (bt_szx t) < N, bt_next_num := bt_next_num t + 1,
         bt_complete := \<not> d + szx_bytes (bt_szx t) < N\<rparr>)"
proof -
  let ?s = "szx_bytes (bt_szx t)"
  have f: "is_outgoing (bt_role t)" "\<not> is_q_block (bt_role t)" "\<not> bt_complete t" "bt_szx t \<le> 6"
    "bt_q t = None" "bt_filled t = N" "unat (bt_next_num t) * ?s = d" "d < N \<or> (d = 0 \<and> N = 0)"
    "N \<le> body_limit"
    using s by (simp_all add: sending_def)
  have n: "unat (bt_next_num t) < 2 ^ 20" by (rule sending_num [OF s])
  have r: "outgoing_range t (bt_next_num t) = Inr (issued_block t d, d, min (N - d) ?s)"
    using f n
    by (auto simp: outgoing_range_def size_from_szx_ok map_err_def block_offset_ok block_new_ok
        issued_block_def body_limit_def usize_max_def Let_def less_diff_conv add.commute)
  have nq: "\<not> q_observe_recovery u \<or> bt_role u \<noteq> bt_role t" for u :: "'a block_transfer"
    using f(2) by (auto simp: q_observe_recovery_def q_observe_confirmable_def q_observe_sequence_def is_q_block_def)
  show ?thesis
    using f n r u32_next [OF n] szx_not_bert [OF f(4)] nq
    by (simp add: issue_outgoing_def issue_range_def bt_is_bert_def Let_def issued_block_def)
qed

lemma sending_issued:
  assumes "sending t N d" "d + szx_bytes (bt_szx t) < N"
  shows "sending (snd (issue_outgoing t)) N (d + szx_bytes (bt_szx t))"
proof -
  have "unat (bt_next_num t) < 2 ^ 20" by (rule sending_num [OF assms(1)])
  then have "unat (bt_next_num t + 1) = unat (bt_next_num t) + 1" by (simp add: u32_next)
  then show ?thesis
    using assms by (simp add: issue_next [OF assms(1)]) (simp add: sending_def)
qed

lemma adopt_sending:
  assumes "sending t N d"
  shows "\<exists>z n. snd (adopt_smaller_szx t szx) = t\<lparr>bt_szx := z, bt_next_num := n\<rparr> \<and> z \<le> bt_szx t \<and>
    sending (t\<lparr>bt_szx := z, bt_next_num := n\<rparr>) N d"
proof (cases "szx < bt_szx t")
  case False
  then have "snd (adopt_smaller_szx t szx) = t" by (simp add: adopt_smaller_szx_def)
  with assms show ?thesis by (intro exI [of _ "bt_szx t"] exI [of _ "bt_next_num t"]) simp
next
  case True
  have f: "is_outgoing (bt_role t)" "\<not> is_q_block (bt_role t)" "\<not> bt_complete t" "bt_szx t \<le> 6"
    "unat (bt_next_num t) * szx_bytes (bt_szx t) = d" "d < N \<or> (d = 0 \<and> N = 0)" "N \<le> body_limit"
    using assms by (simp_all add: sending_def)
  have z: "szx \<le> 6" using True f(4) by (meson order.strict_implies_order order_trans)
  have dvd: "szx_bytes szx dvd d" using szx_bytes_dvd [of szx "bt_szx t"] True f(5) by (auto intro: dvd_mult)
  let ?n = "d div szx_bytes szx"
  have n: "?n < 2 ^ 20" using num_bound [of ?n szx d N] dvd f(6,7) z by simp
  have "snd (adopt_smaller_szx t szx) = t\<lparr>bt_szx := szx, bt_next_num := of_nat ?n\<rparr>"
    using f True z dvd n szx_not_bert [OF f(4)]
    by (auto simp: adopt_smaller_szx_def bt_is_bert_def size_from_szx_ok map_err_def ok_or_def checked_mul_def
        body_limit_def usize_max_def u32_try_from_def dvd_eq_mod_eq_0)
  moreover have "unat (of_nat ?n :: u32) = ?n" using n by (simp add: unat_of_nat)
  then have "sending (t\<lparr>bt_szx := szx, bt_next_num := of_nat ?n\<rparr>) N d"
    using assms z dvd by (simp add: sending_def)
  ultimately show ?thesis using True by (intro exI [of _ szx] exI [of _ "of_nat ?n"]) simp
qed

lemma accept_next:
  assumes r: "receiving t d" and szx: "szx \<le> bt_szx t"
    and num: "unat num * szx_bytes szx = d" "unat num < 2 ^ 20"
    and len: "if m then n = szx_bytes szx else n \<le> szx_bytes szx" and cap: "d + n \<le> cap" "cap \<le> usize_max"
  shows "accept_incoming t \<lparr>bv_num = num, bv_more = m, bv_szx = szx\<rparr> n cap =
    (Inr d, t\<lparr>bt_szx := szx, bt_num := num, bt_more := m, bt_filled := d + n, bt_next_num := num + 1,
              bt_complete := \<not> m\<rparr>)"
proof -
  have f: "is_incoming (bt_role t)" "\<not> is_q_block (bt_role t)" "\<not> bt_complete t" "bt_szx t \<le> 6"
    "bt_filled t = d" "unat (bt_next_num t) * szx_bytes (bt_szx t) = d"
    using r by (simp_all add: receiving_def)
  have z: "szx \<le> 6" using szx f(4) by simp
  have off: "block_offset num (szx_bytes szx) = Inr d"
    using num(1) cap by (simp add: block_offset_ok)
  have same: "num = bt_next_num t" if "szx = bt_szx t"
  proof -
    have "unat num * szx_bytes szx = unat (bt_next_num t) * szx_bytes szx" using that f(6) num(1) by simp
    then show ?thesis by (simp add: word_unat_eq_iff)
  qed
  let ?t = "t\<lparr>bt_szx := szx, bt_next_num := num\<rparr>"
  have a: "adopt_incoming_szx t \<lparr>bv_num = num, bv_more = m, bv_szx = szx\<rparr> = Inr ?t"
    using szx off f(5) same szx_not_bert [OF f(4)] block_size_ok [OF z]
    by (auto simp: adopt_incoming_szx_def bt_is_bert_def)
  have e: "incoming_end num (szx_bytes szx) n cap = Inr (d, d + n)"
    using off cap by (simp add: incoming_end_def ok_or_def checked_add_def)
  show ?thesis
    using f a e len u32_next [OF num(2)] block_size_ok [OF z]
    by (auto simp: accept_incoming_def accept_at_def Let_def split: if_splits)
qed

lemma receiving_accepted:
  assumes "receiving t d" "szx \<le> bt_szx t" "unat num * szx_bytes szx = d" "unat num < 2 ^ 20"
  shows "receiving (t\<lparr>bt_szx := szx, bt_num := num, bt_more := m, bt_filled := d + szx_bytes szx,
      bt_next_num := num + 1, bt_complete := False\<rparr>) (d + szx_bytes szx)"
  using assms u32_next [OF assms(4)] by (auto simp: receiving_def)

section \<open>Pools\<close>

definition body_pool_inv :: "nat \<Rightarrow> 't body_pool \<Rightarrow> bool" where
  "body_pool_inv BYTES p \<longleftrightarrow>
     occ_inv (bp_occ p) \<and> occ_slot_count (bp_occ p) = length (bp_lens p) \<and>
     length (bp_bytes p) = length (bp_lens p) \<and> length (bp_transfers p) = length (bp_lens p) \<and>
     (\<forall>b\<in>set (bp_bytes p). length b = BYTES)"

definition slot_matches :: "'t body_pool \<Rightarrow> ('t block_transfer \<Rightarrow> bool) \<Rightarrow> slot_id \<Rightarrow> bool" where
  "slot_matches p P i \<longleftrightarrow> (case body_transfer p i of Some t \<Rightarrow> P t | None \<Rightarrow> False)"

lemma body_find_find: "body_find p P = find (slot_matches p P) [0..<length (bp_lens p)]"
  unfolding body_find_def
  by (rule find_map_if) (simp add: slot_matches_def split: option.split)

lemma body_find_Some:
  "body_find p P = Some i \<longleftrightarrow> i < length (bp_lens p) \<and> slot_matches p P i \<and> (\<forall>j<i. \<not> slot_matches p P j)"
  by (auto simp: body_find_find find_upt_Some_iff)

lemma body_find_None: "body_find p P = None \<longleftrightarrow> (\<forall>i<length (bp_lens p). \<not> slot_matches p P i)"
  by (auto simp: body_find_find find_None_iff)

lemma body_transfer_at:
  assumes "length (bp_transfers p) = length (bp_lens p)" "occ_slot_count (bp_occ p) = length (bp_lens p)"
  shows "body_transfer p i =
    (if occ_is_occupied (bp_occ p) i then map_option without_static_body (bp_transfers p ! i) else None)"
  using assms by (auto simp: body_transfer_def occ_flags get_at_def)

lemma without_static_id [simp]: "bt_q_receive t = RetainNone \<Longrightarrow> without_static_body t = t"
  by (simp add: without_static_body_def clear_static_body_def)

lemma body_acquire_free:
  assumes inv: "body_pool_inv BYTES p" and free: "j < length (bp_lens p)" "\<not> occ_is_occupied (bp_occ p) j"
  obtains i occ where "i < length (bp_lens p)" "\<not> occ_is_occupied (bp_occ p) i"
    "body_acquire p = (Some i, body_reset (p\<lparr>bp_occ := occ\<rparr>) i)" "occ_inv occ"
    "occ_slot_count occ = length (bp_lens p)"
    "\<forall>k. occ_is_occupied occ k \<longleftrightarrow> k = i \<or> occ_is_occupied (bp_occ p) k"
proof -
  have o: "occ_inv (bp_occ p)" "occ_slot_count (bp_occ p) = length (bp_lens p)"
    using inv by (simp_all add: body_pool_inv_def)
  obtain r occ where a: "occ_acquire (bp_occ p) = (r, occ)" by fastforce
  have i: "occ_inv occ" by (rule occ_inv_acquire [OF o(1) a])
  from o(1) a show thesis
  proof (cases rule: occ_acquire_cases)
    case 1
    with free o(2) show thesis by simp
  next
    case (2 i)
    from 2 o(2) have "i < length (bp_lens p)" by simp
    moreover have "body_acquire p = (Some i, body_reset (p\<lparr>bp_occ := occ\<rparr>) i)"
      using a 2(1) by (simp add: body_acquire_def)
    moreover have "occ_slot_count occ = length (bp_lens p)" using 2 o(2) by (simp add: occ_slot_count_def)
    moreover have "\<forall>k. occ_is_occupied occ k \<longleftrightarrow> k = i \<or> occ_is_occupied (bp_occ p) k"
      using 2 by (auto simp: occ_flags nth_list_update)
    ultimately show thesis using that 2(3) i by blast
  qed
qed

text \<open>Writing a slot: the invariant, and where the body is found afterwards.\<close>

lemma put_slot:
  assumes inv: "body_pool_inv BYTES R" and j: "j < length (bp_lens R)"
    and occ: "occ_inv occ" "occ_slot_count occ = length (bp_lens R)"
      "\<forall>i. occ_is_occupied occ i \<longleftrightarrow> i = j \<or> occ_is_occupied (bp_occ R) i"
    and t: "bt_key t = k" "bt_role t = rr" "bt_q_receive t = RetainNone"
    and buf: "length buf = BYTES" and old: "lookup_role R k rr = None \<or> lookup_role R k rr = Some j"
    and R': "R' = R\<lparr>bp_occ := occ, bp_bytes := (bp_bytes R)[j := buf], bp_lens := (bp_lens R)[j := n],
      bp_transfers := (bp_transfers R)[j := Some t]\<rparr>"
  shows "body_pool_inv BYTES R'" "lookup_role R' k rr = Some j" "body_transfer R' j = Some t"
proof -
  have l: "length (bp_transfers R) = length (bp_lens R)" "length (bp_bytes R) = length (bp_lens R)"
    using inv by (simp_all add: body_pool_inv_def)
  show "body_transfer R' j = Some t" using l j occ t by (simp add: R' body_transfer_def get_at_def)
  show "body_pool_inv BYTES R'"
    using inv j l occ buf by (auto simp: R' body_pool_inv_def dest!: set_update_subset_insert [THEN subsetD])
  have "slot_matches R' Q i = (if i = j then Q t else slot_matches R Q i)" for Q i
    using j l occ t(3) by (auto simp: R' slot_matches_def body_transfer_def get_at_def)
  then show "lookup_role R' k rr = Some j"
    using old j t by (auto simp: R' lookup_role_def body_find_Some body_find_None)
qed

lemma put_slot_occupied:
  assumes inv: "body_pool_inv BYTES R" and old: "lookup_role R k rr = Some j" and o: "occ_is_occupied (bp_occ R) j"
    and t: "bt_key t = k" "bt_role t = rr" "bt_q_receive t = RetainNone" and buf: "length buf = BYTES"
    and R': "R' = R\<lparr>bp_transfers := (bp_transfers R)[j := Some t], bp_bytes := (bp_bytes R)[j := buf],
      bp_lens := (bp_lens R)[j := n]\<rparr>"
  shows "body_pool_inv BYTES R'" "lookup_role R' k rr = Some j"
proof -
  have j: "j < length (bp_lens R)" using old by (simp add: lookup_role_def body_find_Some)
  have i: "occ_inv (bp_occ R)" "occ_slot_count (bp_occ R) = length (bp_lens R)" using inv by (simp_all add: body_pool_inv_def)
  have "\<forall>i. occ_is_occupied (bp_occ R) i \<longleftrightarrow> i = j \<or> occ_is_occupied (bp_occ R) i" using o by blast
  note p = put_slot [OF inv j i this t buf disjI2 [OF old], of R' n]
  show "body_pool_inv BYTES R'" "lookup_role R' k rr = Some j" by (rule p(1), simp add: R') (rule p(2), simp add: R')
qed

lemma with_transfer_at:
  assumes "occ_is_occupied (bp_occ p) i" "bp_transfers p ! i = Some t" "bt_role t = r" "f t = (res, t')"
  shows "with_transfer p i r f =
    (map_ok (\<lambda>x. (x, t')) res, p\<lparr>bp_transfers := (bp_transfers p)[i := Some t']\<rparr>)"
  using assms by (simp add: with_transfer_def)

definition holds_body :: "'t body_pool \<Rightarrow> slot_id \<Rightarrow> 't block_transfer \<Rightarrow> bytes \<Rightarrow> bool" where
  "holds_body p i t body \<longleftrightarrow>
     occ_is_occupied (bp_occ p) i \<and> i < length (bp_transfers p) \<and> bp_transfers p ! i = Some t \<and>
     body_payload p i = Some body"

lemma holds_body_update:
  assumes "holds_body p i t body" "bt_q_receive t' = bt_q_receive t"
  shows "holds_body (p\<lparr>bp_transfers := (bp_transfers p)[i := Some t']\<rparr>) i t' body"
  using assms by (auto simp: holds_body_def body_payload_def body_view_def slot_static_body_def static_body_def
      split: option.splits body_retention.splits)

section \<open>Rounds of a transfer\<close>

text \<open>
  One round: the sender adopts the smaller size the receiver asked for, if any, and issues its next
  range; the receiver takes the block and its payload in.
\<close>

definition classic_round ::
  "nat \<Rightarrow> 't block_key \<Rightarrow> block_role \<Rightarrow> block_role \<Rightarrow> slot_id \<Rightarrow> u32 option \<Rightarrow> u8 option \<Rightarrow>
     't body_pool \<times> 't body_pool \<Rightarrow> (block_error + block_progress) \<times> 't body_pool \<times> 't body_pool" where
  "classic_round BYTES k rs rr i expected_len req PR =
     (case PR of (P, R) \<Rightarrow>
        let P = (case req of None \<Rightarrow> P | Some szx \<Rightarrow> snd (adopt_smaller_outgoing_szx P i rs szx)) in
        case next_outgoing P i rs of
          (Inl e, P) \<Rightarrow> (Inl e, P, R)
        | (Inr ob, P) \<Rightarrow>
            (case body_payload P i of
               None \<Rightarrow> (Inl BE_NoTransfer, P, R)
             | Some body \<Rightarrow>
                 (case apply_incoming BYTES R k rr (og_block ob) (take (og_len ob) (drop (og_offset ob) body))
                         expected_len of
                    (res, R) \<Rightarrow> (res, P, R))))"

fun classic_run ::
  "nat \<Rightarrow> 't block_key \<Rightarrow> block_role \<Rightarrow> block_role \<Rightarrow> slot_id \<Rightarrow> u32 option \<Rightarrow> u8 option list \<Rightarrow>
     't body_pool \<times> 't body_pool \<Rightarrow> (block_error + block_progress) option \<times> 't body_pool \<times> 't body_pool" where
  "classic_run BYTES k rs rr i expected_len [] PR = (None, PR)"
| "classic_run BYTES k rs rr i expected_len (req # reqs) PR =
     (case classic_round BYTES k rs rr i expected_len req PR of
        (Inl e, PR) \<Rightarrow> (Some (Inl e), PR)
      | (Inr pg, PR) \<Rightarrow>
          if pg_complete pg then (Some (Inr pg), PR)
          else classic_run BYTES k rs rr i expected_len reqs PR)"

lemma issue_round:
  assumes h: "holds_body P i t body" and s: "sending t (length body) d"
    and P1: "P1 = (case req of None \<Rightarrow> P | Some szx \<Rightarrow> snd (adopt_smaller_outgoing_szx P i (bt_role t) szx))"
  obtains t1 where "bt_szx t1 \<le> bt_szx t" "sending t1 (length body) d" "bt_role t1 = bt_role t"
    "next_outgoing P1 i (bt_role t) =
       (Inr \<lparr>og_id = i, og_block = issued_block t1 d, og_offset = d,
             og_len = min (length body - d) (szx_bytes (bt_szx t1)),
             og_complete = (\<not> d + szx_bytes (bt_szx t1) < length body)\<rparr>,
        P\<lparr>bp_transfers := (bp_transfers P)[i := Some (snd (issue_outgoing t1))]\<rparr>)"
    "holds_body (P\<lparr>bp_transfers := (bp_transfers P)[i := Some (snd (issue_outgoing t1))]\<rparr>) i
       (snd (issue_outgoing t1)) body"
proof -
  obtain t1 where t1: "P1 = P\<lparr>bp_transfers := (bp_transfers P)[i := Some t1]\<rparr>" "bt_szx t1 \<le> bt_szx t"
    "sending t1 (length body) d" "bt_role t1 = bt_role t" "bt_q_receive t1 = bt_q_receive t"
  proof (cases req)
    case None
    have "(bp_transfers P)[i := Some t] = bp_transfers P"
      using h by (metis holds_body_def list_update_id)
    with that [of t] None s P1 show thesis by simp
  next
    case (Some z)
    obtain y n where y: "snd (adopt_smaller_szx t z) = t\<lparr>bt_szx := y, bt_next_num := n\<rparr>" "y \<le> bt_szx t"
      "sending (t\<lparr>bt_szx := y, bt_next_num := n\<rparr>) (length body) d"
      using adopt_sending [OF s, of z] by blast
    obtain res where "adopt_smaller_szx t z = (res, t\<lparr>bt_szx := y, bt_next_num := n\<rparr>)"
      using y(1) by (cases "adopt_smaller_szx t z") simp
    then have "P1 = P\<lparr>bp_transfers := (bp_transfers P)[i := Some (t\<lparr>bt_szx := y, bt_next_num := n\<rparr>)]\<rparr>"
      using h Some P1 by (simp add: adopt_smaller_outgoing_szx_def holds_body_def with_transfer_at)
    with y show thesis by (intro that [of "t\<lparr>bt_szx := y, bt_next_num := n\<rparr>"]) simp_all
  qed
  have h1: "holds_body P1 i t1 body"
    unfolding t1(1) by (rule holds_body_update [OF h t1(5)])
  have q: "\<not> is_q_block (bt_role t)" "bt_filled t1 = length body"
    using s t1(3) by (simp_all add: sending_def)
  note n = issue_next [OF t1(3)]
  have "next_outgoing P1 i (bt_role t) =
       (Inr \<lparr>og_id = i, og_block = issued_block t1 d, og_offset = d,
             og_len = min (length body - d) (szx_bytes (bt_szx t1)),
             og_complete = (\<not> d + szx_bytes (bt_szx t1) < length body)\<rparr>,
        P1\<lparr>bp_transfers := (bp_transfers P1)[i := Some (snd (issue_outgoing t1))]\<rparr>)"
    using h1 q t1(4)
    by (simp add: next_outgoing_def holds_body_def with_transfer_at [where f = issue_outgoing, OF _ _ _ n] n map_ok_def outgoing_block_of_def)
  moreover have "P1\<lparr>bp_transfers := (bp_transfers P1)[i := Some (snd (issue_outgoing t1))]\<rparr> =
      P\<lparr>bp_transfers := (bp_transfers P)[i := Some (snd (issue_outgoing t1))]\<rparr>"
    by (simp add: t1(1))
  moreover have "holds_body (P1\<lparr>bp_transfers := (bp_transfers P1)[i := Some (snd (issue_outgoing t1))]\<rparr>) i
      (snd (issue_outgoing t1)) body"
    by (rule holds_body_update [OF h1]) (simp add: n)
  ultimately show thesis using that t1(2,3,4) by simp
qed

text \<open>What the receiving pool knows of a transfer of which the first \<open>d\<close> bytes have arrived.\<close>

definition assembling :: "nat \<Rightarrow> 't body_pool \<Rightarrow> 't block_key \<Rightarrow> block_role \<Rightarrow> 't block_transfer \<Rightarrow> slot_id \<Rightarrow> bytes \<Rightarrow> bool" where
  "assembling BYTES R k rr t j got \<longleftrightarrow>
     body_pool_inv BYTES R \<and> lookup_role R k rr = Some j \<and> occ_is_occupied (bp_occ R) j \<and>
     bp_transfers R ! j = Some t \<and> bt_key t = k \<and> bt_role t = rr \<and> bt_q_receive t = RetainNone \<and>
     take (length got) (bp_bytes R ! j) = got \<and> bp_lens R ! j = length got \<and> bt_filled t = length got"

lemma assembling_payload: "assembling BYTES R k rr t j got \<Longrightarrow> body_payload R j = Some got"
  by (simp add: assembling_def body_payload_def body_view_def slot_static_body_def static_body_def)

lemma assembling_write:
  assumes a: "assembling BYTES R k rr t j got" and nq: "\<not> is_q_block rr" and B: "BYTES \<le> usize_max"
    and acc: "accept_incoming t block (length payload) BYTES = (Inr (length got), t')"
    and t': "bt_key t' = bt_key t" "bt_role t' = bt_role t" "bt_q_receive t' = bt_q_receive t"
      "bt_filled t' = length got + length payload"
    and fit: "length got + length payload \<le> BYTES"
  obtains R' where "apply_incoming BYTES R k rr block payload x =
      (Inr \<lparr>pg_id = j, pg_filled = bt_filled t', pg_complete = bt_complete t'\<rparr>, R')"
    "assembling BYTES R' k rr t' j (got @ payload)"
proof -
  have f: "body_pool_inv BYTES R" "lookup_role R k rr = Some j" "occ_is_occupied (bp_occ R) j"
    "bp_transfers R ! j = Some t" "bt_key t = k" "bt_role t = rr" "bt_q_receive t = RetainNone"
    "take (length got) (bp_bytes R ! j) = got" "bp_lens R ! j = length got"
    using a by (simp_all add: assembling_def)
  have j: "j < length (bp_lens R)" using f(2) by (simp add: lookup_role_def body_find_Some)
  have l: "length (bp_transfers R) = length (bp_lens R)" "length (bp_bytes R) = length (bp_lens R)"
    "occ_slot_count (bp_occ R) = length (bp_lens R)" "length (bp_bytes R ! j) = BYTES"
    using f(1) j by (simp_all add: body_pool_inv_def)
  have bt: "body_transfer R j = Some t" using f(3,4,7) by (simp add: body_transfer_at l)
  let ?R = "R\<lparr>bp_transfers := (bp_transfers R)[j := Some t'],
      bp_bytes := (bp_bytes R)[j := blit (bp_bytes R ! j) (length got) payload],
      bp_lens := (bp_lens R)[j := length got + length payload]\<rparr>"
  have "apply_incoming BYTES R k rr block payload x =
      (Inr \<lparr>pg_id = j, pg_filled = bt_filled t', pg_complete = bt_complete t'\<rparr>, ?R)"
    using f nq bt acc fit l B
    by (simp add: apply_incoming_def write_incoming_def accept_incoming_role_def store_incoming_def checked_add_def)
  moreover have "body_pool_inv BYTES ?R" "lookup_role ?R k rr = Some j"
    by (rule put_slot_occupied [OF f(1,2,3), of t'], use f t' fit l(4) in simp_all)+
  moreover have "take (length got + length payload) (blit (bp_bytes R ! j) (length got) payload) = got @ payload"
    using f(8) l(4) fit by simp
  ultimately show thesis
    using that [of ?R] j l f t' by (simp add: assembling_def)
qed

definition fresh_for :: "nat \<Rightarrow> 't body_pool \<Rightarrow> 't block_key \<Rightarrow> block_role \<Rightarrow> bool" where
  "fresh_for BYTES R k rr \<longleftrightarrow>
     body_pool_inv BYTES R \<and> lookup_role R k rr = None \<and> lookup_identity R k rr = None \<and>
     (\<exists>j<length (bp_lens R). \<not> occ_is_occupied (bp_occ R) j)"

lemma assembling_admit:
  assumes fr: "fresh_for BYTES R k rr" and nq: "\<not> is_q_block rr" and B: "BYTES \<le> usize_max"
    and st: "incoming k rr block (length payload) BYTES x = Inr t"
    and t: "bt_key t = k" "bt_role t = rr" "bt_q_receive t = RetainNone" "bt_filled t = length payload"
    and fit: "length payload \<le> BYTES"
  obtains j R' where "apply_incoming BYTES R k rr block payload x =
      (Inr \<lparr>pg_id = j, pg_filled = bt_filled t, pg_complete = bt_complete t\<rparr>, R')"
    "assembling BYTES R' k rr t j payload"
proof -
  have f: "body_pool_inv BYTES R" "lookup_role R k rr = None" "lookup_identity R k rr = None"
    using fr by (simp_all add: fresh_for_def)
  obtain j0 where j0: "j0 < length (bp_lens R)" "\<not> occ_is_occupied (bp_occ R) j0"
    using fr by (auto simp: fresh_for_def)
  obtain j occ where a: "j < length (bp_lens R)" "\<not> occ_is_occupied (bp_occ R) j"
    "body_acquire R = (Some j, body_reset (R\<lparr>bp_occ := occ\<rparr>) j)" "occ_inv occ"
    "occ_slot_count occ = length (bp_lens R)" "\<forall>k. occ_is_occupied occ k \<longleftrightarrow> k = j \<or> occ_is_occupied (bp_occ R) k"
    by (rule body_acquire_free [OF f(1) j0])
  have l: "length (bp_transfers R) = length (bp_lens R)" "length (bp_bytes R) = length (bp_lens R)"
    "occ_slot_count (bp_occ R) = length (bp_lens R)" "length (bp_bytes R ! j) = BYTES"
    using f(1) a(1) by (simp_all add: body_pool_inv_def)
  let ?R = "R\<lparr>bp_occ := occ, bp_bytes := (bp_bytes R)[j := blit (bp_bytes R ! j) 0 payload],
      bp_lens := (bp_lens R)[j := length payload], bp_transfers := (bp_transfers R)[j := Some t]\<rparr>"
  have bt: "body_transfer ?R j = Some t"
    by (rule put_slot(3) [OF f(1) a(1,4,5,6) t(1-3)], use f(2) fit l(4) in \<open>simp_all del: blit_0\<close>)
  have "admit_incoming BYTES R k rr block payload x = (Inr j, ?R)"
    using a l st nq fit B
    by (simp add: admit_incoming_def start_incoming_def store_incoming_def checked_add_def body_reset_def del: blit_0)
  then have "apply_incoming BYTES R k rr block payload x =
      (Inr \<lparr>pg_id = j, pg_filled = bt_filled t, pg_complete = bt_complete t\<rparr>, ?R)"
    using f bt by (simp add: apply_incoming_def)
  moreover have "body_pool_inv BYTES ?R" "lookup_role ?R k rr = Some j"
    by (rule put_slot [OF f(1) a(1,4,5,6) t(1-3)], use f(2) fit l(4) in \<open>simp_all del: blit_0\<close>)+
  ultimately show thesis
    using that [of j ?R] a l t fit by (simp add: assembling_def)
qed

text \<open>The receiver is ready for the byte at offset \<open>d\<close>, in blocks no larger than \<open>szx\<close>.\<close>

definition ready :: "nat \<Rightarrow> 't body_pool \<Rightarrow> 't block_key \<Rightarrow> block_role \<Rightarrow> bytes \<Rightarrow> nat \<Rightarrow> u8 \<Rightarrow> bool" where
  "ready BYTES R k rr body d szx \<longleftrightarrow>
     (d = 0 \<and> fresh_for BYTES R k rr) \<or>
     (\<exists>u j. assembling BYTES R k rr u j (take d body) \<and> receiving u d \<and> szx \<le> bt_szx u)"

lemma ready_takes:
  assumes r: "ready BYTES R k rr body d szx" and rr: "is_incoming rr" "\<not> is_q_block rr" and B: "BYTES \<le> usize_max"
    and z: "szx \<le> 6" and num: "unat num * szx_bytes szx = d" "unat num < 2 ^ 20"
    and d: "d < length body \<or> (d = 0 \<and> length body = 0)" and fit: "length body \<le> BYTES"
    and m: "m \<longleftrightarrow> d + szx_bytes szx < length body" and n: "n = min (length body - d) (szx_bytes szx)"
  shows "\<exists>j R' u. apply_incoming BYTES R k rr \<lparr>bv_num = num, bv_more = m, bv_szx = szx\<rparr> (take n (drop d body)) x =
      (Inr \<lparr>pg_id = j, pg_filled = d + n, pg_complete = (\<not> m)\<rparr>, R') \<and>
      assembling BYTES R' k rr u j (take (d + n) body) \<and> (m \<longrightarrow> receiving u (d + n) \<and> bt_szx u = szx)"
proof -
  let ?b = "\<lparr>bv_num = num, bv_more = m, bv_szx = szx\<rparr>" and ?p = "take n (drop d body)"
  have p: "length ?p = n" "take d body @ ?p = take (d + n) body" and ld: "length (take d body) = d"
    and dn: "d + n \<le> BYTES"
    using d n fit by (auto simp: take_add)
  have len: "if m then n = szx_bytes szx else n \<le> szx_bytes szx" using m n by auto
  let ?u = "\<lambda>u. u\<lparr>bt_szx := szx, bt_num := num, bt_more := m, bt_filled := d + n, bt_next_num := num + 1,
              bt_complete := \<not> m\<rparr>"
  have acc: "accept_incoming u ?b n BYTES = (Inr d, ?u u)" if "receiving u d" "szx \<le> bt_szx u" for u :: "'a block_transfer"
    by (rule accept_next [OF that num len dn B])
  have rec: "m \<longrightarrow> receiving (?u u) (d + n) \<and> bt_szx (?u u) = szx"
    if "receiving u d" "szx \<le> bt_szx u" for u :: "'a block_transfer"
    using receiving_accepted [OF that num] len by auto
  from r consider "d = 0" "fresh_for BYTES R k rr"
    | u j where "assembling BYTES R k rr u j (take d body)" "receiving u d" "szx \<le> bt_szx u"
    by (auto simp: ready_def)
  then show ?thesis
  proof cases
    case 1
    let ?t = "transfer_new k rr szx m 0 x None"
    have t: "receiving ?t d" "szx \<le> bt_szx ?t" using rr z 1(1) by (simp_all add: receiving_def transfer_new_def)
    have num0: "num = 0" using num(1) 1(1) by (simp add: unat_eq_0)
    have "incoming k rr ?b (length ?p) BYTES x = Inr (?u ?t)"
      using acc [OF t] rr num0 p(1) by (simp add: incoming_def)
    then obtain j R' where "apply_incoming BYTES R k rr ?b ?p x =
        (Inr \<lparr>pg_id = j, pg_filled = bt_filled (?u ?t), pg_complete = bt_complete (?u ?t)\<rparr>, R')"
      "assembling BYTES R' k rr (?u ?t) j ?p"
      by (rule assembling_admit [OF 1(2) rr(2) B]) (use 1(1) dn p(1) in \<open>simp_all add: transfer_new_def\<close>)
    with rec [OF t] p(2) 1(1) show ?thesis by (intro exI [of _ j] exI [of _ R'] exI [of _ "?u ?t"]) simp
  next
    case (2 u j)
    have "accept_incoming u ?b (length ?p) BYTES = (Inr (length (take d body)), ?u u)"
      using acc [OF 2(2,3)] p(1) ld by simp
    then obtain R' where "apply_incoming BYTES R k rr ?b ?p x =
        (Inr \<lparr>pg_id = j, pg_filled = bt_filled (?u u), pg_complete = bt_complete (?u u)\<rparr>, R')"
      "assembling BYTES R' k rr (?u u) j (take d body @ ?p)"
      by (rule assembling_write [OF 2(1) rr(2) B]) (use dn p(1) ld in simp_all)
    with rec [OF 2(2,3)] p(2) show ?thesis by (intro exI [of _ j] exI [of _ R'] exI [of _ "?u u"]) simp
  qed
qed

lemma classic_round_step:
  assumes h: "holds_body P i t body" and s: "sending t (length body) d" and rs: "rs = bt_role t"
    and r: "ready BYTES R k rr body d (bt_szx t)" and rr: "is_incoming rr" "\<not> is_q_block rr"
    and B: "BYTES \<le> usize_max" and fit: "length body \<le> BYTES"
  obtains e j P' R' u where "d + 16 \<le> e \<or> e = length body" "e \<le> length body"
    "classic_round BYTES k rs rr i x req (P, R) =
       (Inr \<lparr>pg_id = j, pg_filled = e, pg_complete = (e = length body)\<rparr>, P', R')"
    "assembling BYTES R' k rr u j (take e body)"
    "e \<noteq> length body \<Longrightarrow> \<exists>t'. holds_body P' i t' body \<and> sending t' (length body) e \<and> rs = bt_role t' \<and>
       ready BYTES R' k rr body e (bt_szx t')"
proof -
  let ?N = "length body"
  obtain P1 where P1: "P1 = (case req of None \<Rightarrow> P | Some szx \<Rightarrow> snd (adopt_smaller_outgoing_szx P i (bt_role t) szx))"
    by blast
  obtain t1 where t1: "bt_szx t1 \<le> bt_szx t" "sending t1 ?N d" "bt_role t1 = bt_role t"
    "next_outgoing P1 i (bt_role t) =
       (Inr \<lparr>og_id = i, og_block = issued_block t1 d, og_offset = d,
             og_len = min (?N - d) (szx_bytes (bt_szx t1)),
             og_complete = (\<not> d + szx_bytes (bt_szx t1) < ?N)\<rparr>,
        P\<lparr>bp_transfers := (bp_transfers P)[i := Some (snd (issue_outgoing t1))]\<rparr>)"
    "holds_body (P\<lparr>bp_transfers := (bp_transfers P)[i := Some (snd (issue_outgoing t1))]\<rparr>) i
       (snd (issue_outgoing t1)) body"
    by (rule issue_round [OF h s P1])
  let ?P = "P\<lparr>bp_transfers := (bp_transfers P)[i := Some (snd (issue_outgoing t1))]\<rparr>"
  let ?s = "szx_bytes (bt_szx t1)" and ?m = "d + szx_bytes (bt_szx t1) < ?N" and ?n = "min (?N - d) (szx_bytes (bt_szx t1))"
  have f: "bt_szx t1 \<le> 6" "unat (bt_next_num t1) * ?s = d" "d < ?N \<or> (d = 0 \<and> ?N = 0)" "bt_filled t1 = ?N"
    using t1(2) by (simp_all add: sending_def)
  have r1: "ready BYTES R k rr body d (bt_szx t1)" using r t1(1) by (auto simp: ready_def)
  obtain j R' u where a: "apply_incoming BYTES R k rr \<lparr>bv_num = bt_next_num t1, bv_more = ?m, bv_szx = bt_szx t1\<rparr>
        (take ?n (drop d body)) x = (Inr \<lparr>pg_id = j, pg_filled = d + ?n, pg_complete = (\<not> ?m)\<rparr>, R')"
      "assembling BYTES R' k rr u j (take (d + ?n) body)" "?m \<longrightarrow> receiving u (d + ?n) \<and> bt_szx u = bt_szx t1"
    using ready_takes [OF r1 rr B f(1,2) sending_num [OF t1(2)] f(3) fit refl refl, of x] by blast
  have fin: "\<not> ?m \<longleftrightarrow> d + ?n = ?N" using f(3) by auto
  have pay: "body_payload ?P i = Some body" using t1(5) by (simp add: holds_body_def)
  have round: "classic_round BYTES k rs rr i x req (P, R) =
      (Inr \<lparr>pg_id = j, pg_filled = d + ?n, pg_complete = (d + ?n = ?N)\<rparr>, ?P, R')"
    using t1(4) a(1) f(4) pay P1 rs fin
    by (simp add: classic_round_def issued_block_def Let_def)
  have more: "\<exists>t'. holds_body ?P i t' body \<and> sending t' ?N (d + ?n) \<and> rs = bt_role t' \<and>
       ready BYTES R' k rr body (d + ?n) (bt_szx t')" if "d + ?n \<noteq> ?N"
  proof -
    have m: ?m and n: "?n = ?s" using that fin by auto
    have "bt_szx (snd (issue_outgoing t1)) = bt_szx t1" "bt_role (snd (issue_outgoing t1)) = bt_role t1"
      by (simp_all add: issue_next [OF t1(2)])
    with sending_issued [OF t1(2) m] t1(3,5) a(2,3) m n rs show ?thesis
      by (intro exI [of _ "snd (issue_outgoing t1)"]) (auto simp: ready_def)
  qed
  have "d + 16 \<le> d + ?n \<or> d + ?n = ?N" "d + ?n \<le> ?N"
    using f(3) szx_bytes_bounds [OF f(1)] by auto
  then show thesis using that round a(2) more by blast
qed

lemma classic_run_delivers:
  assumes "holds_body P i t body" "sending t (length body) d" "rs = bt_role t"
    and "ready BYTES R k rr body d (bt_szx t)" and rr: "is_incoming rr" "\<not> is_q_block rr"
    and B: "BYTES \<le> usize_max" and fit: "length body \<le> BYTES"
    and "length body - d \<le> 16 * length reqs" "reqs \<noteq> []"
  shows "\<exists>j P' R' u. classic_run BYTES k rs rr i x reqs (P, R) =
      (Some (Inr \<lparr>pg_id = j, pg_filled = length body, pg_complete = True\<rparr>), P', R') \<and>
      assembling BYTES R' k rr u j body"
  using assms(1-4,9,10)
proof (induction reqs arbitrary: P R t d)
  case (Cons req reqs)
  obtain e j P' R' u where s: "d + 16 \<le> e \<or> e = length body" "e \<le> length body"
    "classic_round BYTES k rs rr i x req (P, R) =
       (Inr \<lparr>pg_id = j, pg_filled = e, pg_complete = (e = length body)\<rparr>, P', R')"
    "assembling BYTES R' k rr u j (take e body)"
    "e \<noteq> length body \<longrightarrow> (\<exists>t'. holds_body P' i t' body \<and> sending t' (length body) e \<and> rs = bt_role t' \<and>
       ready BYTES R' k rr body e (bt_szx t'))"
    using classic_round_step [OF Cons.prems(1-4) rr B fit, of x req thesis] by blast
  show ?case
  proof (cases "e = length body")
    case True
    with s show ?thesis by auto
  next
    case False
    then obtain t' where t': "holds_body P' i t' body" "sending t' (length body) e" "rs = bt_role t'"
      "ready BYTES R' k rr body e (bt_szx t')" using s(5) by blast
    have "length body - e \<le> 16 * length reqs" using Cons.prems(5) s(1) False by auto
    moreover have "reqs \<noteq> []" using calculation False s(2) by auto
    ultimately show ?thesis using Cons.IH [OF t'] s(3) False by simp
  qed
qed simp

lemma body_pool_inv_new: "body_pool_inv BYTES (body_pool_new SLOTS BYTES)"
  using occ_inv_new [of SLOTS SLOTS]
  by (simp add: body_pool_inv_def body_pool_new_def occ_slot_count_def) (simp add: occ_new_def)

lemma fresh_for_new:
  assumes "0 < SLOTS"
  shows "fresh_for BYTES (body_pool_new SLOTS BYTES) k rr"
proof -
  have f: "\<not> occ_is_occupied (bp_occ (body_pool_new SLOTS BYTES :: 'a body_pool)) i" for i
    by (simp add: body_pool_new_def occ_new_def occ_flags)
  then have "body_find (body_pool_new SLOTS BYTES) Q = None" for Q :: "'a block_transfer \<Rightarrow> bool"
    by (simp add: body_find_None slot_matches_def body_transfer_def)
  moreover have "length (bp_lens (body_pool_new SLOTS BYTES :: 'a body_pool)) = SLOTS"
    by (simp add: body_pool_new_def)
  ultimately show ?thesis
    using f assms by (auto simp: fresh_for_def lookup_role_def lookup_identity_def body_pool_inv_new)
qed

lemma body_acquire_Some:
  assumes "body_pool_inv BYTES p" "body_acquire p = (Some i, p')"
  obtains occ where "p' = body_reset (p\<lparr>bp_occ := occ\<rparr>) i" "i < length (bp_lens p)" "occ_is_occupied occ i"
proof -
  obtain r occ where a: "occ_acquire (bp_occ p) = (r, occ)" by fastforce
  with assms(2) have r: "r = Some i" "p' = body_reset (p\<lparr>bp_occ := occ\<rparr>) i"
    by (auto simp: body_acquire_def split: option.splits)
  have o: "occ_inv (bp_occ p)" "occ_slot_count (bp_occ p) = length (bp_lens p)"
    using assms(1) by (simp_all add: body_pool_inv_def)
  from o(1) a show thesis
    by (cases rule: occ_acquire_cases) (use r o(2) that in \<open>auto simp: occ_flags\<close>)
qed

lemma outgoing_sidecar_classic:
  assumes "outgoing_sidecar BYTES k r body szx = Inr t" "\<not> is_q_block r"
  shows "is_outgoing r" "length body \<le> BYTES" "\<exists>n. t = transfer_new k r szx False (length body) (Some n) None"
  using assms
  by (auto simp: outgoing_sidecar_def outgoing_def outgoing_common_def and_then_Inr_iff split: if_splits option.splits)

lemma started_holds:
  assumes inv: "body_pool_inv BYTES P0" and nq: "\<not> is_q_block rs" and z: "szx \<le> 6" and lim: "length body \<le> body_limit"
    and st: "start_outgoing BYTES P0 k rs body szx = (Inr i, P) \<or> start_outgoing_static BYTES P0 k rs body szx = (Inr i, P)"
  obtains t where "holds_body P i t body" "sending t (length body) 0" "bt_role t = rs" "bt_szx t = szx"
proof -
  obtain t where t: "outgoing_sidecar BYTES k rs body szx = Inr t"
    using st by (auto simp: start_outgoing_def start_outgoing_static_def split: sum.splits if_splits)
  note o = outgoing_sidecar_classic [OF t nq]
  obtain n where n: "t = transfer_new k rs szx False (length body) (Some n) None" using o(3) by blast
  obtain p' where a: "body_acquire P0 = (Some i, p')"
    using st t
    by (auto simp: start_outgoing_def start_outgoing_static_def split: prod.splits option.splits sum.splits if_splits)
  obtain occ where p': "p' = body_reset (P0\<lparr>bp_occ := occ\<rparr>) i" "i < length (bp_lens P0)" "occ_is_occupied occ i"
    by (rule body_acquire_Some [OF inv a])
  have l: "length (bp_transfers P0) = length (bp_lens P0)" "length (bp_bytes P0) = length (bp_lens P0)"
    "length (bp_bytes P0 ! i) = BYTES"
    using inv p'(2) by (simp_all add: body_pool_inv_def)
  have s: "sending t (length body) 0" "sending (retain_static_body t body) (length body) 0"
    using o(1) nq z lim by (auto simp: n transfer_new_def sending_def retain_static_body_def)
  from st show thesis
  proof
    assume "start_outgoing BYTES P0 k rs body szx = (Inr i, P)"
    then have "holds_body P i t body"
      using t a p' l o(2)
      by (auto simp: start_outgoing_def write_range_def body_reset_def holds_body_def body_payload_def
          body_view_def slot_static_body_def n transfer_new_def static_body_def split: option.splits if_splits)
    with s(1) n that show thesis by (simp add: transfer_new_def)
  next
    assume "start_outgoing_static BYTES P0 k rs body szx = (Inr i, P)"
    then have "holds_body P i (retain_static_body t body) body"
      using t a p' l
      by (auto simp: start_outgoing_static_def body_reset_def holds_body_def body_payload_def
          body_view_def slot_static_body_def retain_static_body_def static_body_def split: if_splits)
    with s(2) n that show thesis by (simp add: transfer_new_def retain_static_body_def)
  qed
qed

text \<open>C30: A body that is started for a classic outgoing transfer, copied or static, arrives: every round
  makes progress, whatever smaller block sizes the receiver asks for between the rounds, after at most one
  round per sixteen bytes (and one for an empty body) the receiver reports completion, and its pool then holds
  exactly the body, found under its key and role.\<close>

theorem classic_transfer_delivers:
  assumes "body_pool_inv SBYTES P0" "\<not> is_q_block rs" "szx \<le> 6" "length body \<le> body_limit"
    and "start_outgoing SBYTES P0 k' rs body szx = (Inr i, P) \<or> start_outgoing_static SBYTES P0 k' rs body szx = (Inr i, P)"
    and "fresh_for BYTES R k rr" "is_incoming rr" "\<not> is_q_block rr" "BYTES \<le> usize_max" "length body \<le> BYTES"
    and "length body \<le> 16 * length reqs" "reqs \<noteq> []"
  shows "\<exists>j P' R'. classic_run BYTES k rs rr i x reqs (P, R) =
      (Some (Inr \<lparr>pg_id = j, pg_filled = length body, pg_complete = True\<rparr>), P', R') \<and>
      body_payload R' j = Some body \<and> lookup_role R' k rr = Some j"
proof -
  obtain t where t: "holds_body P i t body" "sending t (length body) 0" "bt_role t = rs" "bt_szx t = szx"
    by (rule started_holds [OF assms(1-5)])
  have "ready BYTES R k rr body 0 (bt_szx t)" using assms(6) by (simp add: ready_def)
  with classic_run_delivers [OF t(1,2) t(3) [symmetric] _ assms(7-10), of R k reqs x] assms(11,12)
  show ?thesis using assembling_payload by (fastforce simp: assembling_def)
qed

theorem classic_transfer_delivers_witness:
  "\<exists>i P j P' R'. start_outgoing 64 (body_pool_new 1 64) (block_key_new token_EMPTY (endpoint_v4 10 0 0 1 5683))
        OutgoingBlock1 (map of_nat [0..<40]) 1 = (Inr i, P) \<and>
      classic_run 48 (block_key_new token_EMPTY (endpoint_v4 10 0 0 2 5683)) OutgoingBlock1 IncomingBlock1 i None
        [Some 0, None, None] (P, body_pool_new 2 48) =
      (Some (Inr \<lparr>pg_id = j, pg_filled = 40, pg_complete = True\<rparr>), P', R') \<and>
      body_payload R' j = Some (map of_nat [0..<40])"
proof -
  let ?k = "block_key_new token_EMPTY (endpoint_v4 10 0 0 1 5683)"
  let ?k2 = "block_key_new token_EMPTY (endpoint_v4 10 0 0 2 5683)"
  have "fst (start_outgoing 64 (body_pool_new 1 64) ?k OutgoingBlock1 (map of_nat [0..<40]) 1) = Inr 0"
    by code_simp
  then obtain P where P: "start_outgoing 64 (body_pool_new 1 64) ?k OutgoingBlock1 (map of_nat [0..<40]) 1 = (Inr 0, P)"
    by (metis prod.collapse)
  have r: "\<not> is_q_block OutgoingBlock1" "is_incoming IncomingBlock1" "\<not> is_q_block IncomingBlock1"
    by code_simp+
  have f: "fresh_for 48 (body_pool_new 2 48) ?k2 IncomingBlock1" by (rule fresh_for_new) simp
  show ?thesis
    using classic_transfer_delivers [OF body_pool_inv_new r(1) _ _ disjI1 [OF P] f r(2,3), of "[Some 0, None, None]" None] P
    by (fastforce simp: body_limit_def usize_max_def)
qed

end
