(* ===== verification/Store_QBlock.thy ===== *)
theory Store_QBlock
  imports Store_Transfer
begin

text \<open>
  Q-Block assembly: blocks of a body arrive in any order, more than once or not at all. The pool
  behaves as a set of received block numbers with a window of ten behind it, and what it shows of the
  body is always a prefix of it.
\<close>

section \<open>The specification\<close>

definition nblocks :: "nat \<Rightarrow> nat \<Rightarrow> nat" where
  "nblocks sz N = max 1 ((N + sz - 1) div sz)"

definition q_prefix :: "nat \<Rightarrow> nat set \<Rightarrow> nat" where
  "q_prefix nb S = length (takeWhile (\<lambda>n. n \<in> S) [0..<nb])"

definition q_filled :: "nat \<Rightarrow> nat \<Rightarrow> nat set \<Rightarrow> nat" where
  "q_filled sz N S =
     (if q_prefix (nblocks sz N) S = nblocks sz N then N else q_prefix (nblocks sz N) S * sz)"

definition q_spec :: "nat \<Rightarrow> nat \<Rightarrow> nat \<Rightarrow> nat set \<Rightarrow> (block_error + nat \<times> bool) \<times> nat set" where
  "q_spec sz N n S =
     (let nb = nblocks sz N; base = q_prefix nb S div 10 * 10 in
      if q_prefix nb S = nb then (Inl BE_AlreadyComplete, S)
      else if n < base then (Inl BE_Duplicate, S)
      else if base + 10 \<le> n then (Inl BE_OutsideWindow, S)
      else if n \<in> S then (Inl BE_Duplicate, S)
      else (Inr (q_filled sz N (insert n S), q_prefix nb (insert n S) = nb), insert n S))"

lemma q_prefix_le: "q_prefix nb S \<le> nb"
  unfolding q_prefix_def using length_takeWhile_le [of _ "[0..<nb]"] by simp

lemma q_prefix_mem:
  assumes "n < q_prefix nb S"
  shows "n \<in> S"
proof -
  let ?w = "takeWhile (\<lambda>n. n \<in> S) [0..<nb]"
  have "n < length ?w" "n < nb" using assms q_prefix_le [of nb S] by (simp_all add: q_prefix_def)
  then have "?w ! n = n" by (simp add: takeWhile_nth)
  with \<open>n < length ?w\<close> have "n \<in> set ?w" using nth_mem by metis
  then show ?thesis by (auto dest: set_takeWhileD)
qed

lemma q_prefix_stop: "q_prefix nb S < nb \<Longrightarrow> q_prefix nb S \<notin> S"
  using nth_length_takeWhile [of "\<lambda>n. n \<in> S" "[0..<nb]"] by (simp add: q_prefix_def)

lemma q_prefix_eqI:
  assumes "c \<le> nb" "\<And>n. n < c \<Longrightarrow> n \<in> S" "c < nb \<Longrightarrow> c \<notin> S"
  shows "q_prefix nb S = c"
proof (rule antisym)
  show "q_prefix nb S \<le> c" using assms(3) q_prefix_mem [of c nb S] q_prefix_le [of nb S] by (meson le_less_linear order_less_le_trans)
  show "c \<le> q_prefix nb S" using assms(1,2) q_prefix_stop [of nb S] by (meson le_less_linear order_less_le_trans)
qed

lemma nblocks_pos [simp]: "0 < nblocks sz N" "nblocks sz N \<noteq> 0"
  by (simp_all add: nblocks_def)

lemma nblocks_bounds:
  assumes "0 < sz"
  shows "N \<le> nblocks sz N * sz" "n + 1 < nblocks sz N \<Longrightarrow> (n + 1) * sz < N"
    "n < nblocks sz N \<Longrightarrow> n * sz \<le> N"
proof -
  obtain d where d: "d = (N + sz - 1) div sz" "d * sz \<le> N + sz - 1" "N + sz - 1 < d * sz + sz"
    using assms dividend_less_div_times [OF assms, of "N + sz - 1"] by (simp add: add.commute)
  have nb: "nblocks sz N = max 1 d" by (simp add: nblocks_def d(1))
  show "N \<le> nblocks sz N * sz"
    using d(2,3) assms unfolding nb by (cases "d = 0") auto
  show m: "(n + 1) * sz < N" if "n + 1 < nblocks sz N" for n
  proof -
    have "n + 2 \<le> d" using that by (auto simp: nb max_def split: if_splits)
    then have "(n + 2) * sz \<le> d * sz" by (intro mult_right_mono) auto
    with d(2) assms show ?thesis by (simp add: algebra_simps)
  qed
  show "n * sz \<le> N" if "n < nblocks sz N"
  proof (cases n)
    case (Suc k)
    with m [of k] that show ?thesis by simp
  qed simp
qed

section \<open>Bits of the window\<close>

definition mask_set :: "u16 \<Rightarrow> nat set" where
  "mask_set m = {i. bit m i}"

lemma mask_set_0 [simp]: "mask_set 0 = {}"
  by (simp add: mask_set_def)

lemma mask_set_or: "unat i < 16 \<Longrightarrow> mask_set (m OR q_bit i) = insert (unat i) (mask_set m)"
  by (auto simp: mask_set_def q_bit_def bit_or_iff bit_push_bit_iff bit_exp_iff)

lemma mask_set_and: "m AND q_bit i \<noteq> 0 \<longleftrightarrow> unat i \<in> mask_set m"
  by (simp add: mask_set_def q_bit_def bit_iff_and_push_bit_not_eq_0)

lemma mask_set_bound: "i \<in> mask_set m \<Longrightarrow> i < 16"
  using bit_imp_le_length [of m i] by (simp add: mask_set_def)

lemma window_full_bits: "bit window_full i \<longleftrightarrow> i < 10"
proof -
  have "window_full = mask 10" by (simp add: window_full_def MAX_PAYLOADS_def mask_eq_exp_minus_1 push_bit_eq_mult)
  moreover have "bit (mask 10 :: u16) i \<longleftrightarrow> i < 10" unfolding bit_mask_iff by auto
  ultimately show ?thesis by metis
qed

lemma window_full_set: "m = window_full \<longleftrightarrow> mask_set m = {..<10}"
proof
  show "m = window_full \<Longrightarrow> mask_set m = {..<10}" by (auto simp: mask_set_def window_full_bits)
  show "mask_set m = {..<10} \<Longrightarrow> m = window_full" by (rule bit_eqI) (auto simp: mask_set_def window_full_bits)
qed

lemma drop_bit_zero: "(\<And>i. i \<in> mask_set m \<Longrightarrow> i < k) \<Longrightarrow> drop_bit k m = 0"
  by (rule bit_eqI) (fastforce simp: mask_set_def bit_drop_bit_eq)

lemma trailing_ones_prefix: "trailing_ones_u16 m = q_prefix 16 (mask_set m)"
proof -
  have "takeWhile id (map (bit m) [0..<16]) = map (bit m) (takeWhile (\<lambda>n. n \<in> mask_set m) [0..<16])"
    by (simp add: takeWhile_map comp_def mask_set_def)
  then show ?thesis unfolding trailing_ones_u16_def q_prefix_def by (metis length_map)
qed

section \<open>The sidecar against the specification\<close>

definition window_set :: "q_window \<Rightarrow> nat set" where
  "window_set q = {..<unat (qw_base q)} \<union> (\<lambda>i. unat (qw_base q) + i) ` mask_set (qw_mask q)"

lemma window_set_mem: "unat (qw_base q) + i \<in> window_set q \<longleftrightarrow> i \<in> mask_set (qw_mask q)"
  by (auto simp: window_set_def)

definition q_received :: "'t block_transfer \<Rightarrow> nat set" where
  "q_received t = (case bt_q t of None \<Rightarrow> {} | Some q \<Rightarrow> window_set q)"

definition q_window_ok :: "nat \<Rightarrow> nat \<Rightarrow> q_window \<Rightarrow> nat set \<Rightarrow> bool" where
  "q_window_ok sz N q S \<longleftrightarrow>
     (let nb = nblocks sz N in
      unat (qw_base q) = q_prefix nb S div 10 * 10 \<and> mask_set (qw_mask q) \<subseteq> {..<10} \<and>
      qw_final_num q = (if nb - 1 \<in> S then Some (of_nat (nb - 1)) else None) \<and>
      (nb - 1 \<in> S \<longrightarrow> unat (qw_final_payload_len q) = N - (nb - 1) * sz))"

definition q_ok :: "u8 \<Rightarrow> nat \<Rightarrow> 't block_transfer \<Rightarrow> bool" where
  "q_ok szx N t \<longleftrightarrow>
     (let sz = szx_bytes szx; nb = nblocks sz N; S = q_received t in
      is_q_block (bt_role t) \<and> bt_szx t = szx \<and> bt_expected_len t = Some (of_nat N) \<and>
      S \<subseteq> {..<nb} \<and> bt_filled t = q_filled sz N S \<and> bt_complete t = (q_prefix nb S = nb) \<and>
      (\<exists>q. bt_q t = Some q \<and> (bt_complete t \<or> q_window_ok sz N q S)))"

definition q_block :: "u8 \<Rightarrow> nat \<Rightarrow> nat \<Rightarrow> block_value" where
  "q_block szx N n =
     \<lparr>bv_num = of_nat n, bv_more = (n + 1 < nblocks (szx_bytes szx) N), bv_szx = szx\<rparr>"

lemma nblocks_limit:
  assumes "szx \<le> 6" "N \<le> body_limit"
  shows "nblocks (szx_bytes szx) N \<le> 2 ^ 20"
proof (rule ccontr)
  let ?s = "szx_bytes szx"
  assume a: "\<not> nblocks ?s N \<le> 2 ^ 20"
  then have "(2 ^ 20 - 1 + 1) * ?s < N" by (intro nblocks_bounds(2)) auto
  moreover have "2 ^ 20 * 16 \<le> 2 ^ 20 * ?s" using szx_bytes_bounds [OF assms(1)] by simp
  ultimately show False using assms(2) by (simp add: body_limit_def)
qed

lemma unat_u32: "n \<le> 2 ^ 20 + 10 \<Longrightarrow> unat (of_nat n :: u32) = n"
  by (simp add: unat_of_nat)

lemma q_check_spec:
  assumes w: "q_window_ok (szx_bytes szx) N q S" and S: "S \<subseteq> {..<nblocks (szx_bytes szx) N}"
    and St: "S = window_set q"
    and z: "szx \<le> 6" and N: "N \<le> body_limit" and n: "n < nblocks (szx_bytes szx) N"
  shows "q_check q (q_block szx N n) =
    (if n < unat (qw_base q) then Inl BE_Duplicate
     else if unat (qw_base q) + 10 \<le> n then Inl BE_OutsideWindow
     else if n \<in> S then Inl BE_Duplicate else Inr (of_nat (n - unat (qw_base q))))"
proof -
  let ?nb = "nblocks (szx_bytes szx) N" and ?b = "unat (qw_base q)"
  have nb: "?nb \<le> 2 ^ 20" by (rule nblocks_limit [OF z N])
  have un: "unat (of_nat n :: u32) = n" using n nb by (intro unat_u32) simp
  have mp: "unat (ucast MAX_PAYLOADS :: u32) = 10" by (simp add: MAX_PAYLOADS_def)
  show ?thesis
  proof (cases "n < ?b")
    case True
    then show ?thesis using un by (simp add: q_check_def q_block_def word_less_nat_alt)
  next
    case False
    then have le: "qw_base q \<le> of_nat n" using un by (simp add: word_le_nat_alt)
    let ?i = "of_nat n - qw_base q"
    have i: "unat ?i = n - ?b" using unat_sub [OF le] un by simp
    have ii: "?i = of_nat (n - ?b)" using i unat_u32 [of "n - ?b"] n nb by (simp add: word_unat_eq_iff)
    have c: "\<not> of_nat n < qw_base q" "ucast MAX_PAYLOADS \<le> ?i \<longleftrightarrow> ?b + 10 \<le> n"
      using le i mp False by (auto simp: word_le_nat_alt not_less)
    show ?thesis
    proof (cases "?b + 10 \<le> n")
      case True
      then show ?thesis using False c by (simp add: q_check_def q_block_def Let_def)
    next
      case lt: False
      then have i10: "n - ?b < 10" using False by simp
      have mem: "n \<in> S \<longleftrightarrow> n - ?b \<in> mask_set (qw_mask q)"
        using window_set_mem [of q "n - ?b"] St False by simp
      have fin: "\<not> (case qw_final_num q of None \<Rightarrow> False | Some f \<Rightarrow> f < of_nat n)"
      proof -
        have "qw_final_num q = Some (of_nat (?nb - 1)) \<or> qw_final_num q = None"
          using w by (simp add: q_window_ok_def Let_def)
        moreover have "unat (of_nat (?nb - 1) :: u32) = ?nb - 1" using nb by (intro unat_u32) simp
        ultimately show ?thesis using n un by (auto simp: word_less_nat_alt)
      qed
      have sat: "unat (saturating_add ?i 1) = n - ?b + 1"
        using i i10 by (simp add: saturating_add_def unat_word_ariths)
      have tail: "drop_bit (unat (saturating_add ?i 1)) (qw_mask q) = 0" if "\<not> n + 1 < ?nb"
      proof (rule drop_bit_zero)
        fix j assume "j \<in> mask_set (qw_mask q)"
        then have "?b + j \<in> S" using St by (simp add: window_set_mem)
        then have "?b + j < ?nb" using S by auto
        then show "j < unat (saturating_add ?i 1)" using that sat False by simp
      qed
      show ?thesis
        using False lt c mem fin tail mask_set_and [of "qw_mask q" ?i] i
        by (cases "qw_final_num q") (auto simp: q_check_def q_block_def Let_def ii [symmetric])
    qed
  qed
qed

lemma q_range_spec:
  assumes z: "szx \<le> 6" and N: "N \<le> body_limit" "N \<le> cap" and n: "n < nblocks (szx_bytes szx) N"
  shows "q_incoming_range (q_block szx N n) (min (N - n * szx_bytes szx) (szx_bytes szx)) cap (Some (of_nat N)) =
    Inr (n * szx_bytes szx, of_nat (min (N - n * szx_bytes szx) (szx_bytes szx)))"
proof -
  let ?s = "szx_bytes szx" and ?nb = "nblocks (szx_bytes szx) N"
  let ?l = "min (N - n * ?s) ?s"
  have un: "unat (of_nat n :: u32) = n" using n nblocks_limit [OF z N(1)] by (intro unat_u32) simp
  have uN: "unat (of_nat N :: u32) = N" using N(1) by (simp add: body_limit_def unat_of_nat)
  have le: "n * ?s \<le> N" by (rule nblocks_bounds(3)) (use n in auto)
  have more: "?l = ?s \<and> n * ?s + ?s \<le> N" if "n + 1 < ?nb"
    using nblocks_bounds(2) [OF szx_bytes_pos(1) that] by (simp add: algebra_simps)
  have last: "?l = N - n * ?s" if "\<not> n + 1 < ?nb"
  proof -
    have "?nb = n + 1" using that n by simp
    then have "N \<le> (n + 1) * ?s" using nblocks_bounds(1) [of ?s N] by simp
    then show ?thesis by (simp add: algebra_simps)
  qed
  have le2: "n * ?s + ?l \<le> N" using le by simp
  have off: "incoming_end (of_nat n) ?s ?l cap = Inr (n * ?s, n * ?s + ?l)"
    using le le2 N un by (auto simp: incoming_end_def block_offset_ok ok_or_def checked_add_def body_limit_def usize_max_def)
  have b: "unat (block_size (q_block szx N n)) = ?s" "bv_num (q_block szx N n) = of_nat n"
    "bv_more (q_block szx N n) \<longleftrightarrow> n + 1 < ?nb"
    using block_size_ok [OF z] by (simp_all add: q_block_def)
  obtain l where l: "l = ?l" by blast
  have f: "\<not> 65535 < l" "l \<le> ?s" "n * ?s + l \<le> N" "n + 1 < ?nb \<Longrightarrow> l = ?s" "\<not> n + 1 < ?nb \<Longrightarrow> n * ?s + l = N"
    using more last le le2 szx_bytes_bounds [OF z] by (simp_all add: l)
  have "q_incoming_range (q_block szx N n) l cap (Some (of_nat N)) = Inr (n * ?s, of_nat l)"
    using off [folded l] b f uN by (cases "n + 1 < ?nb") (simp_all add: q_incoming_range_def Let_def)
  then show ?thesis by (simp only: l)
qed

text \<open>The window of the prefix, after the sets that are full have been left behind.\<close>

lemma q_advance_stays:
  assumes "\<not> (mask_set (qw_mask q) = {..<10} \<and> qw_final_num q = None)"
  shows "q_advance num q = (Inr (), q)"
proof -
  have "\<not> (qw_mask q = window_full \<and> qw_final_num q = None)" using assms by (simp add: window_full_set)
  then show ?thesis by (subst q_advance.simps) (simp only: if_False simp_thms)
qed

lemma q_advance_moves:
  assumes "mask_set (qw_mask q) = {..<10}" "qw_final_num q = None" "unat (qw_base q) < 2 ^ 20"
  shows "q_advance num q =
    (Inr (), q\<lparr>qw_base := qw_base q + 10, qw_mask := 0, qw_continue_trigger := Some num,
               qw_continue_ack := Some (qw_base q + 9)\<rparr>)"
    "unat (qw_base q + 10) = unat (qw_base q) + 10"
proof -
  have "(0 :: nat) \<in> {..<10}" by simp
  then have ne: "{} \<noteq> {..<10 :: nat}" by blast
  have c: "checked_add_w (qw_base q) (ucast MAX_PAYLOADS - 1) = Some (qw_base q + 9)"
    "checked_add_w (qw_base q) (ucast MAX_PAYLOADS) = Some (qw_base q + 10)"
    using assms(3) by (simp_all add: checked_add_w_def MAX_PAYLOADS_def)
  show "q_advance num q =
    (Inr (), q\<lparr>qw_base := qw_base q + 10, qw_mask := 0, qw_continue_trigger := Some num,
               qw_continue_ack := Some (qw_base q + 9)\<rparr>)"
    using assms(1,2) c
    by (subst q_advance.simps) (simp add: window_full_set Let_def, subst q_advance_stays, simp_all add: ne)
  show "unat (qw_base q + 10) = unat (qw_base q) + 10" using assms(3) by (simp add: unat_word_ariths)
qed

lemma lessThan_shift: "{..<b} \<union> (\<lambda>i. b + i) ` {..<k} = {..<b + k}" for b k :: nat
proof (rule set_eqI)
  fix x
  have "x \<in> (\<lambda>i. b + i) ` {..<k} \<longleftrightarrow> b \<le> x \<and> x - b < k" by (auto simp: image_iff intro!: bexI [of _ "x - b"])
  then show "x \<in> {..<b} \<union> (\<lambda>i. b + i) ` {..<k} \<longleftrightarrow> x \<in> {..<b + k}" by auto
qed

lemma ten_floor:
  assumes "b mod 10 = 0" "k < 10"
  shows "(b + k) div 10 * 10 = (b :: nat)" "(b + 10) div 10 * 10 = b + 10"
proof -
  obtain m where "b = 10 * m" using assms(1) by (metis dvdE mod_0_imp_dvd)
  then show "(b + k) div 10 * 10 = b" "(b + 10) div 10 * 10 = b + 10" using assms(2) by simp_all
qed

lemma q_window_prefix:
  assumes "window_set q \<subseteq> {..<nb}" "unat (qw_base q) < nb" "mask_set (qw_mask q) \<subseteq> {..<10}"
  shows "unat (qw_base q) + trailing_ones_u16 (qw_mask q) = q_prefix nb (window_set q)"
proof -
  let ?b = "unat (qw_base q)" and ?k = "trailing_ones_u16 (qw_mask q)"
  have k: "?k = q_prefix 16 (mask_set (qw_mask q))" by (rule trailing_ones_prefix)
  have "10 \<notin> mask_set (qw_mask q)" using assms(3) by auto
  then have k10: "?k \<le> 10" using q_prefix_mem [of 10 16 "mask_set (qw_mask q)"] unfolding k by (meson not_le)
  have stop: "?k \<notin> mask_set (qw_mask q)"
    using q_prefix_stop [of 16 "mask_set (qw_mask q)"] k10 unfolding k by simp
  have below: "i \<in> mask_set (qw_mask q)" if "i < ?k" for i using that unfolding k by (rule q_prefix_mem)
  show ?thesis
  proof (rule sym, rule q_prefix_eqI)
    show "?b + ?k \<le> nb"
    proof (cases ?k)
      case (Suc i)
      then have "?b + i \<in> window_set q" using below by (simp add: window_set_mem)
      then show ?thesis using assms(1) Suc by auto
    qed (use assms(2) in simp)
    show "n \<in> window_set q" if "n < ?b + ?k" for n
    proof (cases "n < ?b")
      case False
      then show ?thesis using that below [of "n - ?b"] window_set_mem [of q "n - ?b"] by simp
    qed (simp add: window_set_def)
    show "?b + ?k \<notin> window_set q" using stop by (simp add: window_set_mem)
  qed
qed

lemma q_advance_window:
  assumes S: "window_set q \<subseteq> {..<nb}" and b: "unat (qw_base q) < nb" "unat (qw_base q) mod 10 = 0" "nb \<le> 2 ^ 20"
    and m: "mask_set (qw_mask q) \<subseteq> {..<10}" and f: "qw_final_num q = None \<longleftrightarrow> nb - 1 \<notin> window_set q"
  obtains q' where "q_advance num q = (Inr (), q')" "window_set q' = window_set q"
    "unat (qw_base q') < nb" "mask_set (qw_mask q') \<subseteq> {..<10}" "qw_final_num q' = qw_final_num q"
    "qw_final_payload_len q' = qw_final_payload_len q"
    "q_prefix nb (window_set q) \<noteq> nb \<longrightarrow> unat (qw_base q') = q_prefix nb (window_set q) div 10 * 10"
proof (cases "mask_set (qw_mask q) = {..<10} \<and> qw_final_num q = None")
  case False
  let ?k = "trailing_ones_u16 (qw_mask q)" and ?b = "unat (qw_base q)"
  have p: "?b + ?k = q_prefix nb (window_set q)" by (rule q_window_prefix [OF S b(1) m])
  have "unat (qw_base q) = q_prefix nb (window_set q) div 10 * 10" if "q_prefix nb (window_set q) \<noteq> nb"
  proof -
    have lt: "q_prefix nb (window_set q) < nb" using that q_prefix_le [of nb "window_set q"] by simp
    have "?k < 10"
    proof (rule ccontr)
      assume k: "\<not> ?k < 10"
      have all: "n \<in> window_set q" if "n < ?b + 10" for n
        using that k p q_prefix_mem [of n nb "window_set q"] by simp
      have "i \<in> mask_set (qw_mask q)" if "i < 10" for i
        using that all [of "?b + i"] by (simp add: window_set_mem)
      with m have "mask_set (qw_mask q) = {..<10}" by auto
      with False f have "nb - 1 \<in> window_set q" by auto
      then have "nb - 1 < ?b + 10" using m by (auto simp: window_set_def)
      with lt p k show False by simp
    qed
    with b(2) show ?thesis unfolding p [symmetric] by (simp only: ten_floor(1))
  qed
  then show thesis using that [OF q_advance_stays [OF False] refl b(1) m] by simp
next
  case True
  let ?b = "unat (qw_base q)"
  let ?q = "q\<lparr>qw_base := qw_base q + 10, qw_mask := 0, qw_continue_trigger := Some num,
               qw_continue_ack := Some (qw_base q + 9)\<rparr>"
  have lt: "?b < 2 ^ 20" using b by simp
  have ub: "unat (qw_base q + 10) = ?b + 10" using True lt by (intro q_advance_moves(2)) simp_all
  have w: "window_set q = {..<?b + 10}"
    using True by (simp add: window_set_def lessThan_shift)
  have w': "window_set ?q = {..<?b + 10}" by (simp add: window_set_def ub)
  have "nb - 1 \<notin> window_set q" using True f by simp
  then have nb: "?b + 10 < nb" using w by auto
  have p: "q_prefix nb (window_set q) = ?b + 10" unfolding w by (rule q_prefix_eqI) (use nb in auto)
  have a: "q_advance num q = (Inr (), ?q)" by (rule q_advance_moves(1)) (use True lt in simp_all)
  show thesis
  proof (rule that [OF a])
    show "window_set ?q = window_set q" by (simp only: w w')
    show "unat (qw_base ?q) < nb" using nb ub by simp
    have "(?b + 10) div 10 * 10 = ?b + 10" by (rule ten_floor(2) [OF b(2), of 0]) simp
    then show "q_prefix nb (window_set q) \<noteq> nb \<longrightarrow> unat (qw_base ?q) = q_prefix nb (window_set q) div 10 * 10"
      unfolding p using ub by simp
  qed simp_all
qed

lemma q_settle_spec:
  assumes z: "szx \<le> 6" and N: "N \<le> body_limit" and sz: "sz = szx_bytes szx" and nb: "nb = nblocks sz N"
    and S: "window_set q \<subseteq> {..<nb}" and b: "unat (qw_base q) < nb" and m: "mask_set (qw_mask q) \<subseteq> {..<10}"
    and f: "qw_final_num q = (if nb - 1 \<in> window_set q then Some (of_nat (nb - 1)) else None)"
    and l: "nb - 1 \<in> window_set q \<longrightarrow> unat (qw_final_payload_len q) = N - (nb - 1) * sz"
  shows "\<exists>nxt. q_settle t q sz = (Inr (), t\<lparr>bt_filled := q_filled sz N (window_set q),
      bt_complete := (q_prefix nb (window_set q) = nb), bt_next_num := nxt\<rparr>)"
proof -
  let ?c = "q_prefix nb (window_set q)" and ?k = "trailing_ones_u16 (qw_mask q)"
  have lim: "nb \<le> 2 ^ 20" using nblocks_limit [OF z N] by (simp add: nb sz)
  have sp: "0 < sz" "16 \<le> sz" "sz \<le> 1024" using szx_bytes_bounds [OF z] by (simp_all add: sz)
  have p: "unat (qw_base q) + ?k = ?c" by (rule q_window_prefix [OF S b m])
  have cle: "?c \<le> nb" by (rule q_prefix_le)
  have uk: "unat (of_nat ?k :: u32) = ?k" using p cle lim by (intro unat_u32) simp
  let ?w = "qw_base q + of_nat ?k"
  have w: "checked_add_w (qw_base q) (of_nat ?k) = Some ?w" "unat ?w = ?c"
    using p cle lim uk by (simp_all add: checked_add_w_def unat_word_ariths)
  have off: "block_offset ?w sz = Inr (?c * sz)"
  proof -
    have "?c * sz \<le> 2 ^ 20 * 1024" using cle lim sp by (intro mult_le_mono) auto
    then show ?thesis using w(2) by (simp add: block_offset_ok usize_max_def)
  qed
  let ?f = "of_nat (nb - 1) :: u32"
  have uf: "unat ?f = nb - 1" using lim by (intro unat_u32) simp
  have last: "?c = nb \<Longrightarrow> nb - 1 \<in> window_set q" using q_prefix_mem [of "nb - 1" nb "window_set q"] nb by simp
  show ?thesis
  proof (cases "?c = nb")
    case True
    have lt: "?f < ?w" using True w(2) uf nb by (simp add: word_less_nat_alt)
    have le: "(nb - 1) * sz \<le> N" using nblocks_bounds(3) [OF sp(1), of "nb - 1" N] nb by simp
    have o: "block_offset ?f sz = Inr ((nb - 1) * sz)"
      using uf le N by (simp add: block_offset_ok usize_max_def body_limit_def)
    have sum: "(nb - 1) * sz + unat (qw_final_payload_len q) = N" using l last [OF True] le by simp
    have nxt: "checked_add_w ?f 1 = Some (?f + 1)" using uf lim by (simp add: checked_add_w_def)
    have ff: "qw_final_num q = Some ?f" using f last [OF True] by simp
    have N': "N \<le> usize_max" using N by (simp add: usize_max_def body_limit_def)
    have "q_settle t q sz = (Inr (), t\<lparr>bt_filled := N, bt_complete := True, bt_next_num := ?f + 1\<rparr>)"
      unfolding q_settle_def w(1) ff option.case Let_def using lt o sum nxt N' by (simp add: ok_or_def checked_add_def)
    then show ?thesis using True nb by (intro exI [of _ "?f + 1"]) (simp add: q_filled_def)
  next
    case False
    have "\<not> (case qw_final_num q of None \<Rightarrow> False | Some g \<Rightarrow> g < ?w)"
      using f uf w(2) False cle by (auto simp: word_less_nat_alt)
    then have "q_settle t q sz = (Inr (), t\<lparr>bt_filled := ?c * sz, bt_complete := False, bt_next_num := ?w\<rparr>)"
      unfolding q_settle_def w(1) option.case Let_def using off by (cases "qw_final_num q") simp_all
    then show ?thesis using False nb by (auto simp: q_filled_def)
  qed
qed

text \<open>One block against a sidecar that is not complete.\<close>

lemma accept_q_step:
  assumes z: "szx \<le> 6" and N: "N \<le> body_limit" "N \<le> cap" and ok: "q_ok szx N t" and nc: "\<not> bt_complete t"
    and n: "n < nblocks (szx_bytes szx) N" and sz: "sz = szx_bytes szx" and nb: "nb = nblocks sz N"
  obtains e where "accept_q_incoming t (q_block szx N n) (min (N - n * sz) sz) cap = (Inl e, t)"
      "fst (q_spec sz N n (q_received t)) = Inl e" "snd (q_spec sz N n (q_received t)) = q_received t"
  | t' where "accept_q_incoming t (q_block szx N n) (min (N - n * sz) sz) cap = (Inr (n * sz), t')"
      "q_spec sz N n (q_received t) =
         (Inr (bt_filled t', bt_complete t'), q_received t')"
      "q_received t' = insert n (q_received t)" "q_ok szx N t'" "bt_key t' = bt_key t" "bt_role t' = bt_role t"
      "bt_q_receive t' = bt_q_receive t"
proof -
  let ?S = "q_received t" and ?B = "q_block szx N n" and ?l = "min (N - n * sz) sz"
  obtain q where q: "bt_q t = Some q" "q_window_ok sz N q ?S"
    using ok nc by (auto simp: q_ok_def Let_def sz)
  have o: "is_q_block (bt_role t)" "bt_szx t = szx" "bt_expected_len t = Some (of_nat N)" "?S \<subseteq> {..<nb}"
    "q_prefix nb ?S \<noteq> nb" using ok nc by (simp_all add: q_ok_def Let_def sz nb)
  have S: "?S = window_set q" using q(1) by (simp add: q_received_def)
  have B: "\<not> block_is_bert ?B" "bv_szx ?B = szx" "bv_num ?B = of_nat n" "bv_more ?B \<longleftrightarrow> n + 1 < nb" "unat (block_size ?B) = sz"
    using block_size_ok [OF z] by (simp_all add: q_block_def sz nb)
  have w: "unat (qw_base q) = q_prefix nb ?S div 10 * 10" "mask_set (qw_mask q) \<subseteq> {..<10}"
    "qw_final_num q = (if nb - 1 \<in> ?S then Some (of_nat (nb - 1)) else None)"
    "nb - 1 \<in> ?S \<longrightarrow> unat (qw_final_payload_len q) = N - (nb - 1) * sz"
    using q(2) by (simp_all add: q_window_ok_def Let_def nb)
  let ?b = "unat (qw_base q)"
  have chk: "q_check q ?B = (if n < ?b then Inl BE_Duplicate else if ?b + 10 \<le> n then Inl BE_OutsideWindow
     else if n \<in> ?S then Inl BE_Duplicate else Inr (of_nat (n - ?b)))"
    using q_check_spec [of szx N q ?S n] q(2) o(4) S z N(1) n by (simp add: sz nb)
  have spec: "q_spec sz N n ?S = (case q_check q ?B of Inl e \<Rightarrow> (Inl e, ?S)
     | Inr _ \<Rightarrow> (Inr (q_filled sz N (insert n ?S), q_prefix nb (insert n ?S) = nb), insert n ?S))"
    using o(5) by (simp add: q_spec_def Let_def nb [symmetric] w(1) [symmetric] chk)
  have rng: "q_incoming_range ?B ?l cap (Some (of_nat N)) = Inr (n * sz, of_nat ?l)"
    using q_range_spec [OF z N n] by (simp add: sz)
  have acc: "accept_q_incoming t ?B ?l cap = (case q_check q ?B of Inl e \<Rightarrow> (Inl e, t)
     | Inr idx \<Rightarrow>
         let q = q\<lparr>qw_mask := qw_mask q OR q_bit idx\<rparr>;
             q = (if n + 1 < nb then q else q\<lparr>qw_final_num := Some (of_nat n), qw_final_payload_len := of_nat ?l\<rparr>)
         in case q_advance (of_nat n) q of
              (Inl e, q) \<Rightarrow> (Inl e, t\<lparr>bt_q := Some q\<rparr>)
            | (Inr _, q) \<Rightarrow>
                (case q_settle (t\<lparr>bt_q := Some q\<rparr>) q sz of
                   (Inl e, t) \<Rightarrow> (Inl e, t)
                 | (Inr _, t) \<Rightarrow> (Inr (n * sz), t\<lparr>bt_num := of_nat n, bt_more := (n + 1 < nb)\<rparr>)))"
    unfolding accept_q_incoming_def B(2-5) using o(1,2,3) B(1) nc q(1) rng
    by (cases "q_check q ?B") (simp_all add: ok_or_def)
  show thesis
  proof (cases "q_check q ?B")
    case (Inl e)
    with that(1) [of e] acc spec show thesis by simp
  next
    case (Inr idx)
    then have i: "\<not> n < ?b" "\<not> ?b + 10 \<le> n" "n \<notin> ?S" "idx = of_nat (n - ?b)"
      using chk by (simp_all split: if_splits)
    have "unat idx = n - ?b" unfolding i(4) by (rule unat_u32) (use i(2) in simp)
    then have ui: "unat idx = n - ?b" "unat idx < 10" using i(1,2) by simp_all
    let ?q0 = "q\<lparr>qw_mask := qw_mask q OR q_bit idx\<rparr>"
    obtain q1 where q1: "q1 = (if n + 1 < nb then ?q0
        else ?q0\<lparr>qw_final_num := Some (of_nat n), qw_final_payload_len := of_nat ?l\<rparr>)" by blast
    have b1: "qw_base q1 = qw_base q" and m1: "mask_set (qw_mask q1) = insert (n - ?b) (mask_set (qw_mask q))"
      using ui mask_set_or [of idx "qw_mask q"] by (simp_all add: q1)
    have e1: "n + 1 < nb \<Longrightarrow> qw_final_num q1 = qw_final_num q \<and> qw_final_payload_len q1 = qw_final_payload_len q"
      "\<not> n + 1 < nb \<Longrightarrow> qw_final_num q1 = Some (of_nat n) \<and> qw_final_payload_len q1 = of_nat ?l"
      by (simp_all add: q1)
    have S1: "window_set q1 = insert n ?S" using b1 m1 i(1) by (auto simp: S window_set_def)
    have sub: "window_set q1 \<subseteq> {..<nb}" using S1 o(4) n by (simp add: sz nb)
    have b2: "unat (qw_base q1) < nb" "unat (qw_base q1) mod 10 = 0"
      using b1 w(1) i(1) n by (simp_all add: sz nb)
    have lim: "nb \<le> 2 ^ 20" using nblocks_limit [OF z N(1)] by (simp add: sz nb)
    have m2: "mask_set (qw_mask q1) \<subseteq> {..<10}" using m1 w(2) i(2) by auto
    have nn: "n + 1 < nb \<or> n = nb - 1" using n by (auto simp: sz nb)
    have f1: "qw_final_num q1 = (if nb - 1 \<in> window_set q1 then Some (of_nat (nb - 1)) else None)"
      using nn w(3) e1 by (auto simp: S1)
    have l1: "nb - 1 \<in> window_set q1 \<longrightarrow> unat (qw_final_payload_len q1) = N - (nb - 1) * sz"
    proof (cases "n + 1 < nb")
      case False
      have "N \<le> nb * sz" using nblocks_bounds(1) [of sz N] by (simp add: sz nb)
      moreover have "nb = n + 1" using False n by (simp add: sz nb)
      ultimately have "N \<le> n * sz + sz" by simp
      then have "?l = N - n * sz" by simp
      moreover have "?l < 65536" using szx_bytes_bounds [OF z] by (simp add: sz min_less_iff_disj)
      ultimately show ?thesis using False nn e1(2) by (simp add: unat_of_nat)
    qed (use w(4) e1(1) in \<open>auto simp: S1\<close>)
    obtain q2 where q2: "q_advance (of_nat n) q1 = (Inr (), q2)" "window_set q2 = window_set q1"
      "unat (qw_base q2) < nb" "mask_set (qw_mask q2) \<subseteq> {..<10}" "qw_final_num q2 = qw_final_num q1"
      "qw_final_payload_len q2 = qw_final_payload_len q1"
      "q_prefix nb (window_set q1) \<noteq> nb \<longrightarrow> unat (qw_base q2) = q_prefix nb (window_set q1) div 10 * 10"
      by (rule q_advance_window [OF sub b2 lim m2]) (use f1 in simp)
    have S2: "window_set q2 = insert n ?S" using q2(2) S1 by simp
    obtain nxt where st: "q_settle (t\<lparr>bt_q := Some q2\<rparr>) q2 sz = (Inr (), t\<lparr>bt_q := Some q2,
        bt_filled := q_filled sz N (window_set q2), bt_complete := (q_prefix nb (window_set q2) = nb), bt_next_num := nxt\<rparr>)"
      using q_settle_spec [OF z N(1) sz nb, of q2 "t\<lparr>bt_q := Some q2\<rparr>"] sub q2 f1 l1 by auto
    let ?t = "t\<lparr>bt_q := Some q2, bt_filled := q_filled sz N (window_set q2),
        bt_complete := (q_prefix nb (window_set q2) = nb), bt_next_num := nxt, bt_num := of_nat n, bt_more := (n + 1 < nb)\<rparr>"
    have A: "accept_q_incoming t ?B ?l cap = (Inr (n * sz), ?t)"
      unfolding acc Inr sum.case Let_def q1 [symmetric] q2(1) prod.case using st by simp
    have R: "q_received ?t = insert n ?S" by (simp add: q_received_def S2)
    have W: "q_prefix nb (insert n ?S) \<noteq> nb \<longrightarrow> q_window_ok sz N q2 (insert n ?S)"
      using q2 f1 l1 S1 by (auto simp: q_window_ok_def Let_def nb [symmetric])
    have K: "q_ok szx N ?t"
      unfolding q_ok_def Let_def R using o(1,2,3) sub S1 S2 W by (auto simp: sz nb)
    show thesis
      by (rule that(2) [OF A _ R K]) (use spec Inr R S2 in simp_all)
  qed
qed

section \<open>Bytes\<close>

lemma nth_blit:
  assumes "i + length src \<le> length buf" "j < length buf"
  shows "blit buf i src ! j = (if i \<le> j \<and> j < i + length src then src ! (j - i) else buf ! j)"
  using assms by (auto simp: blit_def nth_append min_def not_less)

definition covers :: "nat \<Rightarrow> bytes \<Rightarrow> nat set \<Rightarrow> bytes \<Rightarrow> bool" where
  "covers sz body S buf \<longleftrightarrow> (\<forall>i<length body. i div sz \<in> S \<longrightarrow> buf ! i = body ! i)"

lemma covers_insert:
  assumes c: "covers sz body S buf" and sz: "0 < sz" and len: "length body \<le> length buf"
    and n: "n * sz \<le> length body" and p: "p = take sz (drop (n * sz) body)"
  shows "covers sz body (insert n S) (blit buf (n * sz) p)"
  unfolding covers_def
proof (intro allI impI)
  fix i assume i: "i < length body" "i div sz \<in> insert n S"
  have lp: "length p = min sz (length body - n * sz)" "n * sz + length p \<le> length buf" using p n len by auto
  have d: "n * sz \<le> i \<and> i < n * sz + sz \<longleftrightarrow> i div sz = n"
    using sz by (metis add.commute div_nat_eqI dividend_less_div_times mult.commute mult_Suc_right times_div_less_eq_dividend)
  show "blit buf (n * sz) p ! i = body ! i"
  proof (cases "n * sz \<le> i \<and> i < n * sz + sz")
    case True
    then have "i - n * sz < sz" "n * sz + (i - n * sz) = i" by auto
    then have "p ! (i - n * sz) = body ! i" using i(1) n by (simp add: p)
    moreover have "i < n * sz + length p" using True i(1) lp(1) by auto
    ultimately show ?thesis using True i(1) lp(2) len by (simp add: nth_blit)
  next
    case False
    then have "i div sz \<in> S" using i(2) d by auto
    then show ?thesis using False c i lp len by (auto simp: nth_blit covers_def)
  qed
qed

lemma covers_take:
  assumes c: "covers sz body S buf" and sz: "0 < sz" and len: "length body \<le> length buf"
  shows "take (q_filled sz (length body) S) buf = take (q_filled sz (length body) S) body"
proof -
  let ?N = "length body" and ?p = "q_prefix (nblocks sz (length body)) S"
  let ?f = "q_filled sz ?N S"
  have le: "?f \<le> ?N"
    using nblocks_bounds(3) [OF sz, of ?p ?N] q_prefix_le [of "nblocks sz ?N" S] by (auto simp: q_filled_def)
  have "i div sz < ?p" if "i < ?f" for i
  proof (cases "?p = nblocks sz ?N")
    case True
    then have "i < nblocks sz ?N * sz" using that nblocks_bounds(1) [OF sz, of ?N] by (simp add: q_filled_def)
    then show ?thesis using True by (simp add: less_mult_imp_div_less)
  qed (use that in \<open>simp add: q_filled_def less_mult_imp_div_less\<close>)
  then have "i div sz \<in> S" if "i < ?f" for i using that q_prefix_mem by blast
  then show ?thesis
    using c len le by (intro nth_equalityI) (auto simp: covers_def)
qed

section \<open>The pool against the specification\<close>

definition q_slot :: "nat \<Rightarrow> 't block_key \<Rightarrow> block_role \<Rightarrow> u8 \<Rightarrow> bytes \<Rightarrow> 't body_pool \<Rightarrow> slot_id \<Rightarrow> 't block_transfer \<Rightarrow> bool" where
  "q_slot BYTES k rr szx body R j t \<longleftrightarrow>
     body_pool_inv BYTES R \<and> lookup_role R k rr = Some j \<and> occ_is_occupied (bp_occ R) j \<and>
     bp_transfers R ! j = Some t \<and> bt_key t = k \<and> bt_role t = rr \<and> bt_q_receive t = RetainNone \<and>
     q_ok szx (length body) t \<and> bp_lens R ! j = bt_filled t \<and>
     covers (szx_bytes szx) body (q_received t) (bp_bytes R ! j)"

definition q_pool_inv :: "nat \<Rightarrow> 't block_key \<Rightarrow> block_role \<Rightarrow> u8 \<Rightarrow> bytes \<Rightarrow> 't body_pool \<Rightarrow> bool" where
  "q_pool_inv BYTES k rr szx body R \<longleftrightarrow>
     fresh_for BYTES R k rr \<or> (\<exists>j t. q_slot BYTES k rr szx body R j t)"

definition q_pool_abs :: "'t block_key \<Rightarrow> block_role \<Rightarrow> 't body_pool \<Rightarrow> nat set" where
  "q_pool_abs k rr R =
     (case lookup_role R k rr of
        None \<Rightarrow> {}
      | Some j \<Rightarrow> (case bp_transfers R ! j of None \<Rightarrow> {} | Some t \<Rightarrow> q_received t))"

lemma q_slot_payload:
  assumes "q_slot BYTES k rr szx body R j t" "length body \<le> BYTES"
  shows "body_payload R j = Some (take (q_filled (szx_bytes szx) (length body) (q_received t)) body)"
proof -
  have j: "j < length (bp_lens R)" "length (bp_bytes R ! j) = BYTES"
    using assms(1) by (auto simp: q_slot_def lookup_role_def body_find_Some body_pool_inv_def)
  have "bt_filled t = q_filled (szx_bytes szx) (length body) (q_received t)"
    using assms(1) by (simp add: q_slot_def q_ok_def Let_def)
  moreover have "take (q_filled (szx_bytes szx) (length body) (q_received t)) (bp_bytes R ! j) =
      take (q_filled (szx_bytes szx) (length body) (q_received t)) body"
    using assms j(2) by (intro covers_take) (auto simp: q_slot_def)
  ultimately show ?thesis
    using assms(1) by (simp add: q_slot_def body_payload_def body_view_def slot_static_body_def static_body_def)
qed

definition q_payload :: "u8 \<Rightarrow> bytes \<Rightarrow> nat \<Rightarrow> bytes" where
  "q_payload szx body n = take (szx_bytes szx) (drop (n * szx_bytes szx) body)"

lemma length_q_payload: "length (q_payload szx body n) = min (length body - n * szx_bytes szx) (szx_bytes szx)"
  by (simp add: q_payload_def min.commute)

abbreviation q_result :: "block_error + block_progress \<Rightarrow> block_error + nat \<times> bool" where
  "q_result \<equiv> map_ok (\<lambda>pg. (pg_filled pg, pg_complete pg))"

lemma q_slot_step:
  assumes a: "q_slot BYTES k rr szx body R j t" and q: "is_q_block rr" and z: "szx \<le> 6"
    and N: "length body \<le> body_limit" "length body \<le> BYTES" and B: "BYTES \<le> usize_max"
    and n: "n < nblocks (szx_bytes szx) (length body)"
  obtains res R' t' where "apply_incoming BYTES R k rr (q_block szx (length body) n) (q_payload szx body n)
      (Some (of_nat (length body))) = (res, R')" "q_slot BYTES k rr szx body R' j t'"
    "q_spec (szx_bytes szx) (length body) n (q_received t) = (q_result res, q_received t')"
proof -
  note result = that
  let ?N = "length body" and ?sz = "szx_bytes szx" and ?B = "q_block szx (length body) n" and ?p = "q_payload szx body n"
  have f: "body_pool_inv BYTES R" "lookup_role R k rr = Some j" "occ_is_occupied (bp_occ R) j"
    "bp_transfers R ! j = Some t" "bt_key t = k" "bt_role t = rr" "bt_q_receive t = RetainNone" "q_ok szx ?N t"
    "bp_lens R ! j = bt_filled t" "covers ?sz body (q_received t) (bp_bytes R ! j)"
    using a by (simp_all add: q_slot_def)
  have j: "j < length (bp_lens R)" using f(2) by (simp add: lookup_role_def body_find_Some)
  have l: "length (bp_transfers R) = length (bp_lens R)" "length (bp_bytes R) = length (bp_lens R)"
    "occ_slot_count (bp_occ R) = length (bp_lens R)" "length (bp_bytes R ! j) = BYTES"
    using f(1) j by (simp_all add: body_pool_inv_def)
  have bt: "body_transfer R j = Some t" using f(3,4,7) by (simp add: body_transfer_at l)
  have ex: "bt_expected_len t = Some (of_nat ?N)" using f(8) by (simp add: q_ok_def Let_def)
  have app: "apply_incoming BYTES R k rr ?B ?p (Some (of_nat ?N)) = write_incoming BYTES R j rr ?B ?p"
    using f(2) bt ex by (simp add: apply_incoming_def)
  have same: "R\<lparr>bp_transfers := (bp_transfers R)[j := Some t]\<rparr> = R"
    using f(4) by (metis (mono_tags) body_pool.surjective body_pool.update_convs(3) list_update_id)
  have err: thesis if "accept_q_incoming t ?B (length ?p) BYTES = (Inl e, t)"
    "q_spec ?sz ?N n (q_received t) = (Inl e, q_received t)" for e
  proof -
    have "write_incoming BYTES R j rr ?B ?p = (Inl e, R)"
      using that(1) f(3,4,6) q same by (simp add: write_incoming_def accept_incoming_role_def)
    with app that(2) a show thesis by (intro result [of "Inl e" R t]) (simp_all add: map_ok_def)
  qed
  show thesis
  proof (cases "bt_complete t")
    case True
    have "\<not> block_is_bert ?B" using block_size_ok(1) [OF z] by (simp add: q_block_def)
    then have "accept_q_incoming t ?B (length ?p) BYTES = (Inl BE_AlreadyComplete, t)"
      using f(6) q True by (simp add: accept_q_incoming_def)
    moreover have "q_spec ?sz ?N n (q_received t) = (Inl BE_AlreadyComplete, q_received t)"
      using f(8) True by (simp add: q_ok_def Let_def q_spec_def)
    ultimately show thesis by (rule err)
  next
    case False
    from z N f(8) False n refl refl show thesis
    proof (cases rule: accept_q_step)
      case (1 e)
      show thesis by (rule err [of e]) (use 1 in \<open>simp_all add: length_q_payload prod_eq_iff\<close>)
    next
      case (2 t')
      let ?buf = "blit (bp_bytes R ! j) (n * ?sz) ?p"
      let ?R = "R\<lparr>bp_transfers := (bp_transfers R)[j := Some t'], bp_bytes := (bp_bytes R)[j := ?buf],
        bp_lens := (bp_lens R)[j := bt_filled t']\<rparr>"
      have le: "n * ?sz \<le> ?N" by (rule nblocks_bounds(3)) (use n in auto)
      have fit: "n * ?sz + length ?p \<le> BYTES" using le N(2) by (simp add: length_q_payload)
      have w: "write_incoming BYTES R j rr ?B ?p =
          (Inr \<lparr>pg_id = j, pg_filled = bt_filled t', pg_complete = bt_complete t'\<rparr>, ?R)"
        using 2(1) f(3,4,6) q fit l(4) B j l
        by (simp add: write_incoming_def accept_incoming_role_def length_q_payload store_incoming_def checked_add_def)
      have "body_pool_inv BYTES ?R" "lookup_role ?R k rr = Some j"
        by (rule put_slot_occupied [OF f(1,2,3), of t'], use f 2(5-7) fit l(4) in simp_all)+
      moreover have "covers ?sz body (q_received t') ?buf"
        unfolding 2(3) using f(10) l(4) N(2) le by (intro covers_insert) (simp_all add: q_payload_def)
      ultimately have "q_slot BYTES k rr szx body ?R j t'"
        using j l f 2 by (simp add: q_slot_def)
      with that app w 2(2) show thesis by (simp add: map_ok_def)
    qed
  qed
qed

lemma q_ok_new:
  assumes "is_q_block rr"
  shows "q_ok szx N (transfer_new k rr szx m 0 (Some (of_nat N)) (Some q_window_new))"
    "q_received (transfer_new k rr szx m 0 (Some (of_nat N)) (Some q_window_new)) = {}"
proof -
  let ?t = "transfer_new k rr szx m 0 (Some (of_nat N)) (Some q_window_new) :: 'a block_transfer"
  show r: "q_received ?t = {}"
    by (simp add: q_received_def transfer_new_def window_set_def q_window_new_def)
  have p: "q_prefix nb {} = 0" for nb by (rule q_prefix_eqI) auto
  have f: "is_q_block (bt_role ?t)" "bt_szx ?t = szx" "bt_expected_len ?t = Some (of_nat N)" "bt_filled ?t = 0"
    "\<not> bt_complete ?t" "bt_q ?t = Some q_window_new"
    using assms by (simp_all add: transfer_new_def)
  have "q_window_ok (szx_bytes szx) N q_window_new {}"
    by (simp add: q_window_ok_def q_window_new_def p)
  then show "q_ok szx N ?t"
    unfolding q_ok_def r Let_def using f by (simp add: p q_filled_def)
qed

lemma q_admit_step:
  assumes fr: "fresh_for BYTES R k rr" and q: "is_incoming rr" "is_q_block rr" and z: "szx \<le> 6"
    and N: "length body \<le> body_limit" "length body \<le> BYTES" and B: "BYTES \<le> usize_max"
    and n: "n < nblocks (szx_bytes szx) (length body)"
  obtains e where "apply_incoming BYTES R k rr (q_block szx (length body) n) (q_payload szx body n)
      (Some (of_nat (length body))) = (Inl e, R)" "q_spec (szx_bytes szx) (length body) n {} = (Inl e, {})"
  | pg R' j t where "apply_incoming BYTES R k rr (q_block szx (length body) n) (q_payload szx body n)
      (Some (of_nat (length body))) = (Inr pg, R')" "q_slot BYTES k rr szx body R' j t"
      "q_spec (szx_bytes szx) (length body) n {} = (q_result (Inr pg), q_received t)"
proof -
  let ?N = "length body" and ?sz = "szx_bytes szx" and ?B = "q_block szx (length body) n" and ?p = "q_payload szx body n"
  let ?t = "transfer_new k rr szx (bv_more ?B) 0 (Some (of_nat ?N)) (Some q_window_new)"
  have f: "body_pool_inv BYTES R" "lookup_role R k rr = None" "lookup_identity R k rr = None"
    using fr by (simp_all add: fresh_for_def)
  have b: "\<not> block_is_bert ?B" "bv_szx ?B = szx" "bv_num ?B = of_nat n" "unat (block_size ?B) = ?sz"
    using block_size_ok [OF z] by (simp_all add: q_block_def)
  have inc: "start_incoming k rr ?B (length ?p) BYTES (Some (of_nat ?N)) =
      (case accept_q_incoming ?t ?B (length ?p) BYTES of (Inl e, _) \<Rightarrow> Inl e | (Inr _, t) \<Rightarrow> Inr t)"
    using q b by (simp add: start_incoming_def incoming_q_def)
  note new = q_ok_new [OF q(2), where szx = szx and N = ?N and k = k and m = "bv_more ?B"]
  have nc: "\<not> bt_complete ?t" by (simp add: transfer_new_def)
  from z N new(1) nc n refl refl show thesis
  proof (cases rule: accept_q_step)
    case (1 e)
    have "apply_incoming BYTES R k rr ?B ?p (Some (of_nat ?N)) = (Inl e, R)"
      using f inc 1(1) by (simp add: apply_incoming_def admit_incoming_def length_q_payload)
    moreover have "q_spec ?sz ?N n {} = (Inl e, {})" using 1(2,3) new(2) by (simp add: prod_eq_iff)
    ultimately show thesis by (rule that(1))
  next
    case (2 t)
    obtain j0 where j0: "j0 < length (bp_lens R)" "\<not> occ_is_occupied (bp_occ R) j0"
      using fr by (auto simp: fresh_for_def)
    obtain j occ where a: "j < length (bp_lens R)" "\<not> occ_is_occupied (bp_occ R) j"
      "body_acquire R = (Some j, body_reset (R\<lparr>bp_occ := occ\<rparr>) j)" "occ_inv occ"
      "occ_slot_count occ = length (bp_lens R)" "\<forall>k. occ_is_occupied occ k \<longleftrightarrow> k = j \<or> occ_is_occupied (bp_occ R) k"
      by (rule body_acquire_free [OF f(1) j0])
    have l: "length (bp_transfers R) = length (bp_lens R)" "length (bp_bytes R) = length (bp_lens R)"
      "occ_slot_count (bp_occ R) = length (bp_lens R)" "length (bp_bytes R ! j) = BYTES"
      using f(1) a(1) by (simp_all add: body_pool_inv_def)
    let ?buf = "blit (bp_bytes R ! j) (n * ?sz) ?p"
    let ?R = "R\<lparr>bp_occ := occ, bp_bytes := (bp_bytes R)[j := ?buf], bp_lens := (bp_lens R)[j := bt_filled t],
      bp_transfers := (bp_transfers R)[j := Some t]\<rparr>"
    have le: "n * ?sz \<le> ?N" by (rule nblocks_bounds(3)) (use n in auto)
    have fit: "n * ?sz + length ?p \<le> BYTES" using le N(2) by (simp add: length_q_payload)
    have un: "unat (of_nat n :: u32) = n" using n nblocks_limit [OF z N(1)] by (intro unat_u32) simp
    have off: "block_offset (bv_num ?B) (unat (block_size ?B)) = Inr (n * ?sz)"
      using b le N B un by (simp add: block_offset_ok)
    have tf: "bt_key t = k" "bt_role t = rr" "bt_q_receive t = RetainNone"
      using 2(5-7) by (simp_all add: transfer_new_def)
    have "body_transfer ?R j = Some t"
      by (rule put_slot(3) [OF f(1) a(1,4,5,6) tf], use f(2) fit l(4) in simp_all)
    moreover have "admit_incoming BYTES R k rr ?B ?p (Some (of_nat ?N)) = (Inr j, ?R)"
      unfolding admit_incoming_def inc using a l 2(1) q(2) fit B off
      by (simp add: length_q_payload store_incoming_def checked_add_def body_reset_def)
    ultimately have app: "apply_incoming BYTES R k rr ?B ?p (Some (of_nat ?N)) =
        (Inr \<lparr>pg_id = j, pg_filled = bt_filled t, pg_complete = bt_complete t\<rparr>, ?R)"
      using f by (simp add: apply_incoming_def)
    have "body_pool_inv BYTES ?R" "lookup_role ?R k rr = Some j"
      by (rule put_slot [OF f(1) a(1,4,5,6) tf], use f(2) fit l(4) in simp_all)+
    moreover have "covers ?sz body (q_received t) ?buf"
      unfolding 2(3) new(2) using l(4) N(2) le
      by (intro covers_insert) (simp_all add: q_payload_def covers_def)
    ultimately have "q_slot BYTES k rr szx body ?R j t"
      using a l 2(4) tf by (simp add: q_slot_def)
    then show thesis using 2(2) new(2) by (intro that(2) [OF app]) (simp_all add: map_ok_def)
  qed
qed

section \<open>The sender\<close>

lemma outgoing_q_sidecar:
  assumes "outgoing_q k rs N szx cap = Inr ts" "N \<le> body_limit"
  shows "is_outgoing rs" "is_q_block rs" "ts = transfer_new k rs szx False N (Some (of_nat N)) (Some q_window_new)"
  using assms
  by (auto simp: outgoing_q_def outgoing_common_def and_then_Inr_iff u32_try_from_def body_limit_def split: if_splits)

lemma q_in_body:
  assumes "0 < sz"
  shows "N < n * sz \<or> (n * sz = N \<and> 0 < N) \<longleftrightarrow> nblocks sz N \<le> n" "sz < N - n * sz \<longleftrightarrow> n + 1 < nblocks sz N"
proof -
  have up: "N \<le> n * sz" if "nblocks sz N \<le> n" for n
    using nblocks_bounds(1) [OF assms, of N] that by (meson le_trans mult_le_mono1)
  show "sz < N - n * sz \<longleftrightarrow> n + 1 < nblocks sz N"
    using up [of "n + 1"] nblocks_bounds(2) [OF assms, of n N] by (cases "n + 1 < nblocks sz N") (auto simp: algebra_simps not_less)
  show "N < n * sz \<or> (n * sz = N \<and> 0 < N) \<longleftrightarrow> nblocks sz N \<le> n"
  proof (cases "nblocks sz N \<le> n")
    case True
    have "0 < n" using True nblocks_pos(1) [of sz N] by linarith
    then have "0 < n * sz" using assms by simp
    then have "N < n * sz \<or> (n * sz = N \<and> 0 < N)" using up [OF True] by linarith
    with True show ?thesis by blast
  next
    case False
    then show ?thesis using nblocks_bounds(2) [OF assms, of "n - 1" N] by (cases n) auto
  qed
qed

lemma reissue_spec:
  assumes o: "outgoing_q k rs N szx cap = Inr ts" and N: "N \<le> body_limit" and z: "szx \<le> 6" and sz: "sz = szx_bytes szx"
  shows "reissue_q_outgoing ts c =
    (if unat c < nblocks sz N then Inr (q_block szx N (unat c), unat c * sz, min (N - unat c * sz) sz) else Inl BE_Gap)"
proof -
  have f: "is_outgoing (bt_role ts)" "is_q_block (bt_role ts)" "bt_szx ts = szx" "bt_filled ts = N"
    using outgoing_q_sidecar [OF o N] by (simp_all add: transfer_new_def)
  have p: "0 < sz" "sz \<le> 1024" using szx_bytes_bounds [OF z] by (simp_all add: sz)
  have "unat c * sz \<le> 2 ^ 32 * 1024" using p(2) unsigned_less [where ?'a = nat, of c] by (intro mult_le_mono) auto
  then have off: "block_offset c sz = Inr (unat c * sz)" by (simp add: block_offset_ok usize_max_def)
  have r: "reissue_q_outgoing ts c =
      (if nblocks sz N \<le> unat c then Inl BE_Gap
       else and_then (map_err BE_Value (block_new c (unat c + 1 < nblocks sz N) szx)) (\<lambda>block.
         Inr (block, unat c * sz, min (N - unat c * sz) sz)))"
    using f off size_from_szx_ok [OF z] q_in_body [OF p(1), of N "unat c"]
    by (simp add: reissue_q_outgoing_def outgoing_range_def map_err_def Let_def sz [symmetric])
  show ?thesis
  proof (cases "unat c < nblocks sz N")
    case True
    then have "unat c < 2 ^ 20" using nblocks_limit [OF z N] by (simp add: sz)
    then show ?thesis using True r block_new_ok [OF z, of c] by (simp add: map_err_def q_block_def sz)
  qed (use r in simp)
qed

section \<open>Any order of blocks\<close>

text \<open>The sender issues block \<open>c\<close>, again or for the first time, and the receiver takes it in.\<close>

definition q_deliver ::
  "nat \<Rightarrow> 't block_key \<Rightarrow> block_role \<Rightarrow> 't block_transfer \<Rightarrow> bytes \<Rightarrow> u32 \<Rightarrow> 't body_pool \<Rightarrow>
     (block_error + nat \<times> bool) \<times> 't body_pool" where
  "q_deliver BYTES k rr ts body c R =
     (case reissue_q_outgoing ts c of
        Inl e \<Rightarrow> (Inl e, R)
      | Inr (block, offset, n) \<Rightarrow>
          map_prod q_result id
            (apply_incoming BYTES R k rr block (take n (drop offset body)) (bt_expected_len ts)))"

definition q_deliver_spec :: "nat \<Rightarrow> nat \<Rightarrow> u32 \<Rightarrow> nat set \<Rightarrow> (block_error + nat \<times> bool) \<times> nat set" where
  "q_deliver_spec sz N c S = (if unat c < nblocks sz N then q_spec sz N (unat c) S else (Inl BE_Gap, S))"

definition q_setting ::
  "nat \<Rightarrow> nat \<Rightarrow> 't block_key \<Rightarrow> block_role \<Rightarrow> block_role \<Rightarrow> u8 \<Rightarrow> bytes \<Rightarrow> 't block_transfer \<Rightarrow> bool" where
  "q_setting cap BYTES k rs rr szx body ts \<longleftrightarrow>
     outgoing_q k rs (length body) szx cap = Inr ts \<and> is_incoming rr \<and> is_q_block rr \<and> szx \<le> 6 \<and>
     length body \<le> body_limit \<and> length body \<le> BYTES \<and> BYTES \<le> usize_max"

lemma q_deliver_sim:
  assumes s: "q_setting cap BYTES k' rs rr szx body ts" and i: "q_pool_inv BYTES k rr szx body R"
  shows "q_pool_inv BYTES k rr szx body (snd (q_deliver BYTES k rr ts body c R))"
    and "q_deliver_spec (szx_bytes szx) (length body) c (q_pool_abs k rr R) =
      map_prod id (q_pool_abs k rr) (q_deliver BYTES k rr ts body c R)"
proof -
  let ?N = "length body" and ?sz = "szx_bytes szx"
  have f: "outgoing_q k' rs ?N szx cap = Inr ts" "is_incoming rr" "is_q_block rr" "szx \<le> 6" "?N \<le> body_limit"
    "?N \<le> BYTES" "BYTES \<le> usize_max"
    using s by (simp_all add: q_setting_def)
  have ex: "bt_expected_len ts = Some (of_nat ?N)" using outgoing_q_sidecar(3) [OF f(1,5)] by (simp add: transfer_new_def)
  have shown: "q_pool_abs k rr R = q_received t" if "q_slot BYTES k rr szx body R j t" for R j t
    using that by (simp add: q_slot_def q_pool_abs_def)
  have pay: "take (min (?N - m) ?sz) (drop m body) = take ?sz (drop m body)" for m
    by (simp add: min_def)
  have d: "q_deliver BYTES k rr ts body c R =
      (if unat c < nblocks ?sz ?N
       then map_prod q_result id (apply_incoming BYTES R k rr (q_block szx ?N (unat c)) (q_payload szx body (unat c)) (Some (of_nat ?N)))
       else (Inl BE_Gap, R))"
    using reissue_spec [OF f(1,5,4) refl, of c] ex pay by (simp add: q_deliver_def q_payload_def)
  have "q_pool_inv BYTES k rr szx body (snd (q_deliver BYTES k rr ts body c R)) \<and>
      q_deliver_spec ?sz ?N c (q_pool_abs k rr R) = map_prod id (q_pool_abs k rr) (q_deliver BYTES k rr ts body c R)"
  proof (cases "unat c < nblocks ?sz ?N")
    case False
    with i show ?thesis by (simp add: d q_deliver_spec_def)
  next
    case True
    from i consider (fresh) "fresh_for BYTES R k rr" | (slot) j t where "q_slot BYTES k rr szx body R j t"
      by (auto simp: q_pool_inv_def)
    then show ?thesis
    proof cases
      case fresh
      then have abs: "q_pool_abs k rr R = {}" by (simp add: fresh_for_def q_pool_abs_def)
      from fresh f(2-7) True show ?thesis
      proof (cases rule: q_admit_step)
        case (1 e)
        with True i abs show ?thesis by (simp add: d q_deliver_spec_def map_ok_def)
      next
        case (2 pg R' j t)
        have "q_pool_inv BYTES k rr szx body R'" using 2(2) by (auto simp: q_pool_inv_def)
        with True 2 abs shown [OF 2(2)] show ?thesis by (simp add: d q_deliver_spec_def)
      qed
    next
      case (slot j t)
      obtain res R' t' where r: "apply_incoming BYTES R k rr (q_block szx ?N (unat c)) (q_payload szx body (unat c))
          (Some (of_nat ?N)) = (res, R')" "q_slot BYTES k rr szx body R' j t'"
        "q_spec ?sz ?N (unat c) (q_received t) = (q_result res, q_received t')"
        by (rule q_slot_step [OF slot f(3-7) True])
      have "q_pool_inv BYTES k rr szx body R'" using r(2) by (auto simp: q_pool_inv_def)
      with True r shown [OF r(2)] shown [OF slot]
      show ?thesis by (simp add: d q_deliver_spec_def)
    qed
  qed
  then show "q_pool_inv BYTES k rr szx body (snd (q_deliver BYTES k rr ts body c R))"
    "q_deliver_spec ?sz ?N c (q_pool_abs k rr R) = map_prod id (q_pool_abs k rr) (q_deliver BYTES k rr ts body c R)"
    by blast+
qed

definition q_exchange_inv ::
  "nat \<Rightarrow> nat \<Rightarrow> 't block_key \<Rightarrow> 't block_key \<Rightarrow> block_role \<Rightarrow> block_role \<Rightarrow> u8 \<Rightarrow> bytes \<Rightarrow> 't block_transfer \<Rightarrow>
     't body_pool \<Rightarrow> bool" where
  "q_exchange_inv cap BYTES k' k rs rr szx body ts R \<longleftrightarrow>
     q_setting cap BYTES k' rs rr szx body ts \<and> q_pool_inv BYTES k rr szx body R"

interpretation q_pool: simulation "q_exchange_inv cap BYTES k' k rs rr szx body ts" "q_deliver BYTES k rr ts body"
    "q_pool_abs k rr" "q_deliver_spec (szx_bytes szx) (length body)"
  for cap BYTES k' k rs rr szx body ts
  by unfold_locales (auto simp: q_exchange_inv_def intro: q_deliver_sim)

lemma q_deliver_spec_mono:
  "S \<subseteq> snd (q_deliver_spec sz N c S)"
  by (auto simp: q_deliver_spec_def q_spec_def Let_def)

lemma q_prefix_mono: "S \<subseteq> T \<Longrightarrow> q_prefix nb S \<le> q_prefix nb T"
  using q_prefix_stop [of nb T] q_prefix_mem [of "q_prefix nb T" nb S] q_prefix_le [of nb S]
  by (meson le_less_linear order_less_le_trans subsetD)

text \<open>Whatever happened before, one pass over the blocks in order completes the set.\<close>

lemma q_spec_pass:
  assumes "m \<le> nblocks sz N" "nblocks sz N \<le> 2 ^ 20"
  shows "m \<le> q_prefix (nblocks sz N) (snd (run_steps (q_deliver_spec sz N) (map of_nat [0..<m]) S))"
  using assms(1)
proof (induction m)
  case (Suc m)
  let ?nb = "nblocks sz N" and ?T = "snd (run_steps (q_deliver_spec sz N) (map of_nat [0..<m]) S)"
  let ?c = "of_nat m :: u32"
  have m: "m < ?nb" "m \<le> q_prefix ?nb ?T" using Suc by simp_all
  have c: "unat ?c = m" using m(1) assms(2) by (intro unat_u32) simp
  have "m < q_prefix ?nb (snd (q_deliver_spec sz N ?c ?T))"
  proof (cases "m < q_prefix ?nb ?T")
    case True
    then show ?thesis using q_prefix_mono [OF q_deliver_spec_mono, of ?nb ?T sz N ?c] by simp
  next
    case False
    then have p: "q_prefix ?nb ?T = m" using m(2) by simp
    have "m \<notin> ?T" using q_prefix_stop [of ?nb ?T] p m(1) by simp
    then have "snd (q_deliver_spec sz N ?c ?T) = insert m ?T"
      using m(1) c p by (auto simp: q_deliver_spec_def q_spec_def Let_def)
    moreover have "q_prefix ?nb (insert m ?T) \<noteq> m" using q_prefix_stop [of ?nb "insert m ?T"] m(1) by auto
    moreover have "m \<le> q_prefix ?nb (insert m ?T)" using q_prefix_mono [of ?T "insert m ?T" ?nb] p by auto
    ultimately show ?thesis by simp
  qed
  then show ?case by (simp add: run_steps_append case_prod_beta)
qed simp

definition q_shown :: "'t block_key \<Rightarrow> block_role \<Rightarrow> 't body_pool \<Rightarrow> bytes" where
  "q_shown k rr R =
     (case lookup_role R k rr of
        None \<Rightarrow> []
      | Some j \<Rightarrow> (case body_payload R j of None \<Rightarrow> [] | Some b \<Rightarrow> b))"

lemma q_shown_prefix:
  assumes "q_exchange_inv cap BYTES k' k rs rr szx body ts R"
  shows "q_shown k rr R = take (q_filled (szx_bytes szx) (length body) (q_pool_abs k rr R)) body"
proof -
  have len: "length body \<le> BYTES" using assms by (simp add: q_exchange_inv_def q_setting_def)
  from assms consider "fresh_for BYTES R k rr" | j t where "q_slot BYTES k rr szx body R j t"
    by (auto simp: q_exchange_inv_def q_pool_inv_def)
  then show ?thesis
  proof cases
    case 1
    have "q_prefix nb {} = 0" for nb by (rule q_prefix_eqI) auto
    with 1 show ?thesis by (simp add: fresh_for_def q_shown_def q_pool_abs_def q_filled_def)
  next
    case (2 j t)
    then show ?thesis using q_slot_payload [OF 2 len] by (simp add: q_slot_def q_shown_def q_pool_abs_def)
  qed
qed

text \<open>C31: A body sent with Q-Block arrives whatever the order of its blocks. For every sequence of block numbers
  the sender issues, with losses, repetitions and reordering, the receiving pool answers each block exactly as
  a set of received numbers with a window of ten answers it (accepted once, refused as duplicate, outside the
  window, after completion or beyond the body), what it shows of the body is always the prefix that has
  arrived without a gap, and after any such history one pass over the blocks in order makes it the whole body.\<close>

theorem q_block_assembly:
  assumes "q_setting cap BYTES k' rs rr szx body ts" "fresh_for BYTES R k rr"
  shows "fst (run_steps (q_deliver BYTES k rr ts body) cs R) =
      fst (run_steps (q_deliver_spec (szx_bytes szx) (length body)) cs {}) \<and>
    q_shown k rr (snd (run_steps (q_deliver BYTES k rr ts body) cs R)) =
      take (q_filled (szx_bytes szx) (length body)
        (snd (run_steps (q_deliver_spec (szx_bytes szx) (length body)) cs {}))) body \<and>
    q_shown k rr (snd (run_steps (q_deliver BYTES k rr ts body)
      (cs @ map of_nat [0..<nblocks (szx_bytes szx) (length body)]) R)) = body"
proof -
  let ?sz = "szx_bytes szx" and ?N = "length body"
  let ?run = "run_steps (q_deliver BYTES k rr ts body)" and ?spec = "run_steps (q_deliver_spec (szx_bytes szx) (length body))"
  have i: "q_exchange_inv cap BYTES k' k rs rr szx body ts R" using assms by (simp add: q_exchange_inv_def q_pool_inv_def)
  have abs: "q_pool_abs k rr R = {}" using assms(2) by (simp add: fresh_for_def q_pool_abs_def)
  have sim: "?spec ds {} = map_prod id (q_pool_abs k rr) (?run ds R)" for ds
    using q_pool.sim_run [OF i, of ds] abs by simp
  have sh: "q_shown k rr (snd (?run ds R)) = take (q_filled ?sz ?N (snd (?spec ds {}))) body" for ds
    using q_shown_prefix [OF q_pool.inv_run [OF i, of ds]] sim [of ds] by simp
  have nb: "nblocks ?sz ?N \<le> 2 ^ 20" using assms(1) by (intro nblocks_limit) (simp_all add: q_setting_def)
  let ?all = "cs @ map of_nat [0..<nblocks ?sz ?N]"
  have "snd (?spec ?all {}) = snd (?spec (map of_nat [0..<nblocks ?sz ?N]) (snd (?spec cs {})))"
    by (simp add: run_steps_append case_prod_beta)
  then have "q_prefix (nblocks ?sz ?N) (snd (?spec ?all {})) = nblocks ?sz ?N"
    using q_spec_pass [OF order_refl nb] q_prefix_le by (metis le_antisym)
  then have "q_filled ?sz ?N (snd (?spec ?all {})) = ?N" by (simp add: q_filled_def)
  with sim [of cs] sh show ?thesis by simp
qed

theorem q_block_assembly_witness:
  "\<exists>ts. outgoing_q (block_key_new token_EMPTY (endpoint_v4 10 0 0 1 5683)) OutgoingQBlock1 40 0 64 = Inr ts \<and>
    fst (run_steps (q_deliver 64 (block_key_new token_EMPTY (endpoint_v4 10 0 0 2 5683)) IncomingQBlock1 ts
      (map of_nat [0..<40])) [2, 9, 0, 2, 1, 1] (body_pool_new 1 64)) =
    [Inr (0, False), Inl BE_Gap, Inr (16, False), Inl BE_Duplicate, Inr (40, True), Inl BE_AlreadyComplete]"
proof -
  let ?k = "block_key_new token_EMPTY (endpoint_v4 10 0 0 1 5683)" and ?b = "map of_nat [0..<40] :: bytes"
  have "is_ok (outgoing_q ?k OutgoingQBlock1 40 0 64)" by code_simp
  then obtain ts where ts: "outgoing_q ?k OutgoingQBlock1 40 0 64 = Inr ts"
    by (cases "outgoing_q ?k OutgoingQBlock1 40 0 64") simp_all
  then have s: "q_setting 64 64 ?k OutgoingQBlock1 IncomingQBlock1 0 ?b ts"
    by (simp add: q_setting_def is_incoming_def is_q_block_def body_limit_def usize_max_def)
  have "fst (run_steps (q_deliver_spec (szx_bytes 0) (length ?b)) [2, 9, 0, 2, 1, 1] {}) =
    [Inr (0, False), Inl BE_Gap, Inr (16, False), Inl BE_Duplicate, Inr (40, True), Inl BE_AlreadyComplete]"
    by code_simp
  with ts q_block_assembly [OF s fresh_for_new [of 1], of _ "[2, 9, 0, 2, 1, 1]"] show ?thesis by simp
qed

end
