(* ===== verification/Store_Observe.thy ===== *)
theory Store_Observe
  imports Store_Block Coap_Sim
begin

text \<open>
  Observe interests (\<open>src/storage/table.rs\<close>): the row of one observer with its pending mark, 24-bit
  sequence, lifetime, confirmation clock, outstanding notification and the chain of superseded
  confirmable notifications; the Observe table is the slot table over these rows.
\<close>

section \<open>Keys and resources\<close>

record 't observe_key =
  ok_token :: 't
  ok_endpoint :: endpoint
  ok_client :: bool

definition observe_key_new :: "'t \<Rightarrow> endpoint \<Rightarrow> 't observe_key" where
  "observe_key_new token ep = \<lparr>ok_token = token, ok_endpoint = ep, ok_client = False\<rparr>"

definition observe_key_new_client :: "'t \<Rightarrow> endpoint \<Rightarrow> 't observe_key" where
  "observe_key_new_client token ep = \<lparr>ok_token = token, ok_endpoint = ep, ok_client = True\<rparr>"

type_synonym observe_resource = u64

definition RESOURCE_NONE :: observe_resource where "RESOURCE_NONE = 0"
definition FNV_OFFSET :: u64 where "FNV_OFFSET = 0xcbf29ce484222325"
definition FNV_PRIME :: u64 where "FNV_PRIME = 0x0100000001b3"

definition app_route :: "nat \<Rightarrow> observe_resource" where
  "app_route index = of_nat index + 1"

definition fnv_byte :: "u64 \<Rightarrow> u8 \<Rightarrow> u64" where
  "fnv_byte hash byte = (hash XOR ucast byte) * FNV_PRIME"

definition resource_from_path :: "bytes list \<Rightarrow> observe_resource" where
  "resource_from_path segments =
     fold (\<lambda>segment hash. fold (\<lambda>b h. fnv_byte h b) segment
             (fold (\<lambda>b h. fnv_byte h b) (u64_to_be (of_nat (length segment))) hash)) segments FNV_OFFSET"

definition resource_matches :: "observe_resource \<Rightarrow> bytes list \<Rightarrow> bool" where
  "resource_matches r segments \<longleftrightarrow> r \<noteq> RESOURCE_NONE \<and> r = resource_from_path segments"

section \<open>Lifetimes and holds\<close>

definition max_age_due_ms :: "u64 \<Rightarrow> u32 \<Rightarrow> u64" where
  "max_age_due_ms now secs = saturating_add now (saturating_mul (ucast secs) 1000)"

datatype observe_lifetime = LifeMaxAge u64 | LifeUnacked u64 message_id

definition lifetime_max_age :: "u64 \<Rightarrow> u32 \<Rightarrow> observe_lifetime" where
  "lifetime_max_age now secs = LifeMaxAge (max_age_due_ms now secs)"

definition lifetime_unacked :: "u64 \<Rightarrow> u32 \<Rightarrow> message_id \<Rightarrow> observe_lifetime" where
  "lifetime_unacked now secs mid = LifeUnacked (max_age_due_ms now secs) mid"

fun lifetime_due_ms :: "observe_lifetime \<Rightarrow> u64" where
  "lifetime_due_ms (LifeMaxAge due) = due"
| "lifetime_due_ms (LifeUnacked due _) = due"

fun lifetime_con_mid :: "observe_lifetime \<Rightarrow> message_id option" where
  "lifetime_con_mid (LifeMaxAge _) = None"
| "lifetime_con_mid (LifeUnacked _ mid) = Some mid"

definition lifetime_is_due :: "observe_lifetime \<Rightarrow> u64 \<Rightarrow> bool" where
  "lifetime_is_due l now \<longleftrightarrow> lifetime_due_ms l \<le> now"

datatype observe_expiry = ExpireMaxAge slot_id | ExpireClientOff slot_id

datatype notify_hold = HoldNon u64 message_id | HoldCon message_id

definition hold_non :: "u64 \<Rightarrow> message_id \<Rightarrow> notify_hold" where
  "hold_non now mid = HoldNon (saturating_add now (ucast OBSERVE_NON_TIMEOUT_MS)) mid"

fun hold_is_held :: "notify_hold \<Rightarrow> u64 \<Rightarrow> bool" where
  "hold_is_held (HoldNon until _) now \<longleftrightarrow> now < until"
| "hold_is_held (HoldCon _) now \<longleftrightarrow> True"

fun hold_con_mid :: "notify_hold \<Rightarrow> message_id option" where
  "hold_con_mid (HoldNon _ _) = None"
| "hold_con_mid (HoldCon mid) = Some mid"

fun hold_message_id :: "notify_hold \<Rightarrow> message_id" where
  "hold_message_id (HoldNon _ mid) = mid"
| "hold_message_id (HoldCon mid) = mid"

section \<open>Interests\<close>

record 't observe_interest =
  oi_selection :: "observe_selection option"
  oi_key :: "'t observe_key"
  oi_resource :: observe_resource
  oi_content_format :: "content_format option"
  oi_response_policy :: u8
  oi_seq :: u32
  oi_pending :: bool
  oi_deleted :: bool
  oi_lifetime :: "observe_lifetime option"
  oi_confirm_due_ms :: "u64 option"
  oi_notify_hold :: "notify_hold option"
  oi_superseded :: "message_id list"
  oi_superseded_len :: u8
  oi_oscore :: "request_ref option"

definition interest_new :: "'t \<Rightarrow> endpoint \<Rightarrow> 't observe_interest" where
  "interest_new token ep =
     \<lparr>oi_selection = None, oi_key = observe_key_new token ep, oi_resource = RESOURCE_NONE,
      oi_content_format = None, oi_response_policy = 0, oi_seq = 0, oi_pending = False,
      oi_deleted = False, oi_lifetime = None, oi_confirm_due_ms = None, oi_notify_hold = None,
      oi_superseded = replicate (unat MAX_RETRANSMIT) 0, oi_superseded_len = 0, oi_oscore = None\<rparr>"

definition interest_new_client :: "'t \<Rightarrow> endpoint \<Rightarrow> 't observe_interest" where
  "interest_new_client token ep = (interest_new token ep)\<lparr>oi_key := observe_key_new_client token ep\<rparr>"

definition interest_from_key :: "'t observe_key \<Rightarrow> 't observe_interest" where
  "interest_from_key k = (interest_new (ok_token k) (ok_endpoint k))\<lparr>oi_key := k\<rparr>"

definition oi_with_selection :: "'t observe_interest \<Rightarrow> observe_selection option \<Rightarrow> 't observe_interest" where
  "oi_with_selection r s = r\<lparr>oi_selection := s\<rparr>"

definition oi_with_resource :: "'t observe_interest \<Rightarrow> observe_resource \<Rightarrow> 't observe_interest" where
  "oi_with_resource r res = r\<lparr>oi_resource := res\<rparr>"

definition oi_with_oscore :: "'t observe_interest \<Rightarrow> request_ref option \<Rightarrow> 't observe_interest" where
  "oi_with_oscore r q = r\<lparr>oi_oscore := q\<rparr>"

definition oi_with_lifetime :: "'t observe_interest \<Rightarrow> observe_lifetime option \<Rightarrow> 't observe_interest" where
  "oi_with_lifetime r l = r\<lparr>oi_lifetime := l\<rparr>"

definition oi_with_content_format :: "'t observe_interest \<Rightarrow> content_format option \<Rightarrow> 't observe_interest" where
  "oi_with_content_format r fmt =
     r\<lparr>oi_content_format := fmt, oi_response_policy := oi_response_policy r AND NOT 0x20\<rparr>"

definition format_unbound :: "'t observe_interest \<Rightarrow> bool" where
  "format_unbound r \<longleftrightarrow> oi_response_policy r AND 0x20 \<noteq> 0"

definition with_unbound_format :: "'t observe_interest \<Rightarrow> 't observe_interest" where
  "with_unbound_format r =
     r\<lparr>oi_content_format := None, oi_response_policy := oi_response_policy r OR 0x20\<rparr>"

definition content_format_matches :: "'t observe_interest \<Rightarrow> code \<Rightarrow> content_format option \<Rightarrow> bool" where
  "content_format_matches r code fmt \<longleftrightarrow>
     format_unbound r \<or> (code = CODE_VALID \<and> fmt = None) \<or> oi_content_format r = fmt"

definition block2_max_szx :: "'t observe_interest \<Rightarrow> u8 option" where
  "block2_max_szx r =
     (if oi_response_policy r AND 0x80 \<noteq> 0 then Some (oi_response_policy r AND 7) else None)"

definition with_block2_max_szx :: "'t observe_interest \<Rightarrow> u8 option \<Rightarrow> 't observe_interest" where
  "with_block2_max_szx r szx =
     r\<lparr>oi_response_policy := (oi_response_policy r AND (24 OR 0x20)) OR
         (case szx of Some v \<Rightarrow> 0x80 OR (v AND 7) | None \<Rightarrow> 0)\<rparr>"

definition with_q_block2 :: "'t observe_interest \<Rightarrow> bool \<Rightarrow> 't observe_interest" where
  "with_q_block2 r enabled =
     r\<lparr>oi_response_policy := (oi_response_policy r AND NOT 0x40) OR (if enabled then 0x40 else 0)\<rparr>"

definition oi_q_block2 :: "'t observe_interest \<Rightarrow> bool" where
  "oi_q_block2 r \<longleftrightarrow> oi_response_policy r AND 0x40 \<noteq> 0"

definition with_no_response :: "'t observe_interest \<Rightarrow> no_response \<Rightarrow> 't observe_interest" where
  "with_no_response r nr = r\<lparr>oi_response_policy := (oi_response_policy r AND NOT 24) OR (nr AND 24)\<rparr>"

definition oi_suppresses :: "'t observe_interest \<Rightarrow> code \<Rightarrow> bool" where
  "oi_suppresses r code = nr_suppresses (oi_response_policy r AND 24) code"

definition mark_deleted :: "'t observe_interest \<Rightarrow> 't observe_interest" where
  "mark_deleted r = (if \<not> ok_client (oi_key r) then r\<lparr>oi_deleted := True, oi_pending := True\<rparr> else r)"

definition oi_with_seq :: "'t observe_interest \<Rightarrow> u32 \<Rightarrow> 't observe_interest" where
  "oi_with_seq r s = r\<lparr>oi_seq := s AND OBSERVE_SEQUENCE_MASK\<rparr>"

definition is_lifetime_due :: "'t observe_interest \<Rightarrow> u64 \<Rightarrow> bool" where
  "is_lifetime_due r now \<longleftrightarrow>
     (case oi_lifetime r of Some l \<Rightarrow> lifetime_is_due l now | None \<Rightarrow> False)"

definition must_confirm :: "'t observe_interest \<Rightarrow> u64 \<Rightarrow> bool" where
  "must_confirm r now \<longleftrightarrow> (case oi_confirm_due_ms r of Some due \<Rightarrow> due \<le> now | None \<Rightarrow> False)"

definition require_confirmation :: "'t observe_interest \<Rightarrow> 't observe_interest" where
  "require_confirmation r = r\<lparr>oi_confirm_due_ms := Some 0\<rparr>"

definition is_notify_held :: "'t observe_interest \<Rightarrow> u64 \<Rightarrow> bool" where
  "is_notify_held r now \<longleftrightarrow>
     (case oi_lifetime r of
        Some (LifeUnacked _ _) \<Rightarrow> True
      | _ \<Rightarrow> (case oi_notify_hold r of Some h \<Rightarrow> hold_is_held h now | None \<Rightarrow> False))"

definition record_notify :: "'t observe_interest \<Rightarrow> u64 \<Rightarrow> message_id \<Rightarrow> bool \<Rightarrow> 't observe_interest" where
  "record_notify r now mid confirmable =
     (if ok_client (oi_key r) then r
      else
        let r = r\<lparr>oi_superseded_len := 0\<rparr> in
        if confirmable then
          r\<lparr>oi_lifetime := None, oi_confirm_due_ms := Some (saturating_add now CONFIRM_INTERVAL_MS),
            oi_notify_hold := Some (HoldCon mid)\<rparr>
        else
          let r = (if oi_confirm_due_ms r = None
                   then r\<lparr>oi_confirm_due_ms := Some (saturating_add now CONFIRM_INTERVAL_MS)\<rparr> else r)
          in r\<lparr>oi_notify_hold := Some (hold_non now mid)\<rparr>)"

definition clear_notify_hold :: "'t observe_interest \<Rightarrow> 't observe_interest" where
  "clear_notify_hold r = r\<lparr>oi_notify_hold := None, oi_superseded_len := 0\<rparr>"

definition superseded_con_mids :: "'t observe_interest \<Rightarrow> message_id list" where
  "superseded_con_mids r = take (unat (oi_superseded_len r)) (oi_superseded r)"

definition mark_due :: "'t observe_interest \<Rightarrow> 't observe_interest" where
  "mark_due r = (if \<not> ok_client (oi_key r) then r\<lparr>oi_pending := True\<rparr> else r)"

definition take_due :: "'t observe_interest \<Rightarrow> u32 option \<times> 't observe_interest" where
  "take_due r =
     (if \<not> oi_pending r then (None, r)
      else
        let s = (oi_seq r + 1) AND OBSERVE_SEQUENCE_MASK in
        (Some s, r\<lparr>oi_pending := False, oi_seq := s\<rparr>))"

definition restore_due :: "'t observe_interest \<Rightarrow> u32 \<Rightarrow> 't observe_interest" where
  "restore_due r s =
     (if oi_pending r \<or> oi_seq r \<noteq> s then r
      else r\<lparr>oi_pending := True, oi_seq := (s - 1) AND OBSERVE_SEQUENCE_MASK\<rparr>)"

definition supersede_con :: "'t observe_interest \<Rightarrow> u64 \<Rightarrow> message_id \<Rightarrow> 't observe_interest option" where
  "supersede_con r now mid =
     Option.bind (Option.bind (oi_notify_hold r) hold_con_mid) (\<lambda>old.
     if \<not> oi_pending r \<or> ok_client (oi_key r) \<or> unat (oi_superseded_len r) = length (oi_superseded r) \<or>
        mid = old \<or> mid \<in> set (superseded_con_mids r)
     then None
     else case take_due r of
         (None, _) \<Rightarrow> None
       | (Some _, r) \<Rightarrow>
           Some (r\<lparr>oi_superseded := (oi_superseded r)[unat (oi_superseded_len r) := old],
                   oi_superseded_len := oi_superseded_len r + 1, oi_notify_hold := Some (HoldCon mid),
                   oi_lifetime := None, oi_confirm_due_ms := Some (saturating_add now CONFIRM_INTERVAL_MS)\<rparr>))"

definition take_expired :: "'t observe_interest \<Rightarrow> u64 \<Rightarrow> observe_lifetime option \<times> 't observe_interest" where
  "take_expired r now =
     (case oi_lifetime r of
        None \<Rightarrow> (None, r)
      | Some life \<Rightarrow>
          if \<not> lifetime_is_due life now then (None, r)
          else
            let r = r\<lparr>oi_lifetime := None\<rparr> in
            case life of
              LifeUnacked _ _ \<Rightarrow> (Some life, r\<lparr>oi_pending := False, oi_notify_hold := None, oi_superseded_len := 0\<rparr>)
            | LifeMaxAge _ \<Rightarrow> (Some life, r))"

section \<open>The table\<close>

type_synonym 't observe_table = "'t observe_interest table"

definition observe_new :: "nat \<Rightarrow> 't observe_table" where
  "observe_new ENTRIES = table_new ENTRIES"

definition observe_insert :: "'t observe_table \<Rightarrow> 't observe_interest \<Rightarrow> slot_id option \<times> 't observe_table" where
  "observe_insert t r = table_insert oi_key t r"

definition observe_lookup :: "'t observe_table \<Rightarrow> 't observe_key \<Rightarrow> slot_id option" where
  "observe_lookup t k = table_lookup oi_key t k"

definition observe_remove :: "'t observe_table \<Rightarrow> 't observe_key \<Rightarrow> bool \<times> 't observe_table" where
  "observe_remove t k = table_remove oi_key t k"

definition observe_take :: "'t observe_table \<Rightarrow> 't observe_key \<Rightarrow> 't observe_interest option \<times> 't observe_table" where
  "observe_take t k = table_take oi_key t k"

definition observe_entry :: "'t observe_table \<Rightarrow> slot_id \<Rightarrow> 't observe_interest option" where
  "observe_entry t i = table_entry t i"

definition observe_set_entry ::
  "'t observe_table \<Rightarrow> slot_id \<Rightarrow> 't observe_interest \<Rightarrow> (slot_error + unit) \<times> 't observe_table" where
  "observe_set_entry t i r = table_set_entry t i r"

interpretation observes: keyed_store "store_inv oi_key" "table_row oi_key" observe_insert observe_take
    oi_key id table_cap
  unfolding observe_insert_def observe_take_def
  by (rule table_keyed_store) (metis id_apply prod.collapse store_take)

end
