(* ===== verification/Store_Pending.thy ===== *)
theory Store_Pending
  imports Store_Observe
begin

text \<open>
  Datagram pools and pending confirmable messages (\<open>src/storage/pool.rs\<close>, \<open>pending.rs\<close>,
  \<open>memory.rs\<close>): the slots that hold outgoing datagrams, the mark that a slot waits for an
  acknowledgement, the retransmission timer, the limit on outstanding messages per peer and the
  rotating choice of the next due slot. The const generics \<open>SLOTS\<close> and \<open>BYTES\<close> are arguments.
\<close>

section \<open>Retransmission timers\<close>

record pending_rto =
  pr_attempts :: u8
  pr_started :: bool
  pr_next_timeout_ms :: u64
  pr_timeout_ms :: u32

definition rto_new :: "u64 \<Rightarrow> u32 \<Rightarrow> pending_rto" where
  "rto_new now jitter =
     (let timeout = initial_timeout_ms jitter in
      \<lparr>pr_attempts = 0, pr_started = True, pr_next_timeout_ms = saturating_add now (ucast timeout),
       pr_timeout_ms = timeout\<rparr>)"

definition rto_reserved :: pending_rto where
  "rto_reserved = \<lparr>pr_attempts = 0, pr_started = False, pr_next_timeout_ms = 0, pr_timeout_ms = 0\<rparr>"

definition rto_next_timeout_ms :: "pending_rto \<Rightarrow> u64 option" where
  "rto_next_timeout_ms r = (if pr_started r then Some (pr_next_timeout_ms r) else None)"

definition rto_is_due :: "pending_rto \<Rightarrow> u64 \<Rightarrow> bool" where
  "rto_is_due r now \<longleftrightarrow> pr_started r \<and> pr_next_timeout_ms r \<le> now"

definition next_attempt :: "pending_rto \<Rightarrow> u64 \<Rightarrow> pending_rto option" where
  "next_attempt r now =
     (if \<not> pr_started r \<or> MAX_RETRANSMIT \<le> pr_attempts r then None
      else
        let timeout = saturating_mul (pr_timeout_ms r) 2 in
        Some \<lparr>pr_attempts = saturating_add (pr_attempts r) 1, pr_started = True,
              pr_next_timeout_ms = saturating_add now (ucast timeout), pr_timeout_ms = timeout\<rparr>)"

section \<open>Pending messages\<close>

record pending_con =
  pc_message_id :: message_id
  pc_endpoint :: endpoint
  pc_tx_slot :: slot_id
  pc_rto :: pending_rto

definition pending_con_new :: "message_id \<Rightarrow> endpoint \<Rightarrow> slot_id \<Rightarrow> pending_con" where
  "pending_con_new mid ep i =
     \<lparr>pc_message_id = mid, pc_endpoint = ep, pc_tx_slot = i, pc_rto = rto_new 0 0\<rparr>"

definition with_rto :: "pending_con \<Rightarrow> pending_rto \<Rightarrow> pending_con" where
  "with_rto p r =
     \<lparr>pc_message_id = pc_message_id p, pc_endpoint = pc_endpoint p, pc_tx_slot = pc_tx_slot p, pc_rto = r\<rparr>"

datatype retransmit = Due pending_con | GiveUp pending_con

datatype pending_replace_error =
  Stale | InvalidMessage | ReplaceSlot slot_error | ReplaceBody block_error | Unsupported

definition validate_replacement ::
  "pending_con \<Rightarrow> pending_con option \<Rightarrow> bytes option \<Rightarrow> bytes \<Rightarrow> nat \<Rightarrow> bool \<Rightarrow>
     pending_replace_error + pending_con" where
  "validate_replacement expected current original bs capacity pinned =
     (if current \<noteq> Some expected \<or> \<not> pr_started (pc_rto expected) then Inl Stale
      else if pinned then Inl (ReplaceSlot SE_Pinned)
      else if capacity < length bs then Inl (ReplaceSlot SE_LengthExceedsSlot)
      else
        and_then (ok_or Stale original) (\<lambda>orig.
        and_then (map_err (\<lambda>_. InvalidMessage) (extended_decode orig)) (\<lambda>old.
        and_then (map_err (\<lambda>_. InvalidMessage) (extended_decode bs)) (\<lambda>new.
        if hdr_ty (pt_header old) \<noteq> Confirmable \<or> code_is_empty (hdr_code (pt_header old)) \<or>
           hdr_id (pt_header old) \<noteq> pc_message_id expected \<or>
           hdr_ty (pt_header new) \<noteq> Confirmable \<or> code_is_empty (hdr_code (pt_header new)) \<or>
           hdr_id (pt_header new) = pc_message_id expected \<or> pt_token new \<noteq> pt_token old
        then Inl InvalidMessage
        else Inr (with_rto (pending_con_new (hdr_id (pt_header new)) (pc_endpoint expected)
                              (pc_tx_slot expected)) (pc_rto expected))))))"

record pending_mark =
  mk_message_id :: message_id
  mk_rto :: pending_rto

definition mark_new :: "message_id \<Rightarrow> pending_rto \<Rightarrow> pending_mark" where
  "mark_new mid r = \<lparr>mk_message_id = mid, mk_rto = r\<rparr>"

record due_slot =
  ds_id :: slot_id
  ds_event :: retransmit
  ds_mark :: "pending_mark option"

definition due_snapshot :: "pending_con \<Rightarrow> u64 \<Rightarrow> due_slot option" where
  "due_snapshot p now =
     (if \<not> rto_is_due (pc_rto p) now then None
      else Some (case next_attempt (pc_rto p) now of
          Some r \<Rightarrow> \<lparr>ds_id = pc_tx_slot p, ds_event = Due (with_rto p r),
                     ds_mark = Some (mark_new (pc_message_id p) r)\<rparr>
        | None \<Rightarrow> \<lparr>ds_id = pc_tx_slot p, ds_event = GiveUp p, ds_mark = None\<rparr>))"

definition next_due_slot ::
  "nat \<Rightarrow> nat \<Rightarrow> u64 \<Rightarrow> (slot_id \<Rightarrow> pending_con option) \<Rightarrow> due_slot option" where
  "next_due_slot slot_count start now pending_at =
     (if slot_count = 0 then None
      else
        let start = start mod slot_count in
        find_map (\<lambda>i. case pending_at i of None \<Rightarrow> None | Some p \<Rightarrow> due_snapshot p now)
          ([start..<slot_count] @ [0..<start]))"

definition outstanding_pending :: "nat \<Rightarrow> endpoint \<Rightarrow> (slot_id \<Rightarrow> pending_con option) \<Rightarrow> nat" where
  "outstanding_pending slot_count ep pending_at =
     length (filter (\<lambda>i. case pending_at i of
                           Some p \<Rightarrow> endpoint_physical (pc_endpoint p) = endpoint_physical ep
                         | None \<Rightarrow> False) [0..<slot_count])"

definition record_admission ::
  "pending_con option \<Rightarrow> message_id \<Rightarrow> endpoint \<Rightarrow> nat \<Rightarrow> bool option" where
  "record_admission existing mid ep outstanding =
     (let full = (if unat NSTART \<le> outstanding then None else Some True) in
      case existing of
        Some p \<Rightarrow>
          if pc_message_id p = mid \<and> pc_endpoint p = ep then Some False
          else if endpoint_physical (pc_endpoint p) = endpoint_physical ep then Some True
          else full
      | None \<Rightarrow> full)"

section \<open>Datagram pools\<close>

record datagram_pool =
  dp_bytes :: "bytes list"
  dp_lens :: "nat list"
  dp_endpoints :: "endpoint option list"
  dp_pending :: "pending_mark option list"
  dp_occ :: occupancy

datatype slot_message_error =
  SME_Slot slot_error | SME_Parse parse_error | SME_TokenCapacity capacity_error | SME_Encode encode_error

definition datagram_pool_new :: "nat \<Rightarrow> nat \<Rightarrow> datagram_pool" where
  "datagram_pool_new SLOTS BYTES =
     \<lparr>dp_bytes = replicate SLOTS (replicate BYTES 0), dp_lens = replicate SLOTS 0,
      dp_endpoints = replicate SLOTS None, dp_pending = replicate SLOTS None,
      dp_occ = occ_new SLOTS SLOTS\<rparr>"

definition dp_slot_error :: "datagram_pool \<Rightarrow> slot_id \<Rightarrow> slot_error" where
  "dp_slot_error p i = (if i < length (dp_lens p) then SE_NotOccupied else SE_InvalidSlot)"

definition dp_payload :: "datagram_pool \<Rightarrow> slot_id \<Rightarrow> bytes option" where
  "dp_payload p i =
     (if \<not> occ_is_occupied (dp_occ p) i then None else Some (take (dp_lens p ! i) (dp_bytes p ! i)))"

definition dp_payload_mut :: "datagram_pool \<Rightarrow> slot_id \<Rightarrow> bytes option" where
  "dp_payload_mut p i = (if \<not> occ_is_occupied (dp_occ p) i then None else Some (dp_bytes p ! i))"

definition dp_decode :: "datagram_pool \<Rightarrow> slot_id \<Rightarrow> slot_message_error + token parsed_message" where
  "dp_decode p i =
     and_then (ok_or (SME_Slot SE_NotOccupied) (dp_payload p i)) (\<lambda>bs. map_err SME_Parse (decode bs))"

definition dp_set_len :: "nat \<Rightarrow> datagram_pool \<Rightarrow> slot_id \<Rightarrow> nat \<Rightarrow> (slot_error + unit) \<times> datagram_pool" where
  "dp_set_len BYTES p i n =
     (if \<not> occ_is_occupied (dp_occ p) i then (Inl (dp_slot_error p i), p)
      else if BYTES < n then (Inl SE_LengthExceedsSlot, p)
      else (Inr (), p\<lparr>dp_lens := (dp_lens p)[i := n]\<rparr>))"

definition dp_encode ::
  "nat \<Rightarrow> datagram_pool \<Rightarrow> slot_id \<Rightarrow> token message \<Rightarrow> (slot_message_error + nat) \<times> datagram_pool" where
  "dp_encode BYTES p i msg =
     (case dp_payload_mut p i of
        None \<Rightarrow> (Inl (SME_Slot SE_NotOccupied), p)
      | Some buf \<Rightarrow>
          (case encode compact_owned msg buf of
             (r, buf) \<Rightarrow>
               let p = p\<lparr>dp_bytes := (dp_bytes p)[i := buf]\<rparr> in
               case r of
                 Inl e \<Rightarrow> (Inl (SME_Encode e), p)
               | Inr n \<Rightarrow>
                   (case dp_set_len BYTES p i n of
                      (Inl e, p) \<Rightarrow> (Inl (SME_Slot e), p)
                    | (Inr _, p) \<Rightarrow> (Inr n, p))))"

definition dp_endpoint :: "datagram_pool \<Rightarrow> slot_id \<Rightarrow> endpoint option" where
  "dp_endpoint p i = (if \<not> occ_is_occupied (dp_occ p) i then None else dp_endpoints p ! i)"

definition dp_set_endpoint ::
  "datagram_pool \<Rightarrow> slot_id \<Rightarrow> endpoint \<Rightarrow> (slot_error + unit) \<times> datagram_pool" where
  "dp_set_endpoint p i ep =
     (if \<not> occ_is_occupied (dp_occ p) i then (Inl (dp_slot_error p i), p)
      else (Inr (), p\<lparr>dp_endpoints := (dp_endpoints p)[i := Some ep]\<rparr>))"

definition dp_write ::
  "nat \<Rightarrow> datagram_pool \<Rightarrow> slot_id \<Rightarrow> bytes \<Rightarrow> endpoint \<Rightarrow> (slot_error + nat) \<times> datagram_pool" where
  "dp_write BYTES p i bs ep =
     (case dp_payload_mut p i of
        None \<Rightarrow> (Inl (dp_slot_error p i), p)
      | Some buf \<Rightarrow>
          if length buf < length bs then (Inl SE_LengthExceedsSlot, p)
          else
            let p = p\<lparr>dp_bytes := (dp_bytes p)[i := blit buf 0 bs]\<rparr> in
            (case dp_set_len BYTES p i (length bs) of
               (Inl e, p) \<Rightarrow> (Inl e, p)
             | (Inr _, p) \<Rightarrow>
                 (case dp_set_endpoint p i ep of
                    (Inl e, p) \<Rightarrow> (Inl e, p)
                  | (Inr _, p) \<Rightarrow> (Inr (length bs), p))))"

definition dp_pending_mark :: "datagram_pool \<Rightarrow> slot_id \<Rightarrow> pending_mark option" where
  "dp_pending_mark p i =
     (if \<not> occ_is_occupied (dp_occ p) i then None else Option.bind (get_at (dp_pending p) i) id)"

definition dp_pending_mid :: "datagram_pool \<Rightarrow> slot_id \<Rightarrow> message_id option" where
  "dp_pending_mid p i = map_option mk_message_id (dp_pending_mark p i)"

definition dp_pending_rto :: "datagram_pool \<Rightarrow> slot_id \<Rightarrow> pending_rto option" where
  "dp_pending_rto p i = map_option mk_rto (dp_pending_mark p i)"

definition dp_set_pending ::
  "datagram_pool \<Rightarrow> slot_id \<Rightarrow> message_id \<Rightarrow> pending_rto \<Rightarrow> (slot_error + unit) \<times> datagram_pool" where
  "dp_set_pending p i mid r =
     (if \<not> occ_is_occupied (dp_occ p) i then (Inl (dp_slot_error p i), p)
      else (Inr (), p\<lparr>dp_pending := (dp_pending p)[i := Some (mark_new mid r)]\<rparr>))"

definition dp_set_pending_mid ::
  "datagram_pool \<Rightarrow> slot_id \<Rightarrow> message_id \<Rightarrow> (slot_error + unit) \<times> datagram_pool" where
  "dp_set_pending_mid p i mid = dp_set_pending p i mid (rto_new 0 0)"

definition dp_clear_pending_mid :: "datagram_pool \<Rightarrow> slot_id \<Rightarrow> (slot_error + unit) \<times> datagram_pool" where
  "dp_clear_pending_mid p i =
     (if \<not> occ_is_occupied (dp_occ p) i then (Inl (dp_slot_error p i), p)
      else (Inr (), p\<lparr>dp_pending := (dp_pending p)[i := None]\<rparr>))"

definition dp_access :: "datagram_pool \<Rightarrow> slot_id \<Rightarrow> (slot_error + bytes) \<times> datagram_pool" where
  "dp_access p i =
     (case occ_try_pin (dp_occ p) i of
        (Inl e, occ) \<Rightarrow> (Inl e, p\<lparr>dp_occ := occ\<rparr>)
      | (Inr _, occ) \<Rightarrow>
          let p = p\<lparr>dp_occ := occ\<rparr> in
          if length (oc_pinned occ) \<le> i then (Inl SE_InvalidSlot, p)
          else (Inr (take (dp_lens p ! i) (dp_bytes p ! i)), p))"

definition dp_access_mut :: "datagram_pool \<Rightarrow> slot_id \<Rightarrow> (slot_error + bytes) \<times> datagram_pool" where
  "dp_access_mut p i =
     (case occ_try_pin (dp_occ p) i of
        (Inl e, occ) \<Rightarrow> (Inl e, p\<lparr>dp_occ := occ\<rparr>)
      | (Inr _, occ) \<Rightarrow>
          let p = p\<lparr>dp_occ := occ\<rparr> in
          if length (oc_pinned occ) \<le> i then (Inl SE_InvalidSlot, p) else (Inr (dp_bytes p ! i), p))"

definition lookup_pending :: "datagram_pool \<Rightarrow> message_id \<Rightarrow> endpoint \<Rightarrow> slot_id option" where
  "lookup_pending p mid ep =
     find_map (\<lambda>i. if dp_pending_mid p i = Some mid \<and> dp_endpoint p i = Some ep \<and>
                      (case dp_pending_rto p i of Some r \<Rightarrow> pr_started r | None \<Rightarrow> False)
                   then Some i else None) [0..<length (dp_lens p)]"

definition dp_reset :: "datagram_pool \<Rightarrow> slot_id \<Rightarrow> datagram_pool" where
  "dp_reset p i =
     p\<lparr>dp_lens := (dp_lens p)[i := 0], dp_endpoints := (dp_endpoints p)[i := None],
       dp_pending := (dp_pending p)[i := None]\<rparr>"

definition dp_acquire :: "datagram_pool \<Rightarrow> slot_id option \<times> datagram_pool" where
  "dp_acquire p =
     (case occ_acquire (dp_occ p) of
        (None, occ) \<Rightarrow> (None, p\<lparr>dp_occ := occ\<rparr>)
      | (Some i, occ) \<Rightarrow> (Some i, dp_reset (p\<lparr>dp_occ := occ\<rparr>) i))"

definition dp_release :: "datagram_pool \<Rightarrow> slot_id \<Rightarrow> (slot_error + unit) \<times> datagram_pool" where
  "dp_release p i =
     (case occ_release (dp_occ p) i of
        (Inl e, occ) \<Rightarrow> (Inl e, p\<lparr>dp_occ := occ\<rparr>)
      | (Inr _, occ) \<Rightarrow> (Inr (), dp_reset (p\<lparr>dp_occ := occ\<rparr>) i))"

definition dp_advance :: "datagram_pool \<Rightarrow> nat \<Rightarrow> datagram_pool" where
  "dp_advance p steps = p\<lparr>dp_occ := occ_advance (dp_occ p) steps\<rparr>"

definition replace_pending ::
  "nat \<Rightarrow> datagram_pool \<Rightarrow> pending_con \<Rightarrow> bytes \<Rightarrow> (pending_replace_error + pending_con) \<times> datagram_pool" where
  "replace_pending BYTES p expected bs =
     (let i = pc_tx_slot expected;
          current = (case (dp_pending_mid p i, dp_endpoint p i, dp_pending_rto p i) of
                       (Some mid, Some ep, Some r) \<Rightarrow> Some (with_rto (pending_con_new mid ep i) r)
                     | _ \<Rightarrow> None)
      in case validate_replacement expected current (dp_payload p i) bs BYTES (occ_is_pinned (dp_occ p) i) of
           Inl e \<Rightarrow> (Inl e, p)
         | Inr new \<Rightarrow>
             (Inr new,
              p\<lparr>dp_bytes := (dp_bytes p)[i := blit (dp_bytes p ! i) 0 bs],
                dp_lens := (dp_lens p)[i := length bs],
                dp_pending := (dp_pending p)[i := Some (mark_new (pc_message_id new) (pc_rto new))]\<rparr>))"

end
