(* ===== verification/Store_Memory.thy ===== *)
theory Store_Memory
  imports Store_Pending
begin

text \<open>
  The storage of a node (\<open>src/storage/memory.rs\<close>, \<open>table.rs\<close>): the pools and tables as one record,
  pending confirmable messages over the outgoing pool, replies kept for duplicates, and the
  replacement of an outstanding notification. The theorems are about sequences of these operations.
\<close>

record ('t, 'b) memory =
  mem_retransmit_cursor :: nat
  mem_rx :: datagram_pool
  mem_tx :: datagram_pool
  mem_dedup :: dedup_table
  mem_observe :: "'t observe_table"
  mem_exchange :: "'t exchange_table"
  mem_bodies :: 'b

section \<open>Pending messages\<close>

definition mem_pending_con :: "('t, 'b) memory \<Rightarrow> slot_id \<Rightarrow> pending_con option" where
  "mem_pending_con m i =
     Option.bind (dp_pending_mid (mem_tx m) i) (\<lambda>mid.
     Option.bind (dp_endpoint (mem_tx m) i) (\<lambda>ep.
     Option.bind (dp_pending_rto (mem_tx m) i) (\<lambda>r. Some (with_rto (pending_con_new mid ep i) r))))"

definition mem_outstanding :: "('t, 'b) memory \<Rightarrow> endpoint \<Rightarrow> nat" where
  "mem_outstanding m ep = outstanding_pending (occ_slot_count (dp_occ (mem_tx m))) ep (mem_pending_con m)"

definition replace_pending_con ::
  "nat \<Rightarrow> ('t, 'b) memory \<Rightarrow> pending_con \<Rightarrow> bytes \<Rightarrow> (pending_replace_error + pending_con) \<times> ('t, 'b) memory" where
  "replace_pending_con BYTES m expected bs =
     (case replace_pending BYTES (mem_tx m) expected bs of (r, tx) \<Rightarrow> (r, m\<lparr>mem_tx := tx\<rparr>))"

definition reserve_pending_con ::
  "('t, 'b) memory \<Rightarrow> slot_id \<Rightarrow> endpoint \<Rightarrow> message_id \<Rightarrow> pending_con option \<times> ('t, 'b) memory" where
  "reserve_pending_con m i ep mid =
     (if \<not> occ_is_occupied (dp_occ (mem_tx m)) i then (None, m)
      else case mem_pending_con m i of
        Some current \<Rightarrow>
          (if \<not> pr_started (pc_rto current) \<and> pc_message_id current = mid \<and> pc_endpoint current = ep
           then Some current else None, m)
      | None \<Rightarrow>
          (case record_admission None mid ep (mem_outstanding m ep) of
             None \<Rightarrow> (None, m)
           | Some _ \<Rightarrow>
               (case dp_set_endpoint (mem_tx m) i ep of
                  (Inl _, tx) \<Rightarrow> (None, m\<lparr>mem_tx := tx\<rparr>)
                | (Inr _, tx) \<Rightarrow>
                    (case dp_set_pending tx i mid rto_reserved of
                       (Inl _, tx) \<Rightarrow> (None, m\<lparr>mem_tx := tx\<rparr>)
                     | (Inr _, tx) \<Rightarrow> let m = m\<lparr>mem_tx := tx\<rparr> in (mem_pending_con m i, m)))))"

definition commit_pending_con ::
  "('t, 'b) memory \<Rightarrow> pending_con \<Rightarrow> u64 \<Rightarrow> u32 \<Rightarrow> pending_con option \<times> ('t, 'b) memory" where
  "commit_pending_con m expected now jitter =
     (if pr_started (pc_rto expected) \<or> mem_pending_con m (pc_tx_slot expected) \<noteq> Some expected then (None, m)
      else
        (case dp_set_pending (mem_tx m) (pc_tx_slot expected) (pc_message_id expected) (rto_new now jitter) of
           (Inl _, tx) \<Rightarrow> (None, m\<lparr>mem_tx := tx\<rparr>)
         | (Inr _, tx) \<Rightarrow>
             let m = m\<lparr>mem_tx := tx\<rparr> in (mem_pending_con m (pc_tx_slot expected), m)))"

definition cancel_pending_con :: "('t, 'b) memory \<Rightarrow> pending_con \<Rightarrow> bool \<times> ('t, 'b) memory" where
  "cancel_pending_con m expected =
     (if pr_started (pc_rto expected) \<or> mem_pending_con m (pc_tx_slot expected) \<noteq> Some expected then (False, m)
      else
        (case dp_clear_pending_mid (mem_tx m) (pc_tx_slot expected) of
           (r, tx) \<Rightarrow> (is_ok r, m\<lparr>mem_tx := tx\<rparr>)))"

definition record_pending_con ::
  "('t, 'b) memory \<Rightarrow> slot_id \<Rightarrow> endpoint \<Rightarrow> message_id \<Rightarrow> u64 \<Rightarrow> u32 \<Rightarrow> slot_id option \<times> ('t, 'b) memory" where
  "record_pending_con m i ep mid now jitter =
     (if \<not> occ_is_occupied (dp_occ (mem_tx m)) i then (None, m)
      else
        let existing = mem_pending_con m i in
        if (case existing of Some p \<Rightarrow> \<not> pr_started (pc_rto p) | None \<Rightarrow> False) then (None, m)
        else
          (case record_admission existing mid ep (mem_outstanding m ep) of
             None \<Rightarrow> (None, m)
           | Some False \<Rightarrow> (Some i, m)
           | Some True \<Rightarrow>
               (case dp_set_endpoint (mem_tx m) i ep of
                  (Inl _, tx) \<Rightarrow> (None, m\<lparr>mem_tx := tx\<rparr>)
                | (Inr _, tx) \<Rightarrow>
                    (case dp_set_pending tx i mid (rto_new now jitter) of
                       (Inl _, tx) \<Rightarrow> (None, m\<lparr>mem_tx := tx\<rparr>)
                     | (Inr _, tx) \<Rightarrow> (Some i, m\<lparr>mem_tx := tx\<rparr>)))))"

definition lookup_pending_con :: "('t, 'b) memory \<Rightarrow> message_id \<Rightarrow> endpoint \<Rightarrow> slot_id option" where
  "lookup_pending_con m mid ep = lookup_pending (mem_tx m) mid ep"

definition take_pending_con ::
  "('t, 'b) memory \<Rightarrow> message_id \<Rightarrow> endpoint \<Rightarrow> slot_id option \<times> ('t, 'b) memory" where
  "take_pending_con m mid ep =
     (case lookup_pending (mem_tx m) mid ep of
        None \<Rightarrow> (None, m)
      | Some i \<Rightarrow>
          (case dp_clear_pending_mid (mem_tx m) i of
             (Inl _, tx) \<Rightarrow> (None, m\<lparr>mem_tx := tx\<rparr>)
           | (Inr _, tx) \<Rightarrow> (Some i, m\<lparr>mem_tx := tx\<rparr>)))"

definition peek_retransmit :: "('t, 'b) memory \<Rightarrow> u64 \<Rightarrow> pending_con option" where
  "peek_retransmit m now =
     Option.bind (next_due_slot (occ_slot_count (dp_occ (mem_tx m))) (mem_retransmit_cursor m) now
        (mem_pending_con m)) (\<lambda>due. mem_pending_con m (ds_id due))"

definition commit_retransmit ::
  "('t, 'b) memory \<Rightarrow> pending_con \<Rightarrow> u64 \<Rightarrow> retransmit option \<times> ('t, 'b) memory" where
  "commit_retransmit m expected now =
     (if mem_pending_con m (pc_tx_slot expected) \<noteq> Some expected then (None, m)
      else case due_snapshot expected now of
        None \<Rightarrow> (None, m)
      | Some due \<Rightarrow>
          (case (case ds_mark due of
                   Some mark \<Rightarrow> dp_set_pending (mem_tx m) (ds_id due) (mk_message_id mark) (mk_rto mark)
                 | None \<Rightarrow> dp_clear_pending_mid (mem_tx m) (ds_id due)) of
             (Inl _, tx) \<Rightarrow> (None, m\<lparr>mem_tx := tx\<rparr>)
           | (Inr _, tx) \<Rightarrow>
               (Some (ds_event due), m\<lparr>mem_tx := tx, mem_retransmit_cursor := ds_id due + 1\<rparr>)))"

definition poll_retransmit :: "('t, 'b) memory \<Rightarrow> u64 \<Rightarrow> retransmit option \<times> ('t, 'b) memory" where
  "poll_retransmit m now =
     (case peek_retransmit m now of
        None \<Rightarrow> (None, m)
      | Some expected \<Rightarrow> commit_retransmit m expected now)"

section \<open>Tables\<close>

definition try_store_app_dedup :: "('t, 'b) memory \<Rightarrow> dedup_entry \<Rightarrow> (panic + bool option) \<times> ('t, 'b) memory" where
  "try_store_app_dedup m e =
     (case try_store_app (mem_dedup m) e of
        (r, dedup, pins) \<Rightarrow>
          (r, m\<lparr>mem_dedup := dedup, mem_tx := fold (\<lambda>pin tx. snd (dp_release tx pin)) pins (mem_tx m)\<rparr>))"

definition validate_observe_replacement ::
  "'t owned_token \<Rightarrow> ('t, 'b) memory \<Rightarrow> pending_con \<Rightarrow> 't observe_interest \<Rightarrow> 't observe_interest \<Rightarrow> bytes \<Rightarrow>
     pending_replace_error + slot_id" where
  "validate_observe_replacement T m pending original replacement bs =
     and_then (ok_or Stale (observe_lookup (mem_observe m) (oi_key original))) (\<lambda>i.
     if observe_entry (mem_observe m) i \<noteq> Some original \<or>
        ok_endpoint (oi_key original) \<noteq> pc_endpoint pending \<or>
        Option.bind (oi_notify_hold original) hold_con_mid \<noteq> Some (pc_message_id pending) \<or>
        oi_key replacement \<noteq> oi_key original
     then Inl Stale
     else
       and_then (map_err (\<lambda>_. InvalidMessage) (decode_with_token T bs)) (\<lambda>parsed.
       if Option.bind (oi_notify_hold replacement) hold_con_mid \<noteq> Some (hdr_id (pm_header parsed)) \<or>
          pm_token parsed \<noteq> ok_token (oi_key original)
       then Inl InvalidMessage else Inr i))"

definition replace_observe_con ::
  "'t owned_token \<Rightarrow> nat \<Rightarrow> ('t, 'b) memory \<Rightarrow> pending_con \<Rightarrow> 't observe_interest \<Rightarrow> 't observe_interest \<Rightarrow>
     bytes \<Rightarrow> (panic + (pending_replace_error + unit)) \<times> ('t, 'b) memory" where
  "replace_observe_con T BYTES m pending original replacement bs =
     (case validate_observe_replacement T m pending original replacement bs of
        Inl e \<Rightarrow> (Inr (Inl e), m)
      | Inr i \<Rightarrow>
          (case replace_pending_con BYTES m pending bs of
             (Inl e, m) \<Rightarrow> (Inr (Inl e), m)
           | (Inr _, m) \<Rightarrow>
               (case observe_set_entry (mem_observe m) i replacement of
                  (Inl _, observe) \<Rightarrow> (Inl Panic, m\<lparr>mem_observe := observe\<rparr>)
                | (Inr _, observe) \<Rightarrow> (Inr (Inr ()), m\<lparr>mem_observe := observe\<rparr>))))"

end
