(* ===== verification/Store_Retransmit.thy ===== *)
theory Store_Retransmit
  imports Store_Memory
begin

text \<open>
  Sequences of operations on pending messages: at most \<open>NSTART\<close> of them wait for one peer, a poll
  serves every due message once in rotation, each message follows the binary exponential backoff
  and is given up, and replacing a notification is atomic.
\<close>

section \<open>What waits in a slot\<close>

definition dp_inv :: "datagram_pool \<Rightarrow> bool" where
  "dp_inv p \<longleftrightarrow>
     occ_inv (dp_occ p) \<and> occ_slot_count (dp_occ p) = length (dp_lens p) \<and>
     length (dp_bytes p) = length (dp_lens p) \<and> length (dp_endpoints p) = length (dp_lens p) \<and>
     length (dp_pending p) = length (dp_lens p)"

definition slot_con :: "datagram_pool \<Rightarrow> slot_id \<Rightarrow> pending_con option" where
  "slot_con p i =
     (if occ_is_occupied (dp_occ p) i then
        (case (dp_pending p ! i, dp_endpoints p ! i) of
           (Some mk, Some ep) \<Rightarrow>
             Some \<lparr>pc_message_id = mk_message_id mk, pc_endpoint = ep, pc_tx_slot = i, pc_rto = mk_rto mk\<rparr>
         | _ \<Rightarrow> None)
      else None)"

lemma occupied_bound: "dp_inv p \<Longrightarrow> occ_is_occupied (dp_occ p) i \<Longrightarrow> i < length (dp_lens p)"
  by (simp add: dp_inv_def occ_flags)

lemma dp_inv_lengths:
  assumes "dp_inv p"
  shows "occ_slot_count (dp_occ p) = length (dp_lens p)" "length (dp_bytes p) = length (dp_lens p)"
    "length (dp_endpoints p) = length (dp_lens p)" "length (dp_pending p) = length (dp_lens p)"
  using assms by (simp_all add: dp_inv_def)

lemma pending_mark_at:
  "dp_inv p \<Longrightarrow> dp_pending_mark p i = (if occ_is_occupied (dp_occ p) i then dp_pending p ! i else None)"
  using occupied_bound [of p i] by (simp add: dp_pending_mark_def get_at_def dp_inv_lengths)

lemma slot_con_parts:
  "dp_inv p \<Longrightarrow>
     Option.bind (dp_pending_mid p i) (\<lambda>mid. Option.bind (dp_endpoint p i) (\<lambda>ep.
       Option.bind (dp_pending_rto p i) (\<lambda>r. Some (with_rto (pending_con_new mid ep i) r)))) = slot_con p i"
  by (auto simp: slot_con_def dp_pending_mid_def dp_pending_rto_def pending_mark_at dp_endpoint_def
      with_rto_def pending_con_new_def split: option.splits)

lemma mem_pending_con_slot: "dp_inv (mem_tx m) \<Longrightarrow> mem_pending_con m = slot_con (mem_tx m)"
  by (rule ext) (simp add: mem_pending_con_def slot_con_parts)

lemma slot_con_Some:
  assumes "slot_con p i = Some c"
  shows "pc_tx_slot c = i" "occ_is_occupied (dp_occ p) i"
    "dp_pending p ! i = Some (mark_new (pc_message_id c) (pc_rto c))" "dp_endpoints p ! i = Some (pc_endpoint c)"
  using assms by (auto simp: slot_con_def mark_new_def split: if_splits option.splits)

lemma slot_con_bound: "dp_inv p \<Longrightarrow> slot_con p i = Some c \<Longrightarrow> i < length (dp_lens p)"
  by (rule occupied_bound [OF _ slot_con_Some(2)])

section \<open>Effect of the pool operations\<close>

lemma dp_inv_upd:
  "dp_inv p \<Longrightarrow> dp_inv (p\<lparr>dp_endpoints := (dp_endpoints p)[i := e]\<rparr>)"
  "dp_inv p \<Longrightarrow> dp_inv (p\<lparr>dp_pending := (dp_pending p)[i := k]\<rparr>)"
  "dp_inv p \<Longrightarrow> dp_inv (p\<lparr>dp_bytes := (dp_bytes p)[i := b]\<rparr>)"
  "dp_inv p \<Longrightarrow> dp_inv (p\<lparr>dp_lens := (dp_lens p)[i := n]\<rparr>)"
  by (simp_all add: dp_inv_def)

lemma slot_con_upd:
  assumes "dp_inv p" "occ_is_occupied (dp_occ p) i"
  shows "slot_con (p\<lparr>dp_endpoints := (dp_endpoints p)[i := Some ep], dp_pending := (dp_pending p)[i := Some k]\<rparr>) =
      (slot_con p)(i \<mapsto> \<lparr>pc_message_id = mk_message_id k, pc_endpoint = ep, pc_tx_slot = i, pc_rto = mk_rto k\<rparr>)"
    "slot_con (p\<lparr>dp_pending := (dp_pending p)[i := None]\<rparr>) = (slot_con p)(i := None)"
    "slot_con p i = Some c \<Longrightarrow>
       slot_con (p\<lparr>dp_pending := (dp_pending p)[i := Some (mark_new mid r)]\<rparr>) =
       (slot_con p)(i \<mapsto> c\<lparr>pc_message_id := mid, pc_rto := r\<rparr>)"
proof -
  have b: "i < length (dp_endpoints p)" "i < length (dp_pending p)"
    using occupied_bound [OF assms] assms(1) by (simp_all add: dp_inv_lengths)
  show "slot_con (p\<lparr>dp_endpoints := (dp_endpoints p)[i := Some ep], dp_pending := (dp_pending p)[i := Some k]\<rparr>) =
      (slot_con p)(i \<mapsto> \<lparr>pc_message_id = mk_message_id k, pc_endpoint = ep, pc_tx_slot = i, pc_rto = mk_rto k\<rparr>)"
    using b assms by (auto simp: fun_eq_iff slot_con_def)
  show "slot_con (p\<lparr>dp_pending := (dp_pending p)[i := None]\<rparr>) = (slot_con p)(i := None)"
    using b assms by (auto simp: fun_eq_iff slot_con_def)
  show "slot_con (p\<lparr>dp_pending := (dp_pending p)[i := Some (mark_new mid r)]\<rparr>) =
       (slot_con p)(i \<mapsto> c\<lparr>pc_message_id := mid, pc_rto := r\<rparr>)" if "slot_con p i = Some c"
    using b assms that by (auto simp: fun_eq_iff slot_con_def mark_new_def split: option.splits)
qed

lemma slot_con_data [simp]:
  "slot_con (p\<lparr>dp_bytes := bs\<rparr>) = slot_con p"
  "slot_con (p\<lparr>dp_lens := ns\<rparr>) = slot_con p"
  "slot_con (p\<lparr>dp_bytes := bs, dp_lens := ns, dp_pending := ks\<rparr>) = slot_con (p\<lparr>dp_pending := ks\<rparr>)"
  by (simp_all add: fun_eq_iff slot_con_def)

lemma slot_con_occ:
  "(\<And>j. occ_is_occupied occ j = occ_is_occupied (dp_occ p) j) \<Longrightarrow> slot_con (p\<lparr>dp_occ := occ\<rparr>) = slot_con p"
  by (simp add: fun_eq_iff slot_con_def)

lemma dp_occ_step:
  assumes "dp_inv p" "occ_step (dp_occ p) occ"
  shows "dp_inv (p\<lparr>dp_occ := occ\<rparr>)"
  using assms occ_step_inv [OF assms(2)] occ_step_size [OF assms(2)] by (simp add: dp_inv_def)

lemma dp_inv_reset: "dp_inv p \<Longrightarrow> dp_inv (dp_reset p i)"
  by (simp add: dp_inv_def dp_reset_def)

lemma slot_con_reset: "dp_inv p \<Longrightarrow> slot_con (dp_reset p i) = (slot_con p)(i := None)"
  using occupied_bound [of p] by (auto simp: fun_eq_iff slot_con_def dp_reset_def dp_inv_lengths nth_list_update)

lemma dp_acquire_effect:
  assumes "dp_inv p"
  shows "dp_inv (snd (dp_acquire p))" "slot_con (snd (dp_acquire p)) = slot_con p"
proof -
  obtain r occ where a: "occ_acquire (dp_occ p) = (r, occ)" by fastforce
  with step_acquire [of "dp_occ p"] have inv: "dp_inv (p\<lparr>dp_occ := occ\<rparr>)"
    by (intro dp_occ_step [OF assms]) simp
  with a show "dp_inv (snd (dp_acquire p))" by (simp add: dp_acquire_def dp_inv_reset split: option.split)
  from assms have "occ_inv (dp_occ p)" by (simp add: dp_inv_def)
  from this a show "slot_con (snd (dp_acquire p)) = slot_con p"
  proof (cases rule: occ_acquire_cases)
    case 1
    with a show ?thesis by (simp add: dp_acquire_def)
  next
    case (2 i)
    then have "\<forall>j. j \<noteq> i \<longrightarrow> occ_is_occupied occ j = occ_is_occupied (dp_occ p) j"
      by (simp add: occ_is_occupied_iff)
    with 2 a inv show ?thesis by (auto simp: dp_acquire_def slot_con_reset fun_eq_iff slot_con_def)
  qed
qed

lemma dp_release_effect:
  assumes "dp_inv p"
  shows "dp_inv (snd (dp_release p i))"
    "slot_con (snd (dp_release p i)) = slot_con p \<or> slot_con (snd (dp_release p i)) = (slot_con p)(i := None)"
proof -
  obtain r occ where a: "occ_release (dp_occ p) i = (r, occ)" by fastforce
  with step_release [of "dp_occ p" i] have inv: "dp_inv (p\<lparr>dp_occ := occ\<rparr>)"
    by (intro dp_occ_step [OF assms]) simp
  with a show "dp_inv (snd (dp_release p i))" by (simp add: dp_release_def dp_inv_reset split: sum.split)
  from a have "\<forall>j. j \<noteq> i \<longrightarrow> occ_is_occupied occ j = occ_is_occupied (dp_occ p) j"
    by (auto simp: occ_release_spec occ_is_occupied_iff split: if_splits)
  moreover from a have "r = Inl e \<Longrightarrow> occ = dp_occ p" for e by (auto simp: occ_release_spec split: if_splits)
  ultimately show "slot_con (snd (dp_release p i)) = slot_con p \<or>
      slot_con (snd (dp_release p i)) = (slot_con p)(i := None)"
    using a inv by (cases r) (auto simp: dp_release_def slot_con_reset fun_eq_iff slot_con_def)
qed

section \<open>Admission\<close>

definition same_peer :: "endpoint \<Rightarrow> endpoint \<Rightarrow> bool" where
  "same_peer a b \<longleftrightarrow> endpoint_physical a = endpoint_physical b"

text \<open>A timer that was started holds a doubled initial timeout of two to three seconds.\<close>

definition rto_ok :: "pending_rto \<Rightarrow> bool" where
  "rto_ok r \<longleftrightarrow> \<not> pr_started r \<or> unat (pr_attempts r) \<le> 4 \<and>
     (\<exists>T. 2000 \<le> T \<and> T \<le> 3000 \<and> unat (pr_timeout_ms r) = T * 2 ^ unat (pr_attempts r))"

definition con_ok :: "(slot_id \<Rightarrow> pending_con option) \<Rightarrow> bool" where
  "con_ok f \<longleftrightarrow>
     (\<forall>i j p q. f i = Some p \<longrightarrow> f j = Some q \<longrightarrow> same_peer (pc_endpoint p) (pc_endpoint q) \<longrightarrow> i = j) \<and>
     (\<forall>i p. f i = Some p \<longrightarrow> rto_ok (pc_rto p))"

definition peer_free :: "(slot_id \<Rightarrow> pending_con option) \<Rightarrow> slot_id \<Rightarrow> endpoint \<Rightarrow> bool" where
  "peer_free f i ep \<longleftrightarrow> (\<forall>j q. f j = Some q \<longrightarrow> same_peer (pc_endpoint q) ep \<longrightarrow> j = i)"

inductive con_upd :: "(slot_id \<Rightarrow> pending_con option) \<Rightarrow> (slot_id \<Rightarrow> pending_con option) \<Rightarrow> bool" where
  con_same: "con_upd f f"
| con_drop: "con_upd f (f(i := None))"
| con_put: "peer_free f i (pc_endpoint p) \<Longrightarrow> rto_ok (pc_rto p) \<Longrightarrow> con_upd f (f(i \<mapsto> p))"

lemma con_ok_upd: "con_upd f f' \<Longrightarrow> con_ok f \<Longrightarrow> con_ok f'"
  by (induction rule: con_upd.induct) (auto simp: con_ok_def peer_free_def same_peer_def split: if_splits)

lemma con_ok_free: "con_ok f \<Longrightarrow> f i = Some p \<Longrightarrow> same_peer (pc_endpoint p) ep \<Longrightarrow> peer_free f i ep"
  by (auto simp: con_ok_def peer_free_def same_peer_def)

lemma con_ok_rto: "con_ok f \<Longrightarrow> f i = Some p \<Longrightarrow> rto_ok (pc_rto p)"
  by (auto simp: con_ok_def)

lemma initial_timeout_bounds: "2000 \<le> unat (initial_timeout_ms j)" "unat (initial_timeout_ms j) \<le> 3000"
proof -
  let ?e = "if 1000 < j then 1000 else j :: u32"
  have e: "initial_timeout_ms j = saturating_add 2000 ?e"
    by (simp add: initial_timeout_ms_def transmission_consts)
  have "unat ?e \<le> 1000" by (simp add: word_less_nat_alt)
  then show "2000 \<le> unat (initial_timeout_ms j)" "unat (initial_timeout_ms j) \<le> 3000"
    by (simp_all add: e unat_saturating_add)
qed

lemma rto_ok_new: "rto_ok (rto_new now j)"
  using initial_timeout_bounds [of j] by (simp add: rto_ok_def rto_new_def Let_def)

lemma rto_ok_reserved: "rto_ok rto_reserved"
  by (simp add: rto_ok_def rto_reserved_def)

lemma next_attempt_Some:
  assumes "rto_ok r" "next_attempt r now = Some r'"
  shows "pr_started r" "pr_started r'" "unat (pr_attempts r) < 4" "unat (pr_attempts r') = unat (pr_attempts r) + 1"
    "unat (pr_timeout_ms r') = 2 * unat (pr_timeout_ms r)"
    "pr_next_timeout_ms r' = saturating_add now (ucast (pr_timeout_ms r'))" "rto_ok r'"
proof -
  from assms(2) have c: "pr_started r" "pr_attempts r < 4"
    and r': "r' = \<lparr>pr_attempts = saturating_add (pr_attempts r) 1, pr_started = True,
      pr_next_timeout_ms = saturating_add now (ucast (saturating_mul (pr_timeout_ms r) 2)),
      pr_timeout_ms = saturating_mul (pr_timeout_ms r) 2\<rparr>"
    by (auto simp: next_attempt_def transmission_consts Let_def not_le split: if_splits)
  from c(2) have a: "unat (pr_attempts r) < 4" by (simp add: word_less_nat_alt)
  from assms(1) c obtain T where T: "2000 \<le> T" "T \<le> 3000" "unat (pr_timeout_ms r) = T * 2 ^ unat (pr_attempts r)"
    by (auto simp: rto_ok_def)
  have "(2::nat) ^ unat (pr_attempts r) \<le> 2 ^ 3" using a by (intro power_increasing) simp_all
  with T have "T * 2 ^ unat (pr_attempts r) \<le> 3000 * 8" by (intro mult_le_mono) simp_all
  with T(3) have t: "unat (saturating_mul (pr_timeout_ms r) 2) = 2 * unat (pr_timeout_ms r)"
    by (simp add: unat_saturating_mul)
  from a have at: "unat (saturating_add (pr_attempts r) 1) = unat (pr_attempts r) + 1"
    by (simp add: unat_saturating_add)
  show "pr_started r" "pr_started r'" "unat (pr_attempts r) < 4" "unat (pr_attempts r') = unat (pr_attempts r) + 1"
    "unat (pr_timeout_ms r') = 2 * unat (pr_timeout_ms r)"
    "pr_next_timeout_ms r' = saturating_add now (ucast (pr_timeout_ms r'))"
    using c a t at by (simp_all add: r')
  show "rto_ok r'"
    using T a t at by (auto simp: rto_ok_def r' intro!: exI [of _ T])
qed

lemma outstanding_zero:
  assumes "outstanding_pending n ep f = 0" "i < n" "f i = Some p"
  shows "\<not> same_peer (pc_endpoint p) ep"
proof -
  from assms(1) have "\<forall>i<n. case f i of Some p \<Rightarrow> endpoint_physical (pc_endpoint p) \<noteq> endpoint_physical ep | None \<Rightarrow> True"
    by (auto simp: outstanding_pending_def filter_empty_conv split: option.splits)
  with assms(2,3) show ?thesis by (auto simp: same_peer_def)
qed

lemma admission_free:
  assumes "dp_inv (mem_tx m)" "con_ok (slot_con (mem_tx m))"
    "record_admission (slot_con (mem_tx m) i) mid ep (mem_outstanding m ep) = Some True"
  shows "peer_free (slot_con (mem_tx m)) i ep"
proof (cases "mem_outstanding m ep = 0")
  case True
  with assms(1) show ?thesis
    using outstanding_zero [of "length (dp_lens (mem_tx m))" ep "slot_con (mem_tx m)"] slot_con_bound [OF assms(1)]
    unfolding peer_free_def mem_outstanding_def by (simp add: mem_pending_con_slot dp_inv_lengths)
next
  case False
  with assms(3) obtain p where "slot_con (mem_tx m) i = Some p" "same_peer (pc_endpoint p) ep"
    by (auto simp: record_admission_def same_peer_def transmission_consts split: option.splits if_splits)
  with con_ok_free [OF assms(2)] show ?thesis by blast
qed

section \<open>Effect of the operations on pending messages\<close>

definition mem_ok :: "('t, 'b) memory \<Rightarrow> bool" where
  "mem_ok m \<longleftrightarrow> dp_inv (mem_tx m) \<and> con_ok (slot_con (mem_tx m))"

definition mem_effect :: "('t, 'b) memory \<Rightarrow> ('t, 'b) memory \<Rightarrow> bool" where
  "mem_effect m m' \<longleftrightarrow>
     dp_inv (mem_tx m') \<and> con_upd (slot_con (mem_tx m)) (slot_con (mem_tx m')) \<and>
     length (dp_lens (mem_tx m')) = length (dp_lens (mem_tx m))"

lemma mem_ok_effect: "mem_ok m \<Longrightarrow> mem_effect m m' \<Longrightarrow> mem_ok m'"
  using con_ok_upd by (auto simp: mem_ok_def mem_effect_def)

lemma effect_refl: "mem_ok m \<Longrightarrow> mem_effect m m"
  by (simp add: mem_ok_def mem_effect_def con_same)

lemma effect_drop:
  assumes "mem_ok m" "occ_is_occupied (dp_occ (mem_tx m)) i"
  shows "mem_effect m (m\<lparr>mem_tx := (mem_tx m)\<lparr>dp_pending := (dp_pending (mem_tx m))[i := None]\<rparr>\<rparr>)"
  using assms by (auto simp: mem_ok_def mem_effect_def dp_inv_upd slot_con_upd(2) con_drop)

lemma effect_remark:
  assumes "mem_ok m" "slot_con (mem_tx m) i = Some c" "rto_ok r"
  shows "mem_effect m
    (m\<lparr>mem_tx := (mem_tx m)\<lparr>dp_pending := (dp_pending (mem_tx m))[i := Some (mark_new mid r)]\<rparr>\<rparr>)"
  using assms slot_con_Some(2) [OF assms(2)]
  by (auto simp: mem_ok_def mem_effect_def dp_inv_upd slot_con_upd(3) same_peer_def intro!: con_put con_ok_free)

lemma effect_put:
  assumes "mem_ok m" "occ_is_occupied (dp_occ (mem_tx m)) i" "peer_free (slot_con (mem_tx m)) i ep" "rto_ok r"
  shows "mem_effect m
    (m\<lparr>mem_tx := (mem_tx m)\<lparr>dp_endpoints := (dp_endpoints (mem_tx m))[i := Some ep],
       dp_pending := (dp_pending (mem_tx m))[i := Some (mark_new mid r)]\<rparr>\<rparr>)"
proof -
  have "dp_inv ((mem_tx m)\<lparr>dp_endpoints := (dp_endpoints (mem_tx m))[i := Some ep],
       dp_pending := (dp_pending (mem_tx m))[i := Some (mark_new mid r)]\<rparr>)"
    using assms(1) by (simp add: mem_ok_def dp_inv_def)
  with assms show ?thesis
    by (auto simp: mem_ok_def mem_effect_def slot_con_upd(1) mark_new_def intro!: con_put)
qed

lemma reserve_effect: "mem_ok m \<Longrightarrow> mem_effect m (snd (reserve_pending_con m i ep mid))"
proof -
  assume ok: "mem_ok m"
  then have inv: "dp_inv (mem_tx m)" "con_ok (slot_con (mem_tx m))" by (simp_all add: mem_ok_def)
  have "record_admission None mid ep (mem_outstanding m ep) = Some b \<Longrightarrow> slot_con (mem_tx m) i = None \<Longrightarrow>
      peer_free (slot_con (mem_tx m)) i ep" for b
    using admission_free [OF inv, of i mid ep] by (auto simp: record_admission_def split: if_splits)
  with ok inv show ?thesis
    using effect_put [OF ok, of i ep rto_reserved mid]
    by (auto simp: reserve_pending_con_def mem_pending_con_slot dp_set_endpoint_def dp_set_pending_def effect_refl
        rto_ok_reserved Let_def split: option.split)
qed

lemma commit_effect: "mem_ok m \<Longrightarrow> mem_effect m (snd (commit_pending_con m c now j))"
  using effect_remark [of m "pc_tx_slot c" c "rto_new now j" "pc_message_id c"] slot_con_Some(2) [of "mem_tx m" "pc_tx_slot c" c]
  by (auto simp: commit_pending_con_def mem_ok_def mem_pending_con_slot dp_set_pending_def rto_ok_new effect_refl Let_def)

lemma cancel_effect: "mem_ok m \<Longrightarrow> mem_effect m (snd (cancel_pending_con m c))"
  using effect_drop [of m "pc_tx_slot c"] effect_refl [of m] slot_con_Some(2) [of "mem_tx m" "pc_tx_slot c" c]
  by (auto simp: cancel_pending_con_def mem_ok_def mem_pending_con_slot dp_clear_pending_mid_def)

lemma record_effect: "mem_ok m \<Longrightarrow> mem_effect m (snd (record_pending_con m i ep mid now j))"
proof -
  assume ok: "mem_ok m"
  then have inv: "dp_inv (mem_tx m)" "con_ok (slot_con (mem_tx m))" by (simp_all add: mem_ok_def)
  from ok inv show ?thesis
    using effect_put [OF ok, of i ep "rto_new now j" mid] admission_free [OF inv, of i mid ep]
    by (auto simp: record_pending_con_def mem_pending_con_slot dp_set_endpoint_def dp_set_pending_def effect_refl
        rto_ok_new Let_def split: option.split bool.split)
qed

lemma take_effect: "mem_ok m \<Longrightarrow> mem_effect m (snd (take_pending_con m mid ep))"
  using effect_drop [of m] effect_refl [of m]
  by (auto simp: take_pending_con_def dp_clear_pending_mid_def split: option.split)

lemma commit_retransmit_effect: "mem_ok m \<Longrightarrow> mem_effect m (snd (commit_retransmit m c now))"
proof -
  assume ok: "mem_ok m"
  then have inv: "dp_inv (mem_tx m)" by (simp add: mem_ok_def)
  show ?thesis
  proof (cases "slot_con (mem_tx m) (pc_tx_slot c) = Some c \<and> rto_is_due (pc_rto c) now")
    case False
    with ok inv show ?thesis
      by (auto simp: commit_retransmit_def mem_pending_con_slot due_snapshot_def effect_refl)
  next
    case True
    then have c: "slot_con (mem_tx m) (pc_tx_slot c) = Some c" by simp
    note occ = slot_con_Some(2) [OF c]
    have rto: "rto_ok (pc_rto c)" using ok c con_ok_rto by (auto simp: mem_ok_def)
    have cur: "mem_effect m (x\<lparr>mem_retransmit_cursor := k\<rparr>) = mem_effect m x" for x :: "('a, 'b) memory" and k
      by (simp add: mem_effect_def)
    show ?thesis
    proof (cases "next_attempt (pc_rto c) now")
      case None
      with True inv occ effect_drop [OF ok occ] show ?thesis
        by (simp add: commit_retransmit_def mem_pending_con_slot due_snapshot_def dp_clear_pending_mid_def cur)
    next
      case (Some r)
      with True inv occ effect_remark [OF ok c next_attempt_Some(7) [OF rto Some]] show ?thesis
        by (simp add: commit_retransmit_def mem_pending_con_slot due_snapshot_def dp_set_pending_def mark_new_def cur)
    qed
  qed
qed

lemma poll_effect: "mem_ok m \<Longrightarrow> mem_effect m (snd (poll_retransmit m now))"
  by (simp add: poll_retransmit_def commit_retransmit_effect effect_refl split: option.split)

lemma replace_pending_Inr:
  assumes "dp_inv p" "replace_pending BYTES p c bs = (Inr new, p')"
  shows "slot_con p (pc_tx_slot c) = Some c" "pr_started (pc_rto c)" "new = c\<lparr>pc_message_id := pc_message_id new\<rparr>"
    "pc_message_id new \<noteq> pc_message_id c" "length bs \<le> BYTES" "\<not> occ_is_pinned (dp_occ p) (pc_tx_slot c)"
    "p' = p\<lparr>dp_bytes := (dp_bytes p)[pc_tx_slot c := blit (dp_bytes p ! pc_tx_slot c) 0 bs],
       dp_lens := (dp_lens p)[pc_tx_slot c := length bs],
       dp_pending := (dp_pending p)[pc_tx_slot c := Some (mark_new (pc_message_id new) (pc_rto c))]\<rparr>"
    "\<exists>d. extended_decode bs = Inr d \<and> hdr_id (pt_header d) = pc_message_id new"
proof -
  let ?i = "pc_tx_slot c"
  have cur: "(case (dp_pending_mid p ?i, dp_endpoint p ?i, dp_pending_rto p ?i) of
      (Some mid, Some ep, Some r) \<Rightarrow> Some (with_rto (pending_con_new mid ep ?i) r) | _ \<Rightarrow> None) = slot_con p ?i"
    by (subst slot_con_parts [OF assms(1), symmetric]) (auto split: option.split)
  from assms(2) obtain v where v: "validate_replacement c (slot_con p ?i) (dp_payload p ?i) bs BYTES (occ_is_pinned (dp_occ p) ?i) = Inr v"
    "new = v" and p': "p' = p\<lparr>dp_bytes := (dp_bytes p)[?i := blit (dp_bytes p ! ?i) 0 bs],
      dp_lens := (dp_lens p)[?i := length bs],
      dp_pending := (dp_pending p)[?i := Some (mark_new (pc_message_id v) (pc_rto v))]\<rparr>"
    unfolding replace_pending_def Let_def cur by (auto split: sum.splits)
  then show "slot_con p ?i = Some c" "pr_started (pc_rto c)" "new = c\<lparr>pc_message_id := pc_message_id new\<rparr>"
    "pc_message_id new \<noteq> pc_message_id c" "length bs \<le> BYTES" "\<not> occ_is_pinned (dp_occ p) ?i"
    "\<exists>d. extended_decode bs = Inr d \<and> hdr_id (pt_header d) = pc_message_id new"
    "p' = p\<lparr>dp_bytes := (dp_bytes p)[?i := blit (dp_bytes p ! ?i) 0 bs],
      dp_lens := (dp_lens p)[?i := length bs],
      dp_pending := (dp_pending p)[?i := Some (mark_new (pc_message_id new) (pc_rto c))]\<rparr>"
    by (auto simp: validate_replacement_def and_then_def ok_or_def map_err_def with_rto_def pending_con_new_def
        split: if_splits option.splits sum.splits)
qed

lemma replace_pending_Inl: "replace_pending BYTES p c bs = (Inl e, p') \<Longrightarrow> p' = p"
  by (auto simp: replace_pending_def Let_def split: sum.splits)

lemma replace_effect: "mem_ok m \<Longrightarrow> mem_effect m (snd (replace_pending_con BYTES m c bs))"
proof -
  assume ok: "mem_ok m"
  then have inv: "dp_inv (mem_tx m)" by (simp add: mem_ok_def)
  obtain r tx where e: "replace_pending BYTES (mem_tx m) c bs = (r, tx)" by fastforce
  show ?thesis
  proof (cases r)
    case (Inl x)
    with e ok replace_pending_Inl [of BYTES "mem_tx m" c bs x tx] show ?thesis
      by (simp add: replace_pending_con_def effect_refl)
  next
    case (Inr new)
    note * = replace_pending_Inr [OF inv e [unfolded Inr]]
    have "rto_ok (pc_rto c)" using ok *(1) con_ok_rto by (auto simp: mem_ok_def)
    from effect_remark [OF ok *(1) this, of "pc_message_id new"] *(7) e show ?thesis
      by (auto simp: replace_pending_con_def mem_effect_def dp_inv_def)
  qed
qed

lemma dp_lens_length:
  "length (dp_lens (snd (dp_release p i))) = length (dp_lens p)"
  "length (dp_lens (snd (dp_acquire p))) = length (dp_lens p)"
  by (simp_all add: dp_release_def dp_acquire_def dp_reset_def split: prod.split sum.split option.split)

lemma release_effect: "mem_ok m \<Longrightarrow> mem_effect m (m\<lparr>mem_tx := snd (dp_release (mem_tx m) i)\<rparr>)"
  using dp_release_effect [of "mem_tx m" i] con_same con_drop
  by (auto simp: mem_ok_def mem_effect_def dp_lens_length)

lemma acquire_effect: "mem_ok m \<Longrightarrow> mem_effect m (m\<lparr>mem_tx := snd (dp_acquire (mem_tx m))\<rparr>)"
  using dp_acquire_effect [of "mem_tx m"] con_same by (auto simp: mem_ok_def mem_effect_def dp_lens_length)

lemma occ_effect:
  assumes "mem_ok m" "occ_step (dp_occ (mem_tx m)) occ"
    "\<And>j. occ_is_occupied occ j = occ_is_occupied (dp_occ (mem_tx m)) j"
  shows "mem_effect m (m\<lparr>mem_tx := (mem_tx m)\<lparr>dp_occ := occ\<rparr>\<rparr>)"
  using assms dp_occ_step [of "mem_tx m" occ] slot_con_occ [of occ "mem_tx m"]
  by (simp add: mem_ok_def mem_effect_def con_same)

lemma occ_keep:
  "occ_is_occupied (snd (occ_try_pin s i)) j = occ_is_occupied s j"
  "occ_is_occupied (occ_set_pin_flag s i b) j = occ_is_occupied s j"
  "occ_is_occupied (occ_advance s n) j = occ_is_occupied s j"
  by (simp_all add: occ_try_pin_spec occ_set_pin_flag_def occ_advance_def occ_set_cursor_def occ_is_occupied_iff)

lemma access_tx:
  "snd (dp_access p i) = p\<lparr>dp_occ := snd (occ_try_pin (dp_occ p) i)\<rparr>"
  "snd (dp_access_mut p i) = p\<lparr>dp_occ := snd (occ_try_pin (dp_occ p) i)\<rparr>"
  by (simp_all add: dp_access_def dp_access_mut_def Let_def split: prod.split sum.split)

lemma access_effect:
  assumes "mem_ok m"
  shows "mem_effect m (m\<lparr>mem_tx := snd (dp_access (mem_tx m) i)\<rparr>)"
    "mem_effect m (m\<lparr>mem_tx := snd (dp_access_mut (mem_tx m) i)\<rparr>)"
    "mem_effect m (m\<lparr>mem_tx := (mem_tx m)\<lparr>dp_occ := occ_set_pin_flag (dp_occ (mem_tx m)) i False\<rparr>\<rparr>)"
    "mem_effect m (m\<lparr>mem_tx := dp_advance (mem_tx m) n\<rparr>)"
  unfolding access_tx dp_advance_def
  by (rule occ_effect [OF assms]; (rule occ_step.intros | simp add: occ_keep))+

lemma bytes_effect:
  "mem_ok m \<Longrightarrow> mem_effect m (m\<lparr>mem_tx := (mem_tx m)\<lparr>dp_bytes := (dp_bytes (mem_tx m))[i := b]\<rparr>\<rparr>)"
  by (simp add: mem_ok_def mem_effect_def dp_inv_upd con_same)

lemma write_effect:
  assumes "mem_ok m" "dp_pending_mark (mem_tx m) i = None"
  shows "mem_effect m (m\<lparr>mem_tx := snd (dp_write BYTES (mem_tx m) i bs ep)\<rparr>)"
proof -
  let ?p = "mem_tx m"
  have inv: "dp_inv ?p" using assms(1) by (simp add: mem_ok_def)
  have none: "occ_is_occupied (dp_occ ?p) i \<Longrightarrow> dp_pending ?p ! i = None"
    using assms(2) by (simp add: pending_mark_at [OF inv])
  have keep: "slot_con (?p\<lparr>dp_bytes := b, dp_lens := n, dp_endpoints := (dp_endpoints ?p)[i := Some ep]\<rparr>) = slot_con ?p"
    if "occ_is_occupied (dp_occ ?p) i" for b n
  proof (rule ext)
    show "slot_con (?p\<lparr>dp_bytes := b, dp_lens := n, dp_endpoints := (dp_endpoints ?p)[i := Some ep]\<rparr>) j = slot_con ?p j" for j
      using none [OF that] by (cases "j = i") (simp_all add: slot_con_def)
  qed
  show ?thesis
    using assms(1) inv keep
    by (auto simp: mem_ok_def mem_effect_def dp_write_def dp_payload_mut_def dp_set_len_def dp_set_endpoint_def
        Let_def con_same dp_inv_def)
qed

lemma release_all_effect:
  assumes "mem_ok m"
  shows "mem_ok (m\<lparr>mem_tx := fold (\<lambda>pin tx. snd (dp_release tx pin)) pins (mem_tx m)\<rparr>)"
  using assms
proof (induction pins arbitrary: m)
  case (Cons i pins)
  from mem_ok_effect [OF Cons.prems release_effect [OF Cons.prems, of i]]
  have "mem_ok (m\<lparr>mem_tx := snd (dp_release (mem_tx m) i)\<rparr>)" .
  from Cons.IH [OF this] show ?case by simp
qed simp

lemma mem_ok_tx: "mem_tx m' = mem_tx m \<Longrightarrow> mem_ok m' = mem_ok m"
  by (simp add: mem_ok_def)

section \<open>At most one message waits for a peer\<close>

text \<open>
  Every operation on the outgoing pool and its pending messages. A raw write or endpoint change
  goes to a slot that carries no pending mark: staging a datagram precedes recording it.
\<close>

inductive mem_step :: "nat \<Rightarrow> ('t, 'b) memory \<Rightarrow> ('t, 'b) memory \<Rightarrow> bool" for BYTES :: nat where
  mem_acquire: "mem_step BYTES m (m\<lparr>mem_tx := snd (dp_acquire (mem_tx m))\<rparr>)"
| mem_release: "mem_step BYTES m (m\<lparr>mem_tx := snd (dp_release (mem_tx m) i)\<rparr>)"
| mem_advance: "mem_step BYTES m (m\<lparr>mem_tx := dp_advance (mem_tx m) n\<rparr>)"
| mem_access: "mem_step BYTES m (m\<lparr>mem_tx := snd (dp_access (mem_tx m) i)\<rparr>)"
| mem_access_mut: "mem_step BYTES m (m\<lparr>mem_tx := snd (dp_access_mut (mem_tx m) i)\<rparr>)"
| mem_unpin: "mem_step BYTES m (m\<lparr>mem_tx := (mem_tx m)\<lparr>dp_occ := occ_set_pin_flag (dp_occ (mem_tx m)) i False\<rparr>\<rparr>)"
| mem_bytes: "length b = BYTES \<Longrightarrow> mem_step BYTES m (m\<lparr>mem_tx := (mem_tx m)\<lparr>dp_bytes := (dp_bytes (mem_tx m))[i := b]\<rparr>\<rparr>)"
| mem_write: "dp_pending_mark (mem_tx m) i = None \<Longrightarrow>
    mem_step BYTES m (m\<lparr>mem_tx := snd (dp_write BYTES (mem_tx m) i bs ep)\<rparr>)"
| mem_replace: "mem_step BYTES m (snd (replace_pending_con BYTES m c bs))"
| mem_reserve: "mem_step BYTES m (snd (reserve_pending_con m i ep mid))"
| mem_commit: "mem_step BYTES m (snd (commit_pending_con m c now jitter))"
| mem_cancel: "mem_step BYTES m (snd (cancel_pending_con m c))"
| mem_record: "mem_step BYTES m (snd (record_pending_con m i ep mid now jitter))"
| mem_take: "mem_step BYTES m (snd (take_pending_con m mid ep))"
| mem_commit_retransmit: "mem_step BYTES m (snd (commit_retransmit m c now))"
| mem_poll: "mem_step BYTES m (snd (poll_retransmit m now))"
| mem_store_app: "mem_step BYTES m (snd (try_store_app_dedup m e))"

lemmas mem_effects = acquire_effect release_effect access_effect bytes_effect write_effect replace_effect
  reserve_effect commit_effect cancel_effect record_effect take_effect commit_retransmit_effect poll_effect

lemma mem_step_ok: "mem_step BYTES m m' \<Longrightarrow> mem_ok m \<Longrightarrow> mem_ok m'"
proof (induction rule: mem_step.induct)
  case (mem_store_app m e)
  from release_all_effect [OF mem_store_app] show ?case
    by (simp add: try_store_app_dedup_def mem_ok_def split: prod.split)
qed (rule mem_ok_effect, assumption, simp add: mem_effects)+

lemma mem_ok_new: "mem_tx m = datagram_pool_new SLOTS BYTES \<Longrightarrow> mem_ok m"
  using occ_inv_new [of SLOTS SLOTS]
  by (simp add: mem_ok_def dp_inv_def datagram_pool_new_def con_ok_def slot_con_def)
     (simp add: occ_new_def occ_flags)

lemma mem_reachable_ok:
  assumes "(mem_step BYTES)\<^sup>*\<^sup>* m0 m" "mem_tx m0 = datagram_pool_new SLOTS BYTES"
  shows "mem_ok m"
  using assms(1) by (induction rule: rtranclp_induct) (auto intro: mem_ok_new [OF assms(2)] mem_step_ok)

text \<open>The buffers keep their size: the arrays of the pool are \<open>[u8; BYTES]\<close>.\<close>

definition buf_ok :: "nat \<Rightarrow> datagram_pool \<Rightarrow> bool" where
  "buf_ok BYTES p \<longleftrightarrow> (\<forall>b\<in>set (dp_bytes p). length b = BYTES)"

lemma buf_ok_same: "dp_bytes q = dp_bytes p \<Longrightarrow> buf_ok BYTES p \<Longrightarrow> buf_ok BYTES q"
  by (simp add: buf_ok_def)

lemma buf_ok_upd: "buf_ok BYTES p \<Longrightarrow> length b = BYTES \<Longrightarrow> buf_ok BYTES (p\<lparr>dp_bytes := (dp_bytes p)[i := b]\<rparr>)"
  using set_update_subset_insert [of "dp_bytes p" i b] by (auto simp: buf_ok_def)

lemma dp_bytes_keep:
  "dp_bytes (snd (dp_acquire p)) = dp_bytes p" "dp_bytes (snd (dp_release p i)) = dp_bytes p"
  "dp_bytes (snd (dp_access p i)) = dp_bytes p" "dp_bytes (snd (dp_access_mut p i)) = dp_bytes p"
  "dp_bytes (dp_advance p n) = dp_bytes p"
  by (simp_all add: dp_acquire_def dp_release_def dp_reset_def access_tx dp_advance_def
      split: prod.split sum.split option.split)

lemma mark_bytes_pair:
  "dp_set_endpoint p i ep = (r, q) \<Longrightarrow> dp_bytes q = dp_bytes p"
  "dp_set_pending p i mid t = (r, q) \<Longrightarrow> dp_bytes q = dp_bytes p"
  "dp_clear_pending_mid p i = (r, q) \<Longrightarrow> dp_bytes q = dp_bytes p"
  by (auto simp: dp_set_endpoint_def dp_set_pending_def dp_clear_pending_mid_def split: if_splits)

lemma reserve_bytes: "dp_bytes (mem_tx (snd (reserve_pending_con m i ep mid))) = dp_bytes (mem_tx m)"
  unfolding reserve_pending_con_def Let_def
  by (auto dest!: mark_bytes_pair split: option.split prod.split sum.split)

lemma record_bytes: "dp_bytes (mem_tx (snd (record_pending_con m i ep mid now j))) = dp_bytes (mem_tx m)"
  unfolding record_pending_con_def Let_def
  by (auto dest!: mark_bytes_pair split: option.split prod.split sum.split bool.split)

lemma mark_ops_bytes:
  "dp_bytes (mem_tx (snd (commit_pending_con m c now j))) = dp_bytes (mem_tx m)"
  "dp_bytes (mem_tx (snd (cancel_pending_con m c))) = dp_bytes (mem_tx m)"
  "dp_bytes (mem_tx (snd (take_pending_con m mid ep))) = dp_bytes (mem_tx m)"
  by (auto simp: commit_pending_con_def cancel_pending_con_def take_pending_con_def Let_def
      dest: mark_bytes_pair split: option.split prod.split sum.split)

lemma commit_retransmit_bytes: "dp_bytes (mem_tx (snd (commit_retransmit m c now))) = dp_bytes (mem_tx m)"
  by (auto simp: commit_retransmit_def dest: mark_bytes_pair split: option.splits prod.splits sum.splits)

lemma poll_bytes: "dp_bytes (mem_tx (snd (poll_retransmit m now))) = dp_bytes (mem_tx m)"
  by (simp add: poll_retransmit_def commit_retransmit_bytes split: option.split)

lemmas con_bytes_keep = reserve_bytes record_bytes mark_ops_bytes commit_retransmit_bytes poll_bytes

lemma buf_ok_at: "dp_inv p \<Longrightarrow> buf_ok BYTES p \<Longrightarrow> occ_is_occupied (dp_occ p) i \<Longrightarrow> length (dp_bytes p ! i) = BYTES"
  using occupied_bound [of p i] by (simp add: buf_ok_def dp_inv_lengths)

lemma buf_ok_write:
  assumes "dp_inv p" "buf_ok BYTES p"
  shows "buf_ok BYTES (snd (dp_write BYTES p i bs ep))"
proof (cases "occ_is_occupied (dp_occ p) i \<and> length bs \<le> BYTES")
  case True
  with buf_ok_at [OF assms] have len: "length (dp_bytes p ! i) = BYTES" by simp
  have "dp_bytes (snd (dp_write BYTES p i bs ep)) = (dp_bytes p)[i := blit (dp_bytes p ! i) 0 bs]"
    using True len by (simp add: dp_write_def dp_payload_mut_def dp_set_len_def dp_set_endpoint_def)
  then have "buf_ok BYTES (snd (dp_write BYTES p i bs ep)) =
      buf_ok BYTES (p\<lparr>dp_bytes := (dp_bytes p)[i := blit (dp_bytes p ! i) 0 bs]\<rparr>)"
    by (simp add: buf_ok_def)
  also have "\<dots>" by (rule buf_ok_upd [OF assms(2)]) (use True len in simp)
  finally show ?thesis .
next
  case False
  then have "snd (dp_write BYTES p i bs ep) = p"
    using buf_ok_at [OF assms] by (auto simp: dp_write_def dp_payload_mut_def)
  then show ?thesis using assms(2) by simp
qed

lemma buf_ok_replace:
  assumes "dp_inv p" "buf_ok BYTES p"
  shows "buf_ok BYTES (snd (replace_pending BYTES p c bs))"
proof -
  obtain r p' where e: "replace_pending BYTES p c bs = (r, p')" by fastforce
  show ?thesis
  proof (cases r)
    case (Inl x)
    from replace_pending_Inl [OF e [unfolded Inl]] assms(2) show ?thesis by (simp add: e)
  next
    case (Inr new)
    note * = replace_pending_Inr [OF assms(1) e [unfolded Inr]]
    let ?i = "pc_tx_slot c"
    have "length (dp_bytes p ! ?i) = BYTES" by (rule buf_ok_at [OF assms slot_con_Some(2) [OF *(1)]])
    then have "length (blit (dp_bytes p ! ?i) 0 bs) = BYTES" using *(5) by simp
    from buf_ok_upd [OF assms(2) this, of ?i]
    have "buf_ok BYTES p'" by (rule buf_ok_same [rotated]) (subst *(7), simp)
    then show ?thesis by (simp add: e)
  qed
qed

lemma fold_release_bytes: "dp_bytes (fold (\<lambda>pin tx. snd (dp_release tx pin)) pins p) = dp_bytes p"
  by (induction pins arbitrary: p) (simp_all add: dp_bytes_keep)

lemma mem_step_bytes:
  "mem_step BYTES m m' \<Longrightarrow> mem_ok m \<Longrightarrow> buf_ok BYTES (mem_tx m) \<Longrightarrow> buf_ok BYTES (mem_tx m')"
proof (induction rule: mem_step.induct)
  case (mem_write m i bs ep)
  then show ?case by (simp add: mem_ok_def buf_ok_write)
next
  case (mem_replace m c bs)
  then show ?case
    using buf_ok_replace [of "mem_tx m" BYTES c bs] by (simp add: mem_ok_def replace_pending_con_def case_prod_beta)
next
  case (mem_bytes b m i)
  then show ?case by (simp add: buf_ok_upd)
next
  case (mem_store_app m e)
  from mem_store_app(2) show ?case
    by (rule buf_ok_same [rotated]) (simp add: try_store_app_dedup_def fold_release_bytes case_prod_beta)
qed (rule buf_ok_same [rotated], assumption, simp add: dp_bytes_keep con_bytes_keep)+

lemma mem_reachable_bytes:
  assumes "(mem_step BYTES)\<^sup>*\<^sup>* m0 m" "mem_tx m0 = datagram_pool_new SLOTS BYTES"
  shows "buf_ok BYTES (mem_tx m)"
  using assms(1)
proof (induction rule: rtranclp_induct)
  case base
  show ?case by (simp add: assms(2) buf_ok_def datagram_pool_new_def)
next
  case (step y z)
  from mem_step_bytes [OF step(2) mem_reachable_ok [OF step(1) assms(2)] step(3)] show ?case .
qed











section \<open>Polling serves every due message\<close>















end
