(* ===== verification/Store_Backoff.thy ===== *)
theory Store_Backoff
  imports Store_Retransmit
begin

text \<open>
  The life of one confirmable message under polling: the binary exponential backoff of RFC 7252 as
  a specification of the events a slot produces, and the atomic replacement of an outstanding
  notification by a newer one.
\<close>

section \<open>Exponential backoff\<close>










section \<open>Replacing an outstanding notification\<close>













end
