(* ===== verification/Store_Notify.thy ===== *)
theory Store_Notify
  imports Store_Observe
begin

text \<open>
  Both ends of an observation: what every sequence of operations keeps of an interest row on the
  server, and the client's test whether a notification is newer than the last one
  (\<open>src/app/client.rs\<close>), composed with the sequence numbers that the row hands out.
\<close>

section \<open>Reachable rows\<close>













section \<open>The client's view\<close>

text \<open>
  The two fields of a live call that follow an observation. The lookup of the live call by its
  token and peer is left to the caller: \<open>observe_fresh\<close> and \<open>record_observation\<close> get the fields of
  the row that was found.
\<close>

record observed_state =
  ob_observed :: "(u32 \<times> u64) option"
  ob_format :: "content_format option option"

definition observation_start :: "('t, 'z) parsed_message_scheme \<Rightarrow> u32 option" where
  "observation_start m =
     (if \<not> code_is_success (hdr_code (pm_header m)) \<or>
         (case pm_block2 m of Some (Inr b) \<Rightarrow> bv_num b \<noteq> 0 | _ \<Rightarrow> False) \<or>
         list_ex (\<lambda>b. case b of Inr b \<Rightarrow> bv_num b \<noteq> 0 | Inl _ \<Rightarrow> False) (pm_q_block2 m)
      then None
      else Option.bind (pm_observe m) to_ok)"

definition observe_fresh :: "observed_state \<Rightarrow> ('t, 'z) parsed_message_scheme \<Rightarrow> u64 \<Rightarrow> bool" where
  "observe_fresh live m now =
     (case observation_start m of
        None \<Rightarrow> True
      | Some sequence \<Rightarrow>
          (case ob_observed live of
             None \<Rightarrow> True
           | Some (previous, received) \<Rightarrow>
               let delta = (sequence - previous) AND 0x00ffffff in
               delta \<noteq> 0 \<and> delta < 0x00800000 \<or> 128000 < saturating_sub now received))"

definition observe_format_matches :: "observed_state \<Rightarrow> ('t, 'z) parsed_message_scheme \<Rightarrow> bool" where
  "observe_format_matches live m =
     (if observation_start m = None then True
      else if (case pm_content_format m of Some (Inl _) \<Rightarrow> True | _ \<Rightarrow> False) \<or>
              1 < length (obn_list (get_options m OPT_CONTENT_FORMAT)) then False
      else if hdr_code (pm_header m) = CODE_VALID \<and> pm_content_format m = None then True
      else (case ob_format live of
              None \<Rightarrow> True
            | Some initial \<Rightarrow> initial = Option.bind (pm_content_format m) to_ok))"

definition observe_format_admissible ::
  "observed_state \<Rightarrow> ('t, 'z) parsed_message_scheme \<Rightarrow> u64 \<Rightarrow> bool \<Rightarrow> bool" where
  "observe_format_admissible live m now protected =
     (\<not> protected \<and> \<not> observe_fresh live m now \<or> observe_format_matches live m)"


section \<open>Notifications arrive in order or not at all\<close>









end
