(* ===== verification/Osc_Sender.thy ===== *)
theory Osc_Sender
  imports Osc_Context Coap_Sim
begin

text \<open>
  Behaviour of the security context over time (oscore/context.rs): sender reservations across a
  restart from durable storage, the live request rows as a bounded map from tokens, and the order
  in which notifications are accepted.
\<close>

section \<open>Reservations across a restart\<close>

lemma SEQ_END_not_max: "x \<le> SEQ_END \<Longrightarrow> x \<noteq> - 1"
proof
  assume "x = - 1" and le: "x \<le> SEQ_END"
  then have "(- 1 :: u64) \<le> SEQ_END" by simp
  moreover have "\<not> (- 1 :: u64) \<le> SEQ_END" by code_simp
  ultimately show False by simp
qed

lemma sender_step_guard:
  assumes "sender_step persist op c = (r, c')" "sc_sender_reserved_end c \<noteq> - 1" "sc_sender_reserved_end c \<le> bound"
    and "\<And>e. persist e = Inr () \<Longrightarrow> e \<le> bound" "\<And>n. op = RestoreReservation n \<Longrightarrow> n \<le> bound"
  shows "sc_sender_reserved_end c' \<noteq> - 1 \<and> sc_sender_reserved_end c' \<le> bound"
proof (cases op)
  case TakePiv
  with assms(1-3) show ?thesis
    by (auto simp: sender_step_def take_sender_piv_def split: if_splits sum.splits)
next
  case (SetSeq n)
  with assms(1-3) show ?thesis by (auto simp: sender_step_def set_sender_seq_def split: if_splits)
next
  case (RestoreReservation n)
  with assms(1-3) assms(5) [OF RestoreReservation] show ?thesis
    by (auto simp: sender_step_def restore_sender_reservation_def not_less split: if_splits dest: SEQ_END_not_max)
next
  case (Reserve n)
  then have "c' = c \<or> (\<exists>e. e \<le> SEQ_END \<and> persist e = Inr () \<and> c' = c\<lparr>sc_sender_reserved_end := e\<rparr>)"
    using assms(1)
    by (auto simp: sender_step_def reserve_sender_sequences_def bind_eq_Some_conv
        split: option.splits sum.splits if_splits)
  with assms(2,3,4) SEQ_END_not_max show ?thesis by auto
qed

lemma sender_run_guard:
  assumes "sender_run persist ops c = (ps, c')" "sc_sender_reserved_end c \<noteq> - 1" "sc_sender_reserved_end c \<le> bound"
    and p: "\<And>e. persist e = Inr () \<Longrightarrow> e \<le> bound" and "\<And>n. RestoreReservation n \<in> set ops \<Longrightarrow> n \<le> bound"
  shows "\<forall>p\<in>set ps. piv_seq p < bound"
  using assms(1-3,5)
proof (induction ops arbitrary: c c' ps)
  case (Cons op ops)
  obtain r c1 where st: "sender_step persist op c = (r, c1)" by fastforce
  obtain qs c2 where rn: "sender_run persist ops c1 = (qs, c2)" by fastforce
  from Cons.prems(1) st rn have e: "ps = (case r of None \<Rightarrow> qs | Some p \<Rightarrow> p # qs)" by auto
  have "sc_sender_reserved_end c1 \<noteq> - 1 \<and> sc_sender_reserved_end c1 \<le> bound"
    using sender_step_guard [OF st Cons.prems(2,3) p] Cons.prems(4) by simp
  then have ih: "\<forall>p\<in>set qs. piv_seq p < bound" using Cons.IH [OF rn] Cons.prems(4) by simp
  from st show ?case
  proof (cases rule: sender_step_cases)
    case (2 p)
    then show ?thesis using e ih Cons.prems(3) by auto
  qed (use e ih in simp)
qed simp

text \<open>
  C21: restart after a crash. A sender runs with a durable reservation: its reserved end is at most
  the stored bound and storage acknowledges no larger end. After any calls, a context derived again
  with the same sender identity and common IV that restores the stored bound never issues a number
  of the first life, and no nonce of the second life equals a nonce of the first.
\<close>

theorem reservation_restart:
  assumes "sender_run persist ops c = (ps, c')" "sc_sender_reserved_end c \<noteq> - 1" "sc_sender_reserved_end c \<le> bound"
    and "\<And>e. persist e = Inr () \<Longrightarrow> e \<le> bound" "\<And>n. RestoreReservation n \<in> set ops \<Longrightarrow> n \<le> bound"
    and "context_wf c" "sc_sender_id d = sc_sender_id c" "sc_common_iv d = sc_common_iv c"
    and "restore_sender_reservation d bound = (Inr (), d')" "sender_run persist' ops' d' = (qs, d'')"
  shows "\<forall>p\<in>set ps. \<forall>q\<in>set qs. piv_seq p < bound \<and> bound \<le> piv_seq q \<and> request_nonce c p \<noteq> request_nonce d' q"
proof (intro ballI)
  fix p q
  assume p: "p \<in> set ps" and q: "q \<in> set qs"
  have lo: "piv_seq p < bound" using sender_run_guard [OF assms(1-5)] p by blast
  have d': "d' = d\<lparr>sc_sender_seq := bound, sc_sender_reserved_end := bound\<rparr>"
    using assms(9) by (auto simp: restore_sender_reservation_def split: if_splits)
  note n = sender_run_numbers [OF assms(1)] sender_run_numbers [OF assms(10)]
  have hi: "bound \<le> piv_seq q" using n(2) q by (simp add: d')
  have wf: "piv_wf p" "piv_wf q" using n p q by auto
  have "length (osc_id_as_bytes (sc_sender_id c)) \<le> 7" "length (sc_common_iv c) = 13"
    using assms(6) by (auto simp: context_wf_def osc_id_as_bytes_def piv_consts)
  with wf lo hi have "request_nonce c p \<noteq> request_nonce d' q"
    by (auto simp: request_nonce_def nonce_eq_iff d' assms(7,8))
  with lo hi show "piv_seq p < bound \<and> bound \<le> piv_seq q \<and> request_nonce c p \<noteq> request_nonce d' q" by blast
qed

theorem reservation_restart_witness:
  "let persist = (\<lambda>e. if e \<le> 8 then Inr () else Inl () :: unit + unit);
       c = sample_context 2\<lparr>sc_sender_reserved_end := 0\<rparr>;
       d' = snd (restore_sender_reservation (sample_context 2) 8);
       ps = fst (sender_run persist [TakePiv, Reserve 8, TakePiv, Reserve 1] c);
       qs = fst (sender_run (\<lambda>_. Inr () :: unit + unit) [TakePiv, Reserve 4, TakePiv] d')
   in length ps = 1 \<and> length qs = 1 \<and> request_nonce c (hd ps) \<noteq> request_nonce d' (hd qs)"
proof -
  define persist where "persist = (\<lambda>e :: u64. if e \<le> 8 then Inr () else Inl () :: unit + unit)"
  define c where "c = sample_context 2\<lparr>sc_sender_reserved_end := 0\<rparr>"
  define d' where "d' = snd (restore_sender_reservation (sample_context 2) 8)"
  obtain ps c' where r: "sender_run persist [TakePiv, Reserve 8, TakePiv, Reserve 1] c = (ps, c')" by fastforce
  obtain qs d'' where s: "sender_run (\<lambda>_. Inr () :: unit + unit) [TakePiv, Reserve 4, TakePiv] d' = (qs, d'')" by fastforce
  have "length (fst (sender_run persist [TakePiv, Reserve 8, TakePiv, Reserve 1] c)) = 1"
    unfolding persist_def c_def by code_simp
  moreover have "length (fst (sender_run (\<lambda>_. Inr () :: unit + unit) [TakePiv, Reserve 4, TakePiv] d')) = 1"
    unfolding d'_def by code_simp
  ultimately have l: "length ps = 1" "length qs = 1" using r s by simp_all
  have "restore_sender_reservation (sample_context 2) 8 = (Inr (), d')"
    by (simp add: d'_def restore_sender_reservation_def sample_context_def SEQ_END_def)
  moreover have "context_wf c" by (simp add: c_def context_wf_def sample_context_def piv_consts)
  moreover have "e \<le> 8" if "persist e = Inr ()" for e using that by (simp add: persist_def split: if_splits)
  ultimately have "\<forall>p\<in>set ps. \<forall>q\<in>set qs. request_nonce c p \<noteq> request_nonce d' q"
    using reservation_restart [OF r _ _ _ _ _ _ _ _ s, of 8 "sample_context 2"]
    by (auto simp: c_def)
  moreover have "hd ps \<in> set ps" "hd qs \<in> set qs" using l by (auto simp: length_Suc_conv)
  ultimately show ?thesis using l r s unfolding persist_def c_def d'_def Let_def by auto
qed

section \<open>Live requests as a bounded map\<close>

fun rows_map :: "'t live_request option list \<Rightarrow> 't \<Rightarrow> 't live_request option" where
  "rows_map [] = Map.empty"
| "rows_map (None # rs) = rows_map rs"
| "rows_map (Some r # rs) = (rows_map rs)(lr_token r \<mapsto> r)"

definition rows_tokens :: "'t live_request option list \<Rightarrow> 't list" where
  "rows_tokens rs = map lr_token (List.map_filter (\<lambda>r. r) rs)"

lemma rows_tokens_simps [simp]:
  "rows_tokens [] = []" "rows_tokens (None # rs) = rows_tokens rs"
  "rows_tokens (Some r # rs) = lr_token r # rows_tokens rs"
  by (simp_all add: rows_tokens_def List.map_filter_simps)

lemma row_of_simps [simp]: "row_of t None = False" "row_of t (Some r) = (lr_token r = t)"
  by (simp_all add: row_of_def)

lemma dom_rows_map: "dom (rows_map rs) = set (rows_tokens rs)"
  by (induction rs rule: rows_map.induct) (simp_all del: fun_upd_apply)

lemma rows_map_token: "rows_map rs t = Some r \<Longrightarrow> lr_token r = t"
  by (induction rs rule: rows_map.induct) (auto split: if_splits)

lemma find_live_rows:
  "find (\<lambda>r. lr_token r = t) (List.map_filter (\<lambda>r. r) rs) = rows_map rs t"
  by (induction rs rule: rows_map.induct) (auto simp: List.map_filter_simps)

lemma update_first_length: "update_first P f rs = Some rs' \<Longrightarrow> length rs' = length rs"
  by (induction rs arbitrary: rs') (auto split: if_splits)

lemma update_row_None: "update_first (row_of t) f rs = None \<longleftrightarrow> rows_map rs t = None"
  by (induction rs rule: rows_map.induct) auto

lemma update_row_Some:
  assumes "update_first (row_of t) f rs = Some rs'" "\<And>r. f (Some r) = Some (g r)"
    and "\<And>r. lr_token r = t \<Longrightarrow> lr_token (g r) = t" "distinct (rows_tokens rs)"
  shows "rows_map rs' = (rows_map rs)(t \<mapsto> g (the (rows_map rs t))) \<and> rows_tokens rs' = rows_tokens rs"
  using assms(1,4)
proof (induction rs arbitrary: rs' rule: rows_map.induct)
  case (3 r rs)
  show ?case
  proof (cases "lr_token r = t")
    case True
    then show ?thesis using 3(2) assms(2,3) by auto
  next
    case False
    then obtain xs where "update_first (row_of t) f rs = Some xs" "rs' = Some r # xs"
      using 3(2) by auto
    with 3(1) [of xs] 3(3) False show ?thesis by (auto simp: fun_upd_twist)
  qed
qed auto

lemma clear_row_Some:
  assumes "update_first (row_of t) (\<lambda>_. None) rs = Some rs'" "distinct (rows_tokens rs)"
  shows "rows_map rs' = (rows_map rs)(t := None) \<and> distinct (rows_tokens rs') \<and>
         set (rows_tokens rs') \<subseteq> set (rows_tokens rs)"
  using assms
proof (induction rs arbitrary: rs' rule: rows_map.induct)
  case (3 r rs)
  show ?case
  proof (cases "lr_token r = t")
    case True
    then have "t \<notin> dom (rows_map rs)" using 3(3) by (simp add: dom_rows_map)
    then show ?thesis using True 3(2,3) by (auto simp: domIff fun_upd_idem)
  next
    case False
    then obtain xs where "update_first (row_of t) (\<lambda>_. None) rs = Some xs" "rs' = Some r # xs"
      using 3(2) by auto
    with 3(1) [of xs] 3(3) False show ?thesis by (auto simp: fun_upd_twist)
  qed
qed auto

lemma fill_row_Some:
  assumes "update_first (\<lambda>row. row = None) (\<lambda>_. Some b) rs = Some rs'" "rows_map rs (lr_token b) = None"
    and "distinct (rows_tokens rs)"
  shows "rows_map rs' = (rows_map rs)(lr_token b \<mapsto> b) \<and> distinct (rows_tokens rs') \<and>
         set (rows_tokens rs') = insert (lr_token b) (set (rows_tokens rs))"
  using assms
proof (induction rs arbitrary: rs' rule: rows_map.induct)
  case (2 rs)
  have "lr_token b \<notin> set (rows_tokens rs)" using 2(3) by (simp add: dom_rows_map [symmetric] domIff)
  with 2(2,4) show ?case by auto
next
  case (3 r rs)
  then obtain xs where "update_first (\<lambda>row. row = None) (\<lambda>_. Some b) rs = Some xs" "rs' = Some r # xs" by auto
  with 3(1) [of xs] 3(3,4) show ?case by (auto simp: fun_upd_twist split: if_splits)
qed auto

lemma length_rows_tokens: "length (rows_tokens rs) \<le> length rs"
  by (induction rs rule: rows_map.induct) auto

lemma fill_row_None:
  assumes "distinct (rows_tokens rs)"
  shows "update_first (\<lambda>row. row = None) f rs = None \<longleftrightarrow> card (dom (rows_map rs)) = length rs"
proof -
  have ne: "length (rows_tokens rs) \<noteq> Suc (length rs)" for rs :: "'a live_request option list"
    using length_rows_tokens [of rs] by simp
  have "update_first (\<lambda>row. row = None) f rs = None \<longleftrightarrow> length (rows_tokens rs) = length rs"
    by (induction rs rule: rows_map.induct) (auto simp: ne)
  then show ?thesis using assms by (simp add: dom_rows_map distinct_card)
qed

lemma update_observe_row:
  assumes "distinct (rows_tokens rs)"
  shows "update_first (\<lambda>row. case row of None \<Rightarrow> False | Some r \<Rightarrow> lr_token r = t \<and> lr_observe r) f rs =
    (case rows_map rs t of None \<Rightarrow> None | Some r \<Rightarrow> if lr_observe r then update_first (row_of t) f rs else None)"
  using assms
proof (induction rs rule: rows_map.induct)
  case (3 r rs)
  have "rows_map rs t = None" if "lr_token r = t"
    using 3(2) that by (simp add: dom_rows_map [symmetric] domIff)
  then show ?case using 3 by (auto split: option.splits)
qed (auto split: option.splits)

text \<open>The calls on the live rows and what each returns.\<close>

datatype 't live_op =
    Remember 't request_ref bool | Download 't request_ref | Response 't | Notify 't "partial_iv option" | Take 't

datatype live_out = Done "oscore_error + unit" | Taken "request_ref option"

definition live_step :: "'t live_op \<Rightarrow> 't security_context \<Rightarrow> live_out \<times> 't security_context" where
  "live_step op c =
     (case op of
        Remember t r b \<Rightarrow> (case remember_live c t r b of (x, c) \<Rightarrow> (Done x, c))
      | Download t r \<Rightarrow> (case remember_download c t r of (x, c) \<Rightarrow> (Done x, c))
      | Response t \<Rightarrow> (case accept_response_without_piv c t of (x, c) \<Rightarrow> (Done x, c))
      | Notify t p \<Rightarrow> (case accept_notification c t p of (x, c) \<Rightarrow> (Done x, c))
      | Take t \<Rightarrow> (case context_take c t of (x, c) \<Rightarrow> (Taken x, c)))"

text \<open>The specification: a map from tokens with at most \<open>N\<close> entries.\<close>

definition fresh_row :: "'t \<Rightarrow> request_ref \<Rightarrow> bool \<Rightarrow> 't live_request" where
  "fresh_row t r b = \<lparr>lr_token = t, lr_request = r, lr_observe = b, lr_observe_request = (if b then Some r else None),
     lr_response_no_piv = False, lr_notify_no_piv = False, lr_notify_number = None\<rparr>"

definition map_remember ::
  "nat \<Rightarrow> ('t \<Rightarrow> 't live_request option) \<Rightarrow> 't \<Rightarrow> request_ref \<Rightarrow> bool \<Rightarrow> live_out \<times> ('t \<Rightarrow> 't live_request option)" where
  "map_remember N m t r b =
     (if m t \<noteq> None \<or> card (dom m) < N then (Done (Inr ()), m(t \<mapsto> fresh_row t r b)) else (Done (Inl OE_Saturated), m))"

definition spec_step ::
  "nat \<Rightarrow> 't live_op \<Rightarrow> ('t \<Rightarrow> 't live_request option) \<Rightarrow> live_out \<times> ('t \<Rightarrow> 't live_request option)" where
  "spec_step N op m =
     (case op of
        Remember t r b \<Rightarrow> map_remember N m t r b
      | Download t r \<Rightarrow>
          (case m t of
             None \<Rightarrow> map_remember N m t r False
           | Some x \<Rightarrow> if lr_observe x then (Done (Inr ()), m(t \<mapsto> x\<lparr>lr_request := r, lr_response_no_piv := False\<rparr>))
                       else map_remember N m t r False)
      | Response t \<Rightarrow>
          (case m t of
             None \<Rightarrow> (Done (Inl OE_Context), m)
           | Some x \<Rightarrow> if lr_response_no_piv x then (Done (Inl OE_Replay), m)
                       else (Done (Inr ()), m(t \<mapsto> x\<lparr>lr_response_no_piv := True\<rparr>)))
      | Notify t p \<Rightarrow>
          (case m t of
             None \<Rightarrow> (Done (Inl OE_Context), m)
           | Some x \<Rightarrow>
               (case p of
                  None \<Rightarrow> if lr_notify_no_piv x then (Done (Inl OE_Replay), m)
                          else (Done (Inr ()), m(t \<mapsto> x\<lparr>lr_notify_no_piv := True\<rparr>))
                | Some p \<Rightarrow>
                    if (case lr_notify_number x of None \<Rightarrow> True | Some n \<Rightarrow> n < piv_seq p)
                    then (Done (Inr ()), m(t \<mapsto> x\<lparr>lr_notify_number := Some (piv_seq p)\<rparr>))
                    else (Done (Inl OE_Replay), m)))
      | Take t \<Rightarrow> (Taken (map_option lr_request (m t)), m(t := None)))"

definition live_map :: "'t security_context \<Rightarrow> 't \<Rightarrow> 't live_request option" where
  "live_map c = rows_map (sc_live c)"

definition live_inv :: "nat \<Rightarrow> 't security_context \<Rightarrow> bool" where
  "live_inv N c \<longleftrightarrow> distinct (rows_tokens (sc_live c)) \<and> length (sc_live c) = N"

lemma live_update:
  assumes "live_inv N c" "live_map c t = Some x" "\<And>r. f (Some r) = Some (g r)"
    and "\<And>r. lr_token r = t \<Longrightarrow> lr_token (g r) = t"
  obtains live where "update_first (row_of t) f (sc_live c) = Some live"
    "live_map (c\<lparr>sc_live := live\<rparr>) = (live_map c)(t \<mapsto> g x)" "live_inv N (c\<lparr>sc_live := live\<rparr>)"
proof -
  obtain live where l: "update_first (row_of t) f (sc_live c) = Some live"
    using assms(2) update_row_None [of t f "sc_live c"] by (auto simp: live_map_def)
  with update_row_Some [OF this assms(3,4)] update_first_length [OF l] assms(1,2) that show thesis
    by (simp add: live_map_def live_inv_def del: fun_upd_apply)
qed

lemma remember_live_sim:
  assumes "live_inv N c"
  shows "live_inv N (snd (remember_live c t r b)) \<and>
    map_remember N (live_map c) t r b = map_prod Done live_map (remember_live c t r b)"
proof (cases "live_map c t")
  case (Some x)
  from live_update [OF assms Some, of "\<lambda>_. Some (fresh_row t r b)" "\<lambda>_. fresh_row t r b"]
  obtain live where "update_first (row_of t) (\<lambda>_. Some (fresh_row t r b)) (sc_live c) = Some live"
    "live_map (c\<lparr>sc_live := live\<rparr>) = (live_map c)(t \<mapsto> fresh_row t r b)" "live_inv N (c\<lparr>sc_live := live\<rparr>)"
    by (auto simp: fresh_row_def)
  then show ?thesis using Some
    by (simp add: remember_live_def map_remember_def fresh_row_def del: fun_upd_apply)
next
  case None
  let ?b = "fresh_row t r b"
  have d: "distinct (rows_tokens (sc_live c))" "length (sc_live c) = N" using assms by (auto simp: live_inv_def)
  have n: "update_first (row_of t) (\<lambda>_. Some ?b) (sc_live c) = None"
    using None by (simp add: update_row_None live_map_def)
  have le: "card (dom (live_map c)) \<le> N"
    using d length_rows_tokens [of "sc_live c"] by (simp add: live_map_def dom_rows_map distinct_card)
  show ?thesis
  proof (cases "update_first (\<lambda>row. row = None) (\<lambda>_. Some ?b) (sc_live c)")
    case N: None
    then show ?thesis using None n d assms fill_row_None [OF d(1), of "\<lambda>_. Some ?b"]
      by (simp add: remember_live_def map_remember_def fresh_row_def live_map_def)
  next
    case (Some live)
    have "card (dom (live_map c)) \<noteq> N"
      using Some d fill_row_None [OF d(1), of "\<lambda>_. Some ?b"] by (simp add: live_map_def)
    moreover have "lr_token ?b = t" by (simp add: fresh_row_def)
    ultimately show ?thesis
      using None n d le Some fill_row_Some [OF Some _ d(1)] update_first_length [OF Some]
      by (simp add: remember_live_def map_remember_def fresh_row_def live_map_def live_inv_def del: fun_upd_apply)
  qed
qed

lemma live_step_sim:
  assumes "live_inv N c"
  shows "live_inv N (snd (live_step op c)) \<and> spec_step N op (live_map c) = map_prod id live_map (live_step op c)"
proof (cases op)
  case (Remember t r b)
  with remember_live_sim [OF assms, of t r b] show ?thesis
    by (simp add: live_step_def spec_step_def case_prod_beta map_prod_def)
next
  case (Download t r)
  have d: "distinct (rows_tokens (sc_live c))" using assms by (simp add: live_inv_def)
  let ?g = "\<lambda>r'. r'\<lparr>lr_request := r, lr_response_no_piv := False\<rparr>"
  note u = update_observe_row [OF d, of t "map_option (\<lambda>r'. r'\<lparr>lr_request := r, lr_response_no_piv := False\<rparr>)"]
  show ?thesis
  proof (cases "\<exists>x. live_map c t = Some x \<and> lr_observe x")
    case True
    then obtain x where x: "live_map c t = Some x" "lr_observe x" by blast
    obtain live where l: "update_first (row_of t) (map_option ?g) (sc_live c) = Some live"
      "live_map (c\<lparr>sc_live := live\<rparr>) = (live_map c)(t \<mapsto> ?g x)" "live_inv N (c\<lparr>sc_live := live\<rparr>)"
      by (rule live_update [OF assms x(1), of "map_option ?g" "?g"]) (simp_all)
    then show ?thesis using x u
      by (simp add: Download live_step_def spec_step_def remember_download_def del: fun_upd_apply)
        (simp add: live_map_def)
  next
    case False
    then have "remember_download c t r = remember_live c t r False"
      "spec_step N op (live_map c) = map_remember N (live_map c) t r False"
      using u by (auto simp: remember_download_def remember_def live_map_def Download spec_step_def split: option.splits)
    with remember_live_sim [OF assms, of t r False] show ?thesis
      by (simp add: Download live_step_def case_prod_beta map_prod_def)
  qed
next
  case (Response t)
  note f = find_live_rows [of t "sc_live c", folded live_map_def live_rows_def]
  show ?thesis
  proof (cases "\<exists>x. live_map c t = Some x \<and> \<not> lr_response_no_piv x")
    case True
    then obtain x where x: "live_map c t = Some x" "\<not> lr_response_no_piv x" by blast
    let ?g = "\<lambda>r. r\<lparr>lr_response_no_piv := True\<rparr>"
    obtain live where l: "update_first (row_of t) (map_option ?g) (sc_live c) = Some live"
      "live_map (c\<lparr>sc_live := live\<rparr>) = (live_map c)(t \<mapsto> ?g x)" "live_inv N (c\<lparr>sc_live := live\<rparr>)"
      by (rule live_update [OF assms x(1), of "map_option ?g" "?g"]) (simp_all)
    then show ?thesis using x f
      by (simp add: Response live_step_def spec_step_def accept_response_without_piv_def
          response_without_piv_fresh_def del: fun_upd_apply)
  next
    case False
    with f assms show ?thesis
      by (auto simp: Response live_step_def spec_step_def accept_response_without_piv_def
          response_without_piv_fresh_def split: option.splits)
  qed
next
  case (Notify t p)
  let ?g = "\<lambda>r. case p of None \<Rightarrow> r\<lparr>lr_notify_no_piv := True\<rparr> | Some p \<Rightarrow> r\<lparr>lr_notify_number := Some (piv_seq p)\<rparr>"
  note f = find_live_rows [of t "sc_live c", folded live_map_def live_rows_def]
  show ?thesis
  proof (cases "notification_fresh c t p")
    case (Inl e)
    with f assms show ?thesis
      by (auto simp: Notify live_step_def spec_step_def accept_notification_def notification_fresh_def not_less
          split: option.splits if_splits)
  next
    case (Inr u)
    then obtain x where x: "live_map c t = Some x"
      using f by (auto simp: notification_fresh_def split: option.splits)
    obtain live where l: "update_first (row_of t) (map_option ?g) (sc_live c) = Some live"
      "live_map (c\<lparr>sc_live := live\<rparr>) = (live_map c)(t \<mapsto> ?g x)" "live_inv N (c\<lparr>sc_live := live\<rparr>)"
      by (rule live_update [OF assms x, of "map_option ?g" "?g"]) (simp_all split: option.split)
    moreover have "spec_step N op (live_map c) = (Done (Inr ()), (live_map c)(t \<mapsto> ?g x))"
      using x f Inr by (auto simp: Notify spec_step_def notification_fresh_def not_le split: option.splits if_splits)
    ultimately show ?thesis using Inr
      by (simp add: Notify live_step_def accept_notification_def del: fun_upd_apply)
  qed
next
  case (Take t)
  note f = find_live_rows [of t "sc_live c", folded live_map_def live_rows_def]
  have d: "distinct (rows_tokens (sc_live c))" using assms by (simp add: live_inv_def)
  show ?thesis
  proof (cases "update_first (row_of t) (\<lambda>_. None) (sc_live c)")
    case None
    then have "live_map c t = None" by (simp add: update_row_None live_map_def)
    with None assms show ?thesis
      by (auto simp: Take live_step_def spec_step_def context_take_def)
  next
    case (Some live)
    with clear_row_Some [OF Some d] update_first_length [OF Some] f assms show ?thesis
      by (simp add: Take live_step_def spec_step_def context_take_def context_lookup_def live_map_def
          live_inv_def del: fun_upd_apply)
  qed
qed

interpretation lives: simulation "live_inv N" live_step live_map "spec_step N" for N
  by unfold_locales (use live_step_sim in blast)+

text \<open>
  C22: the live request rows of a context with room for \<open>N\<close> requests behave, over every sequence of
  calls, as a map from tokens that holds at most \<open>N\<close> entries: a repeated token replaces its binding,
  a new one is refused only when the map is full, nothing is ever evicted, and every call returns what
  the map says.
\<close>

theorem live_requests_refine_map:
  fixes c :: "'a security_context"
  shows "run_steps (spec_step N) ops Map.empty =
     map_prod id live_map (run_steps live_step ops (c\<lparr>sc_live := replicate N None\<rparr>))"
proof -
  have "rows_map (replicate N None) = (Map.empty :: 'a \<Rightarrow> 'a live_request option)"
    "rows_tokens (replicate N (None :: 'a live_request option)) = []" by (induction N) auto
  then have "live_inv N (c\<lparr>sc_live := replicate N None\<rparr>)" "live_map (c\<lparr>sc_live := replicate N None\<rparr>) = Map.empty"
    by (simp_all add: live_inv_def live_map_def)
  with lives.sim_run [of N "c\<lparr>sc_live := replicate N None\<rparr>" ops] show ?thesis by simp
qed

section \<open>Notifications are accepted in order\<close>

text \<open>The notifications on one token that a run accepted.\<close>

definition accepts :: "'t \<Rightarrow> 't live_op \<Rightarrow> live_out \<Rightarrow> partial_iv option list" where
  "accepts t op out =
     (case op of Notify u p \<Rightarrow> if u = t \<and> out = Done (Inr ()) then [p] else [] | _ \<Rightarrow> [])"

definition accepted :: "'t \<Rightarrow> 't live_op list \<Rightarrow> live_out list \<Rightarrow> partial_iv option list" where
  "accepted t ops outs = concat (map2 (accepts t) ops outs)"

definition rebinds :: "'t \<Rightarrow> 't live_op \<Rightarrow> bool" where
  "rebinds t op = (case op of Remember u _ _ \<Rightarrow> u = t | Take u \<Rightarrow> u = t | _ \<Rightarrow> False)"

definition numbers :: "partial_iv option list \<Rightarrow> u64 list" where
  "numbers ps = map piv_seq (List.map_filter (\<lambda>p. p) ps)"

lemma numbers_simps [simp]: "numbers [] = []" "numbers (None # ps) = numbers ps"
  "numbers (Some p # ps) = piv_seq p # numbers ps"
  by (simp_all add: numbers_def List.map_filter_simps)

lemma spec_step_row:
  assumes "spec_step N op m = (out, m')" "m t = Some x" "lr_observe x" "\<not> rebinds t op"
  obtains (same) y where "m' t = Some y" "lr_observe y" "accepts t op out = []"
      "lr_notify_number y = lr_notify_number x" "lr_notify_no_piv y = lr_notify_no_piv x"
  | (bare) y where "m' t = Some y" "lr_observe y" "accepts t op out = [None]" "\<not> lr_notify_no_piv x"
      "lr_notify_no_piv y" "lr_notify_number y = lr_notify_number x"
  | (piv) y p where "m' t = Some y" "lr_observe y" "accepts t op out = [Some p]" "lr_notify_number y = Some (piv_seq p)"
      "\<forall>n. lr_notify_number x = Some n \<longrightarrow> n < piv_seq p" "lr_notify_no_piv y = lr_notify_no_piv x"
proof (cases op)
  case (Notify u p)
  show thesis
  proof (cases "u = t \<and> out = Done (Inr ())")
    case True
    with Notify assms show thesis
      by (cases p) (auto simp: spec_step_def accepts_def split: if_splits option.splits intro: bare piv)
  next
    case False
    then have "m' t = m t" using Notify assms(1,2) by (auto simp: spec_step_def split: if_splits option.splits)
    with False Notify assms(2,3) show thesis by (auto simp: accepts_def intro: same)
  qed
next
  case (Remember u r b)
  then have "m' t = m t" using assms by (auto simp: spec_step_def map_remember_def rebinds_def split: if_splits)
  with Remember assms(2,3) show thesis by (auto simp: accepts_def intro: same)
next
  case (Download u r)
  then have "m' t = m t \<or> m' t = Some (x\<lparr>lr_request := r, lr_response_no_piv := False\<rparr>)"
    using assms by (auto simp: spec_step_def map_remember_def split: if_splits option.splits)
  with Download assms(2,3) show thesis by (auto simp: accepts_def intro: same)
next
  case (Response u)
  then have "m' t = m t \<or> m' t = Some (x\<lparr>lr_response_no_piv := True\<rparr>)"
    using assms by (auto simp: spec_step_def split: if_splits option.splits)
  with Response assms(2,3) show thesis by (auto simp: accepts_def intro: same)
next
  case (Take u)
  then have "m' t = m t" using assms by (auto simp: spec_step_def rebinds_def)
  with Take assms(2,3) show thesis by (auto simp: accepts_def intro: same)
qed

lemma spec_run_order:
  assumes "run_steps (spec_step N) ops m = (outs, m')" "m t = Some x" "lr_observe x" "\<forall>op\<in>set ops. \<not> rebinds t op"
  shows "sorted_wrt (<) (numbers (accepted t ops outs)) \<and>
         (\<forall>k\<in>set (numbers (accepted t ops outs)). \<forall>n. lr_notify_number x = Some n \<longrightarrow> n < k) \<and>
         count_list (accepted t ops outs) None \<le> (if lr_notify_no_piv x then 0 else 1)"
  using assms
proof (induction ops arbitrary: m outs x)
  case (Cons op ops)
  obtain o1 m1 where st: "spec_step N op m = (o1, m1)" by fastforce
  obtain os where rn: "run_steps (spec_step N) ops m1 = (os, m')" and outs: "outs = o1 # os"
    using Cons.prems(1) st by (auto split: prod.splits)
  have acc: "accepted t (op # ops) outs = accepts t op o1 @ accepted t ops os" by (simp add: accepted_def outs)
  have nr: "\<not> rebinds t op" "\<forall>op\<in>set ops. \<not> rebinds t op" using Cons.prems(4) by auto
  from st Cons.prems(2,3) nr(1) show ?case
  proof (cases rule: spec_step_row)
    case (same y)
    with Cons.IH [OF rn same(1,2) nr(2)] show ?thesis by (simp add: acc)
  next
    case (bare y)
    with Cons.IH [OF rn bare(1,2) nr(2)] show ?thesis by (simp add: acc)
  next
    case (piv y p)
    with Cons.IH [OF rn piv(1,2) nr(2)] show ?thesis by (auto simp: acc intro: less_trans)
  qed
qed (simp add: accepted_def)

text \<open>
  C23: notification order. While an Observe registration stays bound to its token, whatever other
  calls interleave on the context (further requests, Block downloads on the same token, responses,
  other tokens), the notifications accepted on that token carry strictly increasing Partial IV
  numbers and at most one carries none.
\<close>

theorem notifications_in_order:
  assumes "live_inv N c" "live_map c t = Some x" "lr_observe x" "\<forall>op\<in>set ops. \<not> rebinds t op"
    and "run_steps live_step ops c = (outs, c')"
  shows "sorted_wrt (<) (numbers (accepted t ops outs)) \<and> count_list (accepted t ops outs) None \<le> 1"
proof -
  have "run_steps (spec_step N) ops (live_map c) = (outs, live_map c')"
    using lives.sim_run [OF assms(1), of ops] assms(5) by simp
  from spec_run_order [OF this assms(2-4)] show ?thesis by (auto split: if_splits)
qed

theorem notifications_in_order_witness:
  "let piv = (\<lambda>n. \<lparr>pv_bytes = [n, 0, 0, 0, 0], pv_len = 1\<rparr>);
       c = snd (remember_live (sample_context 2) 7 \<lparr>rr_kid = \<lparr>oid_bytes = replicate 7 0, oid_len = 0\<rparr>, rr_piv = piv 1\<rparr> True);
       ops = [Notify 7 (Some (piv 5)), Notify 7 None, Response 7, Notify 7 (Some (piv 3)), Notify 7 None,
              Notify 8 None, Notify 7 (Some (piv 9))];
       outs = fst (run_steps live_step ops c)
   in accepted 7 ops outs = [Some (piv 5), None, Some (piv 9)] \<and> sorted_wrt (<) (numbers (accepted 7 ops outs))"
proof -
  define piv where "piv = (\<lambda>n. \<lparr>pv_bytes = [n, 0, 0, 0, 0], pv_len = 1\<rparr>)"
  define c where "c = snd (remember_live (sample_context 2) 7
    \<lparr>rr_kid = \<lparr>oid_bytes = replicate 7 0, oid_len = 0\<rparr>, rr_piv = piv 1\<rparr> True)"
  define ops where "ops = [Notify (7 :: nat) (Some (piv 5)), Notify 7 None, Response 7, Notify 7 (Some (piv 3)), Notify 7 None,
              Notify 8 None, Notify 7 (Some (piv 9))]"
  obtain outs c' where r: "run_steps live_step ops c = (outs, c')" by fastforce
  have "live_inv 2 c" unfolding c_def piv_def live_inv_def by code_simp
  moreover have "\<exists>x. live_map c 7 = Some x \<and> lr_observe x"
  proof -
    have "(case live_map c 7 of None \<Rightarrow> False | Some x \<Rightarrow> lr_observe x)" unfolding c_def piv_def by code_simp
    then show ?thesis by (auto split: option.splits)
  qed
  moreover have "\<forall>op\<in>set ops. \<not> rebinds 7 op" by (simp add: ops_def rebinds_def)
  ultimately have "sorted_wrt (<) (numbers (accepted 7 ops outs))"
    using notifications_in_order [OF _ _ _ _ r] by blast
  moreover have "accepted 7 ops (fst (run_steps live_step ops c)) = [Some (piv 5), None, Some (piv 9)]"
    unfolding ops_def c_def piv_def by code_simp
  ultimately show ?thesis using r by (simp add: Let_def piv_def c_def ops_def)
qed

end
