(* ===== verification/Osc_Protect.thy ===== *)
theory Osc_Protect
  imports Osc_Sender Msg_Fields
begin

text \<open>
  OSCORE message protection (\<open>src/oscore/protect.rs\<close> and the sealing calls of \<open>src/oscore/aead.rs\<close>):
  the inner plaintext, the outer datagram, direct and staged sealing, and the four operations that
  protect and open requests and responses.

  AES-CCM itself is a parameter: a record of the two detached calls of the cipher. A security
  context is returned with each result, as the code updates it in place; buffers are returned too.
\<close>

definition OPT_SLOTS :: nat where "OPT_SLOTS = 16"
definition INNER :: nat where "INNER = 1280"

section \<open>Sealing and opening\<close>

text \<open>
  The cipher: encryption of key, nonce, associated data and plaintext gives the ciphertext and the
  tag, or fails; decryption gives whether the tag verified and what it left in the buffer.
\<close>

record aead =
  ad_encrypt :: "bytes \<Rightarrow> bytes \<Rightarrow> bytes \<Rightarrow> bytes \<Rightarrow> (bytes \<times> bytes) option"
  ad_decrypt :: "bytes \<Rightarrow> bytes \<Rightarrow> bytes \<Rightarrow> bytes \<Rightarrow> bytes \<Rightarrow> bool \<times> bytes"

definition seal_in_place :: "aead \<Rightarrow> bytes \<Rightarrow> bytes \<Rightarrow> bytes \<Rightarrow> nat \<Rightarrow> bytes \<Rightarrow> written" where
  "seal_in_place A key n aad plaintext_len buffer =
     (case checked_add plaintext_len TAG_LEN of
        None \<Rightarrow> (Inl OE_MessageLength, buffer)
      | Some e \<Rightarrow>
          if length buffer < e then (Inl OE_BufferTooSmall, buffer)
          else (case ad_encrypt A key n aad (take plaintext_len buffer) of
                  None \<Rightarrow> (Inl OE_Encrypt, buffer)
                | Some (ct, tag) \<Rightarrow> (Inr e, blit (blit buffer 0 ct) plaintext_len tag)))"

definition aead_open :: "aead \<Rightarrow> bytes \<Rightarrow> bytes \<Rightarrow> bytes \<Rightarrow> bytes \<Rightarrow> bytes \<Rightarrow> written" where
  "aead_open A key n aad ciphertext out =
     (if length ciphertext < TAG_LEN then (Inl OE_MessageLength, out)
      else
        let pt_len = length ciphertext - TAG_LEN in
        if length out < pt_len then (Inl OE_BufferTooSmall, out)
        else (case ad_decrypt A key n aad (take pt_len ciphertext) (drop pt_len ciphertext) of
                (ok, buf) \<Rightarrow> (if ok then Inr pt_len else Inl OE_Decrypt, blit out 0 buf)))"

definition aad_new :: "bytes \<Rightarrow> bytes \<Rightarrow> oscore_error + bytes" where
  "aad_new request_kid request_piv =
     (case encode_aad (replicate 32 0) request_kid request_piv [] of
        (Inl e, _) \<Rightarrow> Inl e
      | (Inr len, bs) \<Rightarrow> Inr (take len bs))"

section \<open>Inner plaintext\<close>

definition opt_is_observe :: "opt \<Rightarrow> bool" where
  "opt_is_observe x \<longleftrightarrow> opt_number x = 6"

definition outer_code :: "code \<Rightarrow> opt list \<Rightarrow> code" where
  "outer_code inner opts =
     (if \<not> list_ex opt_is_observe opts then (if code_is_request inner then CODE_POST else CODE_CHANGED)
      else if code_is_request inner then CODE_FETCH
      else CODE_CONTENT)"

fun plaintext_options :: "bool \<Rightarrow> bytes \<Rightarrow> nat \<Rightarrow> u16 \<Rightarrow> opt list \<Rightarrow> written" where
  "plaintext_options notify out i prev [] = (Inr i, out)"
| "plaintext_options notify out i prev (x # xs) =
     (let n = opt_number x in
      if is_oscore_number n \<or> \<not> in_plaintext (classify n) then plaintext_options notify out i prev xs
      else if n < prev then (Inl (OE_Encode EE_OptionsNotAscending), out)
      else
        let val = (if n = 6 \<and> notify then [] else opt_value x) in
        (case write_option out i (ucast (n - prev)) val of
           (Inl e, out) \<Rightarrow> (Inl (OE_Encode e), out)
         | (Inr i, out) \<Rightarrow> plaintext_options notify out i n xs))"

definition encode_plaintext :: "'t message \<Rightarrow> bytes \<Rightarrow> written" where
  "encode_plaintext plain out =
     (if out = [] then (Inl OE_BufferTooSmall, out)
      else
        let out = out[0 := msg_code plain];
            notify = code_is_response (msg_code plain) in
        (case plaintext_options notify out 1 0 (msg_options plain) of
           (Inl e, out) \<Rightarrow> (Inl e, out)
         | (Inr i, out) \<Rightarrow>
             if msg_payload plain = [] then (Inr i, out)
             else if length out \<le> i then (Inl OE_BufferTooSmall, out)
             else
               let out = blit out i [0xff];
                   i = i + 1 in
               (case checked_add i (length (msg_payload plain)) of
                  None \<Rightarrow> (Inl OE_BufferTooSmall, out)
                | Some e \<Rightarrow>
                    if length out < e then (Inl OE_BufferTooSmall, out)
                    else (Inr e, blit out i (msg_payload plain)))))"

section \<open>Outer datagram\<close>

text \<open>Push the options whose number passes the test; the code's \<open>continue\<close> skips the others.\<close>

fun push_where :: "(u16 \<Rightarrow> bool) \<Rightarrow> options_builder \<Rightarrow> opt list \<Rightarrow> oscore_error + options_builder" where
  "push_where P b [] = Inr b"
| "push_where P b (x # xs) =
     (if P (opt_number x)
      then (case builder_push OPT_SLOTS b x of
              (Inl _, _) \<Rightarrow> Inl OE_Options
            | (Inr _, b) \<Rightarrow> push_where P b xs)
      else push_where P b xs)"

definition encode_message :: "'t owned_token \<Rightarrow> msg_type \<Rightarrow> code \<Rightarrow> message_id \<Rightarrow> 't \<Rightarrow> opt list \<Rightarrow> bytes \<Rightarrow> bytes \<Rightarrow> written" where
  "encode_message T ty code mid token opts payload out =
     (case encode T (message_with_payload (message_with_options
                       (message_with_token (message_new ty code mid) token) opts) payload) out of
        (r, out) \<Rightarrow> (map_err OE_Encode r, out))"

definition encode_outer ::
  "'t owned_token \<Rightarrow> msg_type \<Rightarrow> code \<Rightarrow> message_id \<Rightarrow> 't \<Rightarrow> opt list \<Rightarrow> partial_iv option \<Rightarrow> bytes option \<Rightarrow>
     bytes option \<Rightarrow> bytes \<Rightarrow> bytes \<Rightarrow> written" where
  "encode_outer T ty code mid token inner_opts piv kid_context kid ciphertext out =
     (case encode_oscore_option (replicate (1 + MAX_PIV_LEN + 1 + MAX_ID_CONTEXT_LEN + MAX_ID_LEN) 0)
             piv kid_context kid of
        (Inl e, _) \<Rightarrow> (Inl e, out)
      | (Inr oscore_n, oscore) \<Rightarrow>
          (case and_then (push_where (\<lambda>n. \<not> (is_oscore_number n \<or> \<not> encode_as_outer n))
                            (builder_new OPT_SLOTS) inner_opts)
                  (\<lambda>opts. and_then (map_err (\<lambda>_. OE_Options) (case builder_push OPT_SLOTS opts (opt_oscore (take oscore_n oscore)) of (r, b) \<Rightarrow> map_ok (\<lambda>_. b) r))
                    (\<lambda>opts. if code_is_response code \<and> list_ex opt_is_observe inner_opts
                            then (case builder_push OPT_SLOTS opts (opt_new OPT_MAX_AGE []) of
                                    (r, b) \<Rightarrow> map_ok (\<lambda>_. b) (map_err (\<lambda>_. OE_Encode EE_OptionsFull) r))
                            else Inr opts)) of
             Inl e \<Rightarrow> (Inl e, out)
           | Inr opts \<Rightarrow> encode_message T ty code mid token (builder_as_slice opts) ciphertext out))"

section \<open>Sealing a message\<close>

definition seal_message_staged ::
  "aead \<Rightarrow> 't owned_token \<Rightarrow> 't message \<Rightarrow> bytes \<Rightarrow> bytes \<Rightarrow> bytes \<Rightarrow> partial_iv option \<Rightarrow> bytes option \<Rightarrow>
     bytes option \<Rightarrow> bytes \<Rightarrow> written" where
  "seal_message_staged A T plain key n aad piv kid_context kid out =
     (case encode_plaintext plain (replicate INNER 0) of
        (Inl e, _) \<Rightarrow> (Inl e, out)
      | (Inr pt_len, ciphertext) \<Rightarrow>
          (case seal_in_place A key n aad pt_len ciphertext of
             (Inl e, _) \<Rightarrow> (Inl e, out)
           | (Inr ct_len, ciphertext) \<Rightarrow>
               encode_outer T (msg_ty plain) (outer_code (msg_code plain) (msg_options plain)) (msg_id plain)
                 (msg_token plain) (msg_options plain) piv kid_context kid (take ct_len ciphertext) out))"

text \<open>The closure \<open>direct\<close> of \<open>seal_message\<close>.\<close>

definition seal_direct ::
  "aead \<Rightarrow> 't owned_token \<Rightarrow> 't message \<Rightarrow> bytes \<Rightarrow> bytes \<Rightarrow> bytes \<Rightarrow> partial_iv option \<Rightarrow> bytes option \<Rightarrow>
     bytes option \<Rightarrow> bytes \<Rightarrow> written" where
  "seal_direct A T plain key n aad piv kid_context kid out =
     (case encode_outer T (msg_ty plain) (outer_code (msg_code plain) (msg_options plain)) (msg_id plain)
             (msg_token plain) (msg_options plain) piv kid_context kid [] out of
        (Inl e, out) \<Rightarrow> (Inl e, out)
      | (Inr prefix, out) \<Rightarrow>
          if length out \<le> prefix then (Inl OE_BufferTooSmall, out)
          else
            let out = out[prefix := 0xff];
                capacity = min (length out - prefix - 1) INNER;
                ciphertext = take capacity (drop (prefix + 1) out) in
            (case encode_plaintext plain ciphertext of
               (Inl e, ciphertext) \<Rightarrow> (Inl e, blit out (prefix + 1) ciphertext)
             | (Inr pt_len, ciphertext) \<Rightarrow>
                 (case seal_in_place A key n aad pt_len ciphertext of
                    (Inl e, ciphertext) \<Rightarrow> (Inl e, blit out (prefix + 1) ciphertext)
                  | (Inr ct_len, ciphertext) \<Rightarrow> (Inr (prefix + 1 + ct_len), blit out (prefix + 1) ciphertext))))"

definition seal_message ::
  "aead \<Rightarrow> 't owned_token \<Rightarrow> 't message \<Rightarrow> bytes \<Rightarrow> bytes \<Rightarrow> bytes \<Rightarrow> partial_iv option \<Rightarrow> bytes option \<Rightarrow>
     bytes option \<Rightarrow> bytes \<Rightarrow> written" where
  "seal_message A T plain key n aad piv kid_context kid out =
     (case seal_direct A T plain key n aad piv kid_context kid out of
        (Inr len, out) \<Rightarrow> (Inr len, out)
      | (Inl _, out) \<Rightarrow> seal_message_staged A T plain key n aad piv kid_context kid out)"

section \<open>Protecting\<close>

definition protect_request ::
  "aead \<Rightarrow> 't owned_token \<Rightarrow> 't security_context \<Rightarrow> 't message \<Rightarrow> bytes \<Rightarrow>
     (oscore_error + nat) \<times> 't security_context \<times> bytes" where
  "protect_request A T ctx plain out =
     (if \<not> code_is_request (msg_code plain) then (Inl OE_MessageLength, ctx, out)
      else case take_sender_piv ctx of
        (Inl e, ctx) \<Rightarrow> (Inl e, ctx, out)
      | (Inr piv, ctx) \<Rightarrow>
          let request = sc_request_ref ctx piv;
              n = request_nonce ctx piv in
          (case aad_new (osc_id_as_bytes (rr_kid request)) (piv_as_bytes piv) of
             Inl e \<Rightarrow> (Inl e, ctx, out)
           | Inr aad \<Rightarrow>
               let kid_ctx = (if sc_id_context_bytes ctx = [] then None else Some (sc_id_context_bytes ctx)) in
               (case seal_message A T plain (sc_sender_key ctx) n aad (Some piv) kid_ctx
                       (Some (osc_id_as_bytes (sc_sender_id ctx))) out of
                  (Inl e, out) \<Rightarrow> (Inl e, ctx, out)
                | (Inr len, out) \<Rightarrow>
                    let observe = list_ex opt_is_observe (msg_options plain) in
                    (case (if \<not> observe \<and> list_ex (\<lambda>x. opt_number x = OPT_BLOCK2 \<or> opt_number x = OPT_Q_BLOCK2) (msg_options plain)
                           then remember_download ctx (msg_token plain) request
                           else remember_live ctx (msg_token plain) request observe) of
                       (Inl e, ctx) \<Rightarrow> (Inl e, ctx, out)
                     | (Inr _, ctx) \<Rightarrow> (Inr len, ctx, out)))))"

definition protect_response ::
  "aead \<Rightarrow> 't owned_token \<Rightarrow> 't security_context \<Rightarrow> 't message \<Rightarrow> request_ref \<Rightarrow> bytes \<Rightarrow> written" where
  "protect_response A T ctx plain request out =
     (if \<not> code_is_response (msg_code plain) then (Inl OE_MessageLength, out)
      else case aad_new (osc_id_as_bytes (rr_kid request)) (piv_as_bytes (rr_piv request)) of
        Inl e \<Rightarrow> (Inl e, out)
      | Inr aad \<Rightarrow>
          seal_message A T plain (sc_sender_key ctx)
            (nonce (sc_common_iv ctx) (osc_id_as_bytes (rr_kid request)) (rr_piv request)) aad None None None out)"

definition protect_response_piv ::
  "aead \<Rightarrow> 't owned_token \<Rightarrow> 't security_context \<Rightarrow> 't message \<Rightarrow> request_ref \<Rightarrow> bytes \<Rightarrow>
     (oscore_error + nat) \<times> 't security_context \<times> bytes" where
  "protect_response_piv A T ctx plain request out =
     (if \<not> code_is_response (msg_code plain) then (Inl OE_MessageLength, ctx, out)
      else case take_sender_piv ctx of
        (Inl e, ctx) \<Rightarrow> (Inl e, ctx, out)
      | (Inr piv, ctx) \<Rightarrow>
          (case aad_new (osc_id_as_bytes (rr_kid request)) (piv_as_bytes (rr_piv request)) of
             Inl e \<Rightarrow> (Inl e, ctx, out)
           | Inr aad \<Rightarrow>
               (case seal_message A T plain (sc_sender_key ctx) (request_nonce ctx piv) aad (Some piv) None None out of
                  (r, out) \<Rightarrow> (r, ctx, out))))"

section \<open>Opening\<close>

definition parse_protected :: "'t parsed_message \<Rightarrow> oscore_error + oscore_header" where
  "parse_protected m =
     and_then (ok_or OE_Header (pm_oscore m))
       (\<lambda>val. if pm_payload m = [] then Inl OE_MessageLength else oscore_parse val)"

definition stitch_inner ::
  "'t owned_token \<Rightarrow> msg_type \<Rightarrow> message_id \<Rightarrow> 't \<Rightarrow> opt list \<Rightarrow> bytes \<Rightarrow> bytes \<Rightarrow> written" where
  "stitch_inner T ty mid token outer_opts plaintext out =
     (if plaintext = [] then (Inl OE_MessageLength, out)
      else case and_then (map_err OE_Parse (decode_options_payload (drop 1 plaintext)))
                  (\<lambda>(inner_opts, payload).
                     and_then (push_where (\<lambda>n. \<not> (is_oscore_number n \<or> classify n \<noteq> ClassOuter))
                                 (builder_new OPT_SLOTS) outer_opts)
                       (\<lambda>opts. map_ok (\<lambda>opts. (opts, payload)) (push_where (\<lambda>_. True) opts (options_list inner_opts)))) of
        Inl e \<Rightarrow> (Inl e, out)
      | Inr (opts, payload) \<Rightarrow>
          let limit = min (length out) INNER in
          (case encode_message T ty (plaintext ! 0) mid token (builder_as_slice opts) payload (take limit out) of
             (r, front) \<Rightarrow> (r, front @ drop limit out)))"

definition decode_owned :: "'t owned_token \<Rightarrow> bytes \<Rightarrow> oscore_error + 't parsed_message" where
  "decode_owned T wire =
     map_err (\<lambda>e. case e of Malformed e \<Rightarrow> OE_Parse e | Capacity _ \<Rightarrow> OE_MessageLength) (decode_with_token T wire)"

definition unprotect_request_wire ::
  "aead \<Rightarrow> 't owned_token \<Rightarrow> 't security_context \<Rightarrow> 't parsed_message \<Rightarrow> bytes \<Rightarrow>
     (oscore_error + bytes \<times> request_ref) \<times> 't security_context \<times> bytes" where
  "unprotect_request_wire A T ctx m out =
     (case parse_protected m of
        Inl e \<Rightarrow> (Inl e, ctx, out)
      | Inr header \<Rightarrow>
          if \<not> matches_recipient ctx (oh_kid header) (oh_kid_context header) then (Inl OE_Context, ctx, out)
          else (case oh_piv header of
             None \<Rightarrow> (Inl OE_PartialIv, ctx, out)
           | Some piv \<Rightarrow>
               if \<not> replay_fresh ctx (piv_seq piv) then (Inl OE_Replay, ctx, out)
               else if length (pm_payload m) < TAG_LEN then (Inl OE_MessageLength, ctx, out)
               else
                 let kid = (case oh_kid header of None \<Rightarrow> [] | Some kid \<Rightarrow> kid) in
                 (case aad_new kid (piv_as_bytes piv) of
                    Inl e \<Rightarrow> (Inl e, ctx, out)
                  | Inr aad \<Rightarrow>
                      (case aead_open A (sc_recipient_key ctx) (recipient_nonce ctx piv) aad (pm_payload m)
                              (replicate INNER 0) of
                         (Inl e, _) \<Rightarrow> (Inl e, ctx, out)
                       | (Inr pt_len, plaintext) \<Rightarrow>
                           let ctx = replay_accept ctx (piv_seq piv) in
                           (case take pt_len plaintext of
                              [] \<Rightarrow> (Inl OE_MessageLength, ctx, out)
                            | code # _ \<Rightarrow>
                                if \<not> code_is_request code then (Inl OE_MessageCode, ctx, out)
                                else (case stitch_inner T (hdr_ty (pm_header m)) (hdr_id (pm_header m)) (pm_token m)
                                             (pm_iter m) (take pt_len plaintext) out of
                                        (Inl e, out) \<Rightarrow> (Inl e, ctx, out)
                                      | (Inr n, out) \<Rightarrow>
                                          (map_ok (\<lambda>request. (take n out, request)) (request_ref_from_kid kid piv),
                                           ctx, out)))))))"

definition unprotect_request ::
  "aead \<Rightarrow> 't owned_token \<Rightarrow> 't security_context \<Rightarrow> 't parsed_message \<Rightarrow> bytes \<Rightarrow>
     (oscore_error + 't parsed_message \<times> request_ref) \<times> 't security_context \<times> bytes" where
  "unprotect_request A T ctx m out =
     (case unprotect_request_wire A T ctx m out of
        (r, ctx, out) \<Rightarrow>
          (and_then r (\<lambda>(wire, request). map_ok (\<lambda>inner. (inner, request)) (decode_owned T wire)), ctx, out))"

text \<open>The loop over the request and its fallback; the scratch buffer is shared by the attempts.\<close>

fun open_candidates ::
  "aead \<Rightarrow> 't security_context \<Rightarrow> partial_iv option \<Rightarrow> bytes \<Rightarrow> request_ref list \<Rightarrow> bytes \<Rightarrow>
     oscore_error + nat \<times> request_ref \<times> bytes" where
  "open_candidates A ctx piv payload [] plaintext = Inl OE_Decrypt"
| "open_candidates A ctx piv payload (candidate # rest) plaintext =
     (case aad_new (osc_id_as_bytes (rr_kid candidate)) (piv_as_bytes (rr_piv candidate)) of
        Inl e \<Rightarrow> Inl e
      | Inr aad \<Rightarrow>
          let n = (case piv of
                     Some piv \<Rightarrow> nonce (sc_common_iv ctx) (osc_id_as_bytes (sc_recipient_id ctx)) piv
                   | None \<Rightarrow> nonce (sc_common_iv ctx) (osc_id_as_bytes (rr_kid candidate)) (rr_piv candidate)) in
          (case aead_open A (sc_recipient_key ctx) n aad payload plaintext of
             (Inr len, plaintext) \<Rightarrow> Inr (len, candidate, plaintext)
           | (Inl e, plaintext) \<Rightarrow>
               if e = OE_Decrypt then open_candidates A ctx piv payload rest plaintext else Inl e))"

definition unprotect_response_candidates ::
  "aead \<Rightarrow> 't owned_token \<Rightarrow> 't security_context \<Rightarrow> 't parsed_message \<Rightarrow> request_ref \<Rightarrow> request_ref option \<Rightarrow> bytes \<Rightarrow>
     (oscore_error + bytes \<times> request_ref) \<times> bytes" where
  "unprotect_response_candidates A T ctx m request fallback out =
     (case and_then (parse_protected m)
             (\<lambda>header. if length (pm_payload m) < TAG_LEN then Inl OE_MessageLength
                else open_candidates A ctx (oh_piv header) (pm_payload m)
                       (request # (case fallback of None \<Rightarrow> [] | Some r \<Rightarrow> [r])) (replicate INNER 0)) of
        Inl e \<Rightarrow> (Inl e, out)
      | Inr (len, request, plaintext) \<Rightarrow>
          (case take len plaintext of
             [] \<Rightarrow> (Inl OE_MessageLength, out)
           | code # _ \<Rightarrow>
               if \<not> code_is_response code then (Inl OE_MessageCode, out)
               else (case stitch_inner T (hdr_ty (pm_header m)) (hdr_id (pm_header m)) (pm_token m) (pm_iter m)
                            (take len plaintext) out of
                       (Inl e, out) \<Rightarrow> (Inl e, out)
                     | (Inr n, out) \<Rightarrow> (Inr (take n out, request), out))))"

definition unprotect_response ::
  "aead \<Rightarrow> 't owned_token \<Rightarrow> 't security_context \<Rightarrow> 't parsed_message \<Rightarrow> request_ref \<Rightarrow> bytes \<Rightarrow>
     (oscore_error + 't parsed_message) \<times> bytes" where
  "unprotect_response A T ctx m request out =
     (case unprotect_response_candidates A T ctx m request None out of
        (r, out) \<Rightarrow> (and_then r (\<lambda>(wire, _). decode_owned T wire), out))"

definition unprotect_bound_response_wire ::
  "aead \<Rightarrow> 't owned_token \<Rightarrow> 't security_context \<Rightarrow> 't parsed_message \<Rightarrow> bytes \<Rightarrow>
     (oscore_error + bytes \<times> request_ref) \<times> bytes" where
  "unprotect_bound_response_wire A T ctx m out =
     (case context_lookup ctx (pm_token m) of
        None \<Rightarrow> (Inl OE_Context, out)
      | Some request \<Rightarrow>
          unprotect_response_candidates A T ctx m request
            (case observe_request ctx (pm_token m) of
               None \<Rightarrow> None
             | Some old \<Rightarrow> if old \<noteq> request then Some old else None) out)"

end
