(* ===== verification/Osc_Seal.thy ===== *)
theory Osc_Seal
  imports Osc_Protect Msg_Roundtrip
begin

text \<open>
  What sealing writes: the inner plaintext and the outer datagram in terms of the wire grammar, and
  the equivalence of the direct path of \<open>seal_message\<close> with the staged one.
\<close>

section \<open>The plaintext on the wire\<close>

definition keeps_inner :: "opt \<Rightarrow> bool" where
  "keeps_inner x \<longleftrightarrow> \<not> is_oscore_number (opt_number x) \<and> in_plaintext (classify (opt_number x))"

definition inner_opt :: "bool \<Rightarrow> opt \<Rightarrow> opt" where
  "inner_opt notify x = (if opt_number x = 6 \<and> notify then x\<lparr>opt_value := []\<rparr> else x)"

definition inner_opts :: "'t message \<Rightarrow> opt list" where
  "inner_opts plain = map (inner_opt (code_is_response (msg_code plain))) (filter keeps_inner (msg_options plain))"

definition plaintext_wire :: "'t message \<Rightarrow> bytes" where
  "plaintext_wire plain = msg_code plain # wire_options 0 (inner_opts plain) @ wire_payload (msg_payload plain)"

lemma inner_opt_simps [simp]:
  "opt_number (inner_opt notify x) = opt_number x"
  "opt_value (inner_opt notify x) = (if opt_number x = 6 \<and> notify then [] else opt_value x)"
  by (simp_all add: inner_opt_def)

lemma plaintext_options_write:
  "plaintext_options notify out i prev xs =
     (case write_options out i prev (map (inner_opt notify) (filter keeps_inner xs)) of
        (r, out) \<Rightarrow> (map_err OE_Encode r, out))"
proof (induction xs arbitrary: out i prev)
  case (Cons x xs)
  show ?case
  proof (cases "keeps_inner x")
    case True
    then have "\<not> is_oscore_number (opt_number x)" "in_plaintext (classify (opt_number x))"
      by (auto simp: keeps_inner_def)
    moreover obtain r b where w: "write_option out i (ucast (opt_number x - prev))
        (if opt_number x = 6 \<and> notify then [] else opt_value x) = (r, b)" by fastforce
    ultimately show ?thesis using True
      by (cases "opt_number x < prev"; cases r) (simp_all add: Let_def Cons.IH split del: if_split)
  next
    case False
    then have "is_oscore_number (opt_number x) \<or> \<not> in_plaintext (classify (opt_number x))"
      by (auto simp: keeps_inner_def)
    with False show ?thesis using Cons.IH [of out i prev] by simp
  qed
qed simp

lemma encode_plaintext_write:
  "encode_plaintext plain out =
     (if out = [] then (Inl OE_BufferTooSmall, out)
      else case write_options (out[0 := msg_code plain]) 1 0 (inner_opts plain) of
        (Inl e, out) \<Rightarrow> (Inl (OE_Encode e), out)
      | (Inr i, out) \<Rightarrow>
          (case write_payload out i (msg_payload plain) of (r, out) \<Rightarrow> (map_err (\<lambda>_. OE_BufferTooSmall) r, out)))"
  by (auto simp: encode_plaintext_def plaintext_options_write inner_opts_def Let_def write_payload_def
      split: prod.splits sum.splits option.splits)

definition inner_ok :: "'t message \<Rightarrow> bool" where
  "inner_ok plain \<longleftrightarrow> ascending 0 (inner_opts plain) \<and> values_ok (inner_opts plain)"

lemma encode_plaintext_ok:
  assumes "inner_ok plain" "length out \<le> usize_max" "length (plaintext_wire plain) \<le> length out"
  shows "encode_plaintext plain out = (Inr (length (plaintext_wire plain)), blit out 0 (plaintext_wire plain))"
proof -
  let ?o = "wire_options 0 (inner_opts plain)" and ?c = "msg_code plain"
  have ne: "out \<noteq> []" using assms(3) by (auto simp: plaintext_wire_def)
  have h: "out[0 := ?c] = blit out 0 [?c]" using ne by (cases out) (simp_all add: blit_def)
  have f: "1 + length ?o + length (wire_payload (msg_payload plain)) \<le> length out"
    using assms(3) by (simp add: plaintext_wire_def)
  have "write_options (blit out 0 [?c]) 1 0 (inner_opts plain) = (Inr (1 + length ?o), blit out 0 (?c # ?o))"
    using write_options_ok [of 0 "inner_opts plain" "blit out 0 [?c]" 1] assms(1,2) f
      blit_blit [of 0 "[?c]" ?o out] by (simp add: inner_ok_def del: blit_0)
  moreover have "write_payload (blit out 0 (?c # ?o)) (1 + length ?o) (msg_payload plain) =
      (Inr (length (plaintext_wire plain)), blit out 0 (plaintext_wire plain))"
    using write_payload_ok [of "1 + length ?o" "msg_payload plain" "blit out 0 (?c # ?o)"] assms(2) f
      blit_blit [of 0 "?c # ?o" "wire_payload (msg_payload plain)" out]
    by (simp add: plaintext_wire_def del: blit_0)
  ultimately show ?thesis using ne h by (simp add: encode_plaintext_write del: blit_0)
qed

lemma encode_plaintext_inv:
  assumes "encode_plaintext plain out = (Inr n, out')" "length out \<le> usize_max"
  shows "inner_ok plain \<and> n = length (plaintext_wire plain) \<and> n \<le> length out \<and>
         out' = blit out 0 (plaintext_wire plain)"
proof -
  have ne: "out \<noteq> []" using assms(1) by (auto simp: encode_plaintext_write)
  let ?b = "out[0 := msg_code plain]"
  obtain i b where o: "write_options ?b 1 0 (inner_opts plain) = (Inr i, b)"
    and p: "write_payload b i (msg_payload plain) = (Inr n, out')"
    using assms(1) ne by (auto simp: encode_plaintext_write split: prod.splits sum.splits)
  have ne1: "1 \<le> length ?b" using ne by (cases out) simp_all
  have oi: "inner_ok plain" "i = 1 + length (wire_options 0 (inner_opts plain))" "i \<le> length out"
    using write_options_inv [OF o ne1] assms(2) by (simp_all add: inner_ok_def)
  have b: "length b = length out" using write_options_length [of ?b 1 0 "inner_opts plain"] o assms(2) by simp
  have "i + length (wire_payload (msg_payload plain)) \<le> length out"
    using write_payload_small [of b i "msg_payload plain"] p oi b by force
  then have "length (plaintext_wire plain) \<le> length out" using oi by (simp add: plaintext_wire_def)
  with encode_plaintext_ok [OF oi(1) assms(2)] assms(1) show ?thesis using oi(1) by simp
qed

section \<open>Encoding does not depend on what the buffer holds\<close>

lemma write_option_fst:
  "length buf = length buf' \<Longrightarrow> fst (write_option buf i d v) = fst (write_option buf' i d v)"
  by (auto simp: write_option_def Let_def split: sum.splits option.splits prod.splits)

lemma write_options_fst:
  "length buf = length buf' \<Longrightarrow> length buf \<le> usize_max \<Longrightarrow>
   fst (write_options buf i prev xs) = fst (write_options buf' i prev xs)"
proof (induction xs arbitrary: buf buf' i prev)
  case (Cons x xs)
  let ?d = "ucast (opt_number x - prev) :: u32"
  obtain r b where w: "write_option buf i ?d (opt_value x) = (r, b)" by fastforce
  obtain r' b' where w': "write_option buf' i ?d (opt_value x) = (r', b')" by fastforce
  have r: "r = r'" using write_option_fst [OF Cons.prems(1), of i ?d "opt_value x"] w w' by simp
  have l: "length b = length buf" "length b' = length buf'" if "r = Inr j" for j
    using that w w' r Cons.prems
      write_option_cases [OF delta_bound [of "opt_number x - prev"], of buf "opt_value x" i]
      write_option_cases [OF delta_bound [of "opt_number x - prev"], of buf' "opt_value x" i]
    by fastforce+
  show ?case using Cons.IH [of b b'] Cons.prems l r
    by (cases r') (simp_all add: Let_def w w')
qed simp

lemma write_payload_fst:
  "length buf = length buf' \<Longrightarrow> i \<le> length buf \<Longrightarrow> fst (write_payload buf i pl) = fst (write_payload buf' i pl)"
  by (auto simp: write_payload_def Let_def split: option.splits)

lemma encode_fst:
  assumes "length buf = length buf'" "length buf \<le> usize_max"
  shows "fst (encode T msg buf) = fst (encode T msg buf')"
proof -
  let ?e = "\<lambda>b. encode_token_iter b (msg_ty msg) (msg_code msg) (msg_id msg) (ot_as_bytes T (msg_token msg))
      (msg_options msg) (msg_payload msg)"
  let ?tok = "ot_as_bytes T (msg_token msg)"
  let ?p = "wire_prefix (msg_ty msg) (msg_code msg) (msg_id msg) ?tok"
  have "fst (?e buf) = fst (?e buf')"
  proof (cases "length ?tok \<le> max_extended \<and> length ?p \<le> length buf \<and>
      (code_is_empty (msg_code msg) \<longrightarrow> ?tok = [] \<and> msg_options msg = [] \<and> msg_payload msg = [])")
    case True
    let ?w = "\<lambda>b. write_options (blit b 0 ?p) (length ?p) 0 (msg_options msg)"
    have u: "?e b = (case ?w b of (Inl e, b) \<Rightarrow> (Inl e, b) | (Inr i, b) \<Rightarrow> write_payload b i (msg_payload msg))"
      if "length b = length buf" for b
      using True that by (intro encode_unfold) simp_all
    obtain r b where w: "?w buf = (r, b)" by fastforce
    obtain r' b' where w': "?w buf' = (r', b')" by fastforce
    have lb: "length (blit buf 0 ?p) = length buf" "length (blit buf' 0 ?p) = length buf"
      using True assms by simp_all
    have r: "r' = r"
      using write_options_fst [of "blit buf 0 ?p" "blit buf' 0 ?p" "length ?p" 0 "msg_options msg"] w w' lb assms
      by (simp del: blit_0)
    have l: "length b = length buf" "length b' = length buf"
      using write_options_length [of "blit buf 0 ?p" "length ?p" 0 "msg_options msg"]
        write_options_length [of "blit buf' 0 ?p" "length ?p" 0 "msg_options msg"] w w' lb assms
      by (simp_all del: blit_0)
    have i: "i \<le> length buf" if "r = Inr i" for i
      using write_options_inv [of "blit buf 0 ?p" "length ?p" 0 "msg_options msg" i b] w that True lb assms
      by (simp del: blit_0)
    show ?thesis unfolding u [OF refl] u [OF assms(1) [symmetric]] w w' r
      using write_payload_fst [of b b'] l i by (auto split: sum.splits)
  next
    case False
    then show ?thesis using assms encode_length_err [of "length ?tok"]
      encode_too_small_prefix [of ?tok "msg_code msg" "msg_options msg" "msg_payload msg" buf "msg_ty msg" "msg_id msg"]
      encode_too_small_prefix [of ?tok "msg_code msg" "msg_options msg" "msg_payload msg" buf' "msg_ty msg" "msg_id msg"]
      by (cases "length ?tok \<le> max_extended") (auto simp: encode_token_iter_def not_le split: sum.splits)
  qed
  then show ?thesis by (auto simp: encode_eq_token_iter)
qed

section \<open>Sealed datagrams\<close>

text \<open>The options of the outer datagram, as \<open>encode_outer\<close> collects them.\<close>

definition outer_options ::
  "code \<Rightarrow> opt list \<Rightarrow> partial_iv option \<Rightarrow> bytes option \<Rightarrow> bytes option \<Rightarrow> oscore_error + opt list" where
  "outer_options code inner piv kid_context kid =
     (case encode_oscore_option (replicate (1 + MAX_PIV_LEN + 1 + MAX_ID_CONTEXT_LEN + MAX_ID_LEN) 0)
             piv kid_context kid of
        (Inl e, _) \<Rightarrow> Inl e
      | (Inr n, oscore) \<Rightarrow>
          map_ok builder_as_slice
            (and_then (push_where (\<lambda>n. \<not> (is_oscore_number n \<or> \<not> encode_as_outer n)) (builder_new OPT_SLOTS) inner)
              (\<lambda>opts. and_then (map_err (\<lambda>_. OE_Options) (case builder_push OPT_SLOTS opts (opt_oscore (take n oscore)) of (r, b) \<Rightarrow> map_ok (\<lambda>_. b) r))
                (\<lambda>opts. if code_is_response code \<and> list_ex opt_is_observe inner
                        then (case builder_push OPT_SLOTS opts (opt_new OPT_MAX_AGE []) of
                                (r, b) \<Rightarrow> map_ok (\<lambda>_. b) (map_err (\<lambda>_. OE_Encode EE_OptionsFull) r))
                        else Inr opts))))"

lemma encode_outer_options:
  "encode_outer T ty code mid token inner piv ctx kid ct out =
     (case outer_options code inner piv ctx kid of
        Inl e \<Rightarrow> (Inl e, out)
      | Inr os \<Rightarrow> encode_message T ty code mid token os ct out)"
  unfolding encode_outer_def outer_options_def
  by (simp split: prod.split sum.split add: map_ok_def)

abbreviation outer_message :: "'t message \<Rightarrow> opt list \<Rightarrow> bytes \<Rightarrow> 't message" where
  "outer_message plain os ct \<equiv>
     \<lparr>msg_ty = msg_ty plain, msg_code = outer_code (msg_code plain) (msg_options plain), msg_id = msg_id plain,
      msg_token = msg_token plain, msg_options = os, msg_payload = ct\<rparr>"

lemma encode_message_outer:
  "encode_message T (msg_ty plain) (outer_code (msg_code plain) (msg_options plain)) (msg_id plain)
     (msg_token plain) os ct out =
   (case encode T (outer_message plain os ct) out of (r, out) \<Rightarrow> (map_err OE_Encode r, out))"
  by (simp add: encode_message_def message_with_payload_def message_with_options_def message_with_token_def
      message_new_def)

text \<open>
  A datagram that seals a message: the wire form of the outer message around the ciphertext and tag
  of the inner plaintext.
\<close>

definition sealed ::
  "aead \<Rightarrow> 't owned_token \<Rightarrow> 't message \<Rightarrow> bytes \<Rightarrow> bytes \<Rightarrow> bytes \<Rightarrow> partial_iv option \<Rightarrow> bytes option \<Rightarrow>
     bytes option \<Rightarrow> opt list \<Rightarrow> bytes \<Rightarrow> bool" where
  "sealed A T plain key n aad piv ctx kid os ct \<longleftrightarrow>
     outer_options (outer_code (msg_code plain) (msg_options plain)) (msg_options plain) piv ctx kid = Inr os \<and>
     inner_ok plain \<and> length (plaintext_wire plain) + TAG_LEN \<le> INNER \<and>
     (\<exists>body tag. ad_encrypt A key n aad (plaintext_wire plain) = Some (body, tag) \<and> ct = body @ tag) \<and>
     message_encodable T (outer_message plain os ct)"

lemma sealed_unique:
  "sealed A T plain key n aad piv ctx kid os ct \<Longrightarrow> sealed A T plain key n aad piv ctx kid os' ct' \<Longrightarrow>
   os = os' \<and> ct = ct'"
  by (auto simp: sealed_def)

text \<open>What the cipher's types guarantee: the ciphertext is as long as the plaintext, the tag has 8 bytes.\<close>

definition aead_lengths :: "aead \<Rightarrow> bool" where
  "aead_lengths A \<longleftrightarrow>
     (\<forall>key n aad pt ct tag. ad_encrypt A key n aad pt = Some (ct, tag) \<longrightarrow> length ct = length pt \<and> length tag = TAG_LEN)"

lemma INNER_usize: "INNER \<le> usize_max" "INNER + 1 \<le> usize_max"
  by (simp_all add: INNER_def usize_max_def)

lemma seal_in_place_iff:
  assumes "aead_lengths A" "length pt + TAG_LEN \<le> usize_max" "length pt \<le> length buf"
  shows "seal_in_place A key n aad (length pt) (blit buf 0 pt) = (Inr m, buf') \<longleftrightarrow>
    length pt + TAG_LEN \<le> length buf \<and> m = length pt + TAG_LEN \<and>
    (\<exists>body tag. ad_encrypt A key n aad pt = Some (body, tag) \<and> buf' = (body @ tag) @ drop m buf)"
proof (cases "length pt + TAG_LEN \<le> length buf")
  case True
  have l: "length body = length pt \<and> length tag = TAG_LEN" if "ad_encrypt A key n aad pt = Some (body, tag)" for body tag
    using assms(1) that by (auto simp: aead_lengths_def)
  show ?thesis
  proof (cases "ad_encrypt A key n aad pt")
    case None
    with True assms show ?thesis by (simp add: seal_in_place_def checked_add_def)
  next
    case (Some bt)
    obtain body tag where bt: "bt = (body, tag)" by fastforce
    have "blit (blit (blit buf 0 pt) 0 body) (length pt) tag = (body @ tag) @ drop (length pt + TAG_LEN) buf"
      using l [OF Some [unfolded bt]] True by (simp add: blit_def add.commute)
    then show ?thesis using True assms Some bt by (auto simp: seal_in_place_def checked_add_def simp del: append_assoc)
  qed
next
  case False
  with assms show ?thesis by (simp add: seal_in_place_def checked_add_def)
qed

lemma encode_plaintext_cases:
  assumes "length out \<le> usize_max"
  obtains (ok) "inner_ok plain" "length (plaintext_wire plain) \<le> length out"
      "encode_plaintext plain out = (Inr (length (plaintext_wire plain)), blit out 0 (plaintext_wire plain))"
  | (err) e b where "encode_plaintext plain out = (Inl e, b)" "\<not> (inner_ok plain \<and> length (plaintext_wire plain) \<le> length out)"
proof (cases "encode_plaintext plain out")
  case (Pair r b)
  then show thesis
  proof (cases r)
    case (Inl e)
    then show thesis using Pair encode_plaintext_ok [OF _ assms] err by force
  next
    case (Inr n)
    then show thesis using Pair encode_plaintext_inv [of plain out n b] assms ok by blast
  qed
qed

lemma plaintext_wire_pos: "0 < length (plaintext_wire plain)"
  by (simp add: plaintext_wire_def)

lemma outer_code_not_empty: "\<not> code_is_empty (outer_code c xs)"
  by (simp add: outer_code_def code_is_empty_def code_consts pack_code_def)

lemma message_wire_payload:
  assumes "ct \<noteq> []"
  shows "message_wire T (outer_message plain os ct) = message_wire T (outer_message plain os []) @ 0xFF # ct"
  using assms by (simp add: message_wire_def wire_message_def wire_payload_def)

lemma encodable_payload: "message_encodable T (outer_message plain os ct) \<longleftrightarrow> message_encodable T (outer_message plain os [])"
  by (simp add: message_encodable_def message_ok_def outer_code_not_empty)

lemma staged_ok:
  assumes "aead_lengths A" "length out \<le> usize_max"
    and "sealed A T plain key n aad piv ctx kid os ct"
    and "length (message_wire T (outer_message plain os ct)) \<le> length out"
  defines "w \<equiv> message_wire T (outer_message plain os ct)"
  shows "seal_message_staged A T plain key n aad piv ctx kid out = (Inr (length w), w @ drop (length w) out)"
proof -
  let ?pw = "plaintext_wire plain" and ?b = "replicate INNER (0 :: u8)"
  obtain body tag where en: "ad_encrypt A key n aad ?pw = Some (body, tag)" "ct = body @ tag"
    using assms(3) by (auto simp: sealed_def)
  have l: "inner_ok plain" "length ?pw + TAG_LEN \<le> INNER" using assms(3) by (auto simp: sealed_def)
  have p: "encode_plaintext plain ?b = (Inr (length ?pw), blit ?b 0 ?pw)"
    using l INNER_usize by (intro encode_plaintext_ok) simp_all
  let ?m = "length ?pw + TAG_LEN"
  have "seal_in_place A key n aad (length ?pw) (blit ?b 0 ?pw) = (Inr ?m, (body @ tag) @ drop ?m ?b)"
    using seal_in_place_iff [OF assms(1), of ?pw ?b key n aad ?m "(body @ tag) @ drop ?m ?b"] l INNER_usize en by simp
  moreover have "length ct = ?m" using assms(1) en by (auto simp: aead_lengths_def)
  moreover obtain b where "encode T (outer_message plain os ct) out = (Inr (length w), b)"
    using encode_success_iff [OF assms(2), of T "outer_message plain os ct" "length w"] assms(3,4)
    by (auto simp: w_def sealed_def)
  moreover from this have "b = w @ drop (length w) out"
    using encode_buffer [OF _ assms(2)] by (simp add: w_def)
  ultimately show ?thesis using p assms(3) en(2)
    by (simp add: seal_message_staged_def encode_outer_options encode_message_outer sealed_def)
qed

lemma staged_inv:
  assumes "aead_lengths A" "length out \<le> usize_max"
    and "seal_message_staged A T plain key n aad piv ctx kid out = (Inr m, out')"
  obtains os ct where "sealed A T plain key n aad piv ctx kid os ct"
    "m = length (message_wire T (outer_message plain os ct))" "m \<le> length out"
    "out' = message_wire T (outer_message plain os ct) @ drop m out"
proof -
  let ?pw = "plaintext_wire plain" and ?b = "replicate INNER (0 :: u8)"
  have bl: "length ?b \<le> usize_max" using INNER_usize by simp
  from bl show thesis
  proof (cases rule: encode_plaintext_cases [where plain = plain])
    case ok
    obtain k c where k: "seal_in_place A key n aad (length ?pw) (blit ?b 0 ?pw) = (Inr k, c)"
      and o: "encode_outer T (msg_ty plain) (outer_code (msg_code plain) (msg_options plain)) (msg_id plain)
        (msg_token plain) (msg_options plain) piv ctx kid (take k c) out = (Inr m, out')"
      using assms(3) ok by (auto simp: seal_message_staged_def simp del: blit_0 split: prod.splits sum.splits)
    have f: "length ?pw + TAG_LEN \<le> usize_max" using ok(2) by (simp add: INNER_def TAG_LEN_def usize_max_def)
    from k obtain body tag where en: "ad_encrypt A key n aad ?pw = Some (body, tag)" "c = (body @ tag) @ drop k ?b"
      "k = length ?pw + TAG_LEN" "k \<le> INNER"
      using seal_in_place_iff [OF assms(1) f ok(2), of key n aad k c] by auto
    have "length (body @ tag) = k" using assms(1) en by (auto simp: aead_lengths_def)
    then have c: "take k c = body @ tag" using en(2) by simp
    from o c obtain os where os: "outer_options (outer_code (msg_code plain) (msg_options plain)) (msg_options plain) piv ctx kid = Inr os"
      "encode T (outer_message plain os (body @ tag)) out = (Inr m, out')"
      by (auto simp: encode_outer_options encode_message_outer split: sum.splits prod.splits)
    have "message_encodable T (outer_message plain os (body @ tag)) \<and>
        m = length (message_wire T (outer_message plain os (body @ tag))) \<and> m \<le> length out"
      using encode_success_iff [OF assms(2), of T "outer_message plain os (body @ tag)" m] os(2) by blast
    moreover have "out' = message_wire T (outer_message plain os (body @ tag)) @ drop m out"
      by (rule encode_buffer [OF os(2) assms(2)])
    ultimately show thesis using ok(1) en os(1) by (intro that [of os "body @ tag"]) (simp_all add: sealed_def)
  next
    case (err e b)
    then show thesis using assms(3) by (simp add: seal_message_staged_def)
  qed
qed

lemma direct_inv:
  assumes "aead_lengths A" "length out \<le> usize_max"
    and "seal_direct A T plain key n aad piv ctx kid out = (Inr m, out')"
  obtains os ct where "sealed A T plain key n aad piv ctx kid os ct"
    "m = length (message_wire T (outer_message plain os ct))" "m \<le> length out"
    "take m out' = message_wire T (outer_message plain os ct)"
proof -
  let ?pw = "plaintext_wire plain"
  obtain prefix out1 where o: "encode_outer T (msg_ty plain) (outer_code (msg_code plain) (msg_options plain)) (msg_id plain)
        (msg_token plain) (msg_options plain) piv ctx kid [] out = (Inr prefix, out1)"
    using assms(3) by (auto simp: seal_direct_def split: prod.splits sum.splits)
  from o obtain os where os: "outer_options (outer_code (msg_code plain) (msg_options plain)) (msg_options plain) piv ctx kid = Inr os"
      "encode T (outer_message plain os []) out = (Inr prefix, out1)"
    by (auto simp: encode_outer_options encode_message_outer split: sum.splits prod.splits)
  let ?w = "message_wire T (outer_message plain os [])"
  have w: "message_encodable T (outer_message plain os [])" "prefix = length ?w" "prefix \<le> length out"
    using encode_success_iff [OF assms(2), of T "outer_message plain os []" prefix] os(2) by blast+
  have out1: "out1 = ?w @ drop prefix out" by (rule encode_buffer [OF os(2) assms(2)])
  have l1: "length out1 = length out" using out1 w by simp
  have lt: "prefix < length out" using assms(3) o l1 by (auto simp: seal_direct_def split: if_splits)
  define out2 where "out2 = out1[prefix := 0xff]"
  define cap where "cap = min (length out2 - prefix - 1) INNER"
  define c0 where "c0 = take cap (drop (prefix + 1) out2)"
  have l2: "length out2 = length out" by (simp add: out2_def l1)
  have c0: "length c0 = cap" by (simp add: c0_def cap_def)
  have t2: "take (prefix + 1) out2 = ?w @ [0xff]"
    using lt w(2) l1 by (simp add: out2_def take_Suc_conv_app_nth out1)
  have bl: "length c0 \<le> usize_max" using INNER_usize by (simp add: c0 cap_def)
  have u: "(case encode_plaintext plain c0 of
      (Inl e, ciphertext) \<Rightarrow> (Inl e, blit out2 (prefix + 1) ciphertext)
    | (Inr pt_len, ciphertext) \<Rightarrow>
        (case seal_in_place A key n aad pt_len ciphertext of
           (Inl e, ciphertext) \<Rightarrow> (Inl e, blit out2 (prefix + 1) ciphertext)
         | (Inr ct_len, ciphertext) \<Rightarrow> (Inr (prefix + 1 + ct_len), blit out2 (prefix + 1) ciphertext))) = (Inr m, out')"
    using assms(3) lt l1 unfolding out2_def cap_def c0_def by (simp add: seal_direct_def o Let_def)
  from bl show thesis
  proof (cases rule: encode_plaintext_cases [where plain = plain])
    case ok
    obtain k c where k: "seal_in_place A key n aad (length ?pw) (blit c0 0 ?pw) = (Inr k, c)"
      and m: "m = prefix + 1 + k" "out' = blit out2 (prefix + 1) c"
      using u unfolding ok(3) by (auto split: prod.splits sum.splits)
    have f: "length ?pw + TAG_LEN \<le> usize_max" using ok(2) c0 by (simp add: cap_def INNER_def TAG_LEN_def usize_max_def)
    from k obtain body tag where en: "ad_encrypt A key n aad ?pw = Some (body, tag)" "c = (body @ tag) @ drop k c0"
      "k = length ?pw + TAG_LEN" "k \<le> cap"
      using seal_in_place_iff [OF assms(1) f ok(2), of key n aad k c] c0 by auto
    have ct: "length (body @ tag) = k" using assms(1) en by (auto simp: aead_lengths_def)
    have ne: "body @ tag \<noteq> []" using ct en(3) plaintext_wire_pos [of plain] by auto
    let ?m = "outer_message plain os (body @ tag)"
    have mw: "message_wire T ?m = ?w @ 0xff # body @ tag" by (rule message_wire_payload [OF ne])
    have lc: "length c = cap" using en ct c0 by simp
    have fit: "prefix + 1 + cap \<le> length out" using lt l2 by (simp add: cap_def)
    have "take m out' = take (prefix + 1) out2 @ take k c"
      using m fit l2 lc en(4) lt by (simp add: blit_def)
    also have "\<dots> = message_wire T ?m" using t2 en(2) ct mw by simp
    finally have t: "take m out' = message_wire T ?m" .
    have "sealed A T plain key n aad piv ctx kid os (body @ tag)"
      using ok(1) os(1) en w(1) by (auto simp: sealed_def cap_def encodable_payload [of T plain os "body @ tag"])
    moreover have "m = length (message_wire T ?m)" using m mw ct w(2) by simp
    moreover have "m \<le> length out" using m fit en(4) by simp
    ultimately show thesis using t that by blast
  next
    case (err e b)
    then show thesis using u by simp
  qed
qed

lemma encode_outer_length:
  assumes "length out \<le> usize_max"
  shows "length (snd (encode_outer T ty code mid token inner piv ctx kid ct out)) = length out"
  using assms encode_keeps_length
  by (auto simp: encode_outer_options encode_message_def encode_eq_token_iter split: sum.splits prod.splits)
    (metis snd_conv)+

lemma encode_plaintext_length:
  assumes "length out \<le> usize_max"
  shows "length (snd (encode_plaintext plain out)) = length out"
proof (cases "out = []")
  case False
  let ?b = "out[0 := msg_code plain]"
  obtain r b where w: "write_options ?b 1 0 (inner_opts plain) = (r, b)" by fastforce
  have "length b = length out" using write_options_length [of ?b 1 0 "inner_opts plain"] w assms by simp
  moreover have "1 \<le> length ?b" using False by (cases out) simp_all
  then have "i \<le> length b" if "r = Inr i" for i
    using write_options_inv [of ?b 1 0 "inner_opts plain" i b] w that assms calculation by simp
  ultimately show ?thesis
    using False w by (auto simp: encode_plaintext_write write_payload_length split: sum.splits prod.splits)
      (metis snd_conv write_payload_length)+
qed (simp add: encode_plaintext_write)

lemma seal_in_place_length:
  assumes "aead_lengths A" "pt_len \<le> length buf"
  shows "length (snd (seal_in_place A key n aad pt_len buf)) = length buf"
  using assms by (auto simp: seal_in_place_def aead_lengths_def split: option.splits)

lemma direct_length:
  assumes "aead_lengths A" "length out \<le> usize_max"
  shows "length (snd (seal_direct A T plain key n aad piv ctx kid out)) = length out"
proof -
  let ?e = "encode_outer T (msg_ty plain) (outer_code (msg_code plain) (msg_options plain)) (msg_id plain)
        (msg_token plain) (msg_options plain) piv ctx kid [] out"
  obtain r out1 where o: "?e = (r, out1)" by fastforce
  have l1: "length out1 = length out"
    using encode_outer_length [OF assms(2), of T "msg_ty plain" "outer_code (msg_code plain) (msg_options plain)"
      "msg_id plain" "msg_token plain" "msg_options plain" piv ctx kid "[]"] o by simp
  show ?thesis
  proof (cases "\<exists>p. r = Inr p \<and> p < length out")
    case True
    then obtain p where p: "r = Inr p" "p < length out" by blast
    let ?c = "take (min (length out - p - 1) INNER) (drop (p + 1) (out1[p := 0xff]))"
    have cu: "length ?c \<le> usize_max" using INNER_usize by simp
    obtain r2 c2 where c2: "encode_plaintext plain ?c = (r2, c2)" by fastforce
    have lc2: "length c2 = length ?c" using encode_plaintext_length [OF cu, of plain] c2 by simp
    show ?thesis
    proof (cases r2)
      case (Inl e)
      then show ?thesis using o p l1 c2 lc2 by (simp add: seal_direct_def Let_def)
    next
      case (Inr k)
      then have "k \<le> length c2" using encode_plaintext_inv [OF _ cu, of plain k c2] c2 lc2 by simp
      then have "length (snd (seal_in_place A key n aad k c2)) = length ?c"
        using seal_in_place_length [OF assms(1)] lc2 by simp
      then show ?thesis using o p l1 c2 Inr
        by (auto simp: seal_direct_def Let_def split: prod.splits sum.splits)
    qed
  next
    case False
    then show ?thesis using o l1 by (auto simp: seal_direct_def split: sum.splits)
  qed
qed

lemma staged_fst:
  assumes "length b = length b'" "length b \<le> usize_max"
  shows "fst (seal_message_staged A T plain key n aad piv ctx kid b) =
         fst (seal_message_staged A T plain key n aad piv ctx kid b')"
proof -
  have "fst (encode_message T ty code mid token os ct b) = fst (encode_message T ty code mid token os ct b')"
    for ty code mid os ct token
    by (simp add: encode_message_def case_prod_beta encode_fst [OF assms, of T])
  then show ?thesis
    by (auto simp: seal_message_staged_def encode_outer_options split: prod.splits sum.splits)
qed

lemma seal_message_inv:
  assumes "aead_lengths A" "length out \<le> usize_max"
    and "seal_message A T plain key n aad piv ctx kid out = (Inr m, out')"
  obtains os ct where "sealed A T plain key n aad piv ctx kid os ct"
    "m = length (message_wire T (outer_message plain os ct))" "m \<le> length out"
    "take m out' = message_wire T (outer_message plain os ct)"
proof -
  obtain r b where d: "seal_direct A T plain key n aad piv ctx kid out = (r, b)" by fastforce
  have lb: "length b = length out" using direct_length [OF assms(1,2), of T plain key n aad piv ctx kid] d by simp
  show thesis
  proof (cases r)
    case (Inl e)
    then have s: "seal_message_staged A T plain key n aad piv ctx kid b = (Inr m, out')"
      using assms(3) d by (simp add: seal_message_def)
    show thesis
      by (rule staged_inv [OF assms(1) _ s]) (use lb assms(2) that in auto)
  next
    case (Inr k)
    then have s: "seal_direct A T plain key n aad piv ctx kid out = (Inr m, out')"
      using assms(3) d by (simp add: seal_message_def)
    show thesis by (rule direct_inv [OF assms(1,2) s]) (use that in blast)
  qed
qed

text \<open>
  C18: the direct path seals exactly as the staged one. Whatever the output capacity, \<open>seal_message\<close>
  returns the result of \<open>seal_message_staged\<close> on the same output, errors and their precedence
  included, and on success the two write the same datagram. The cipher is arbitrary, with
  ciphertext and tag of the lengths its types fix.
\<close>

theorem seal_message_staged_equivalent:
  assumes "aead_lengths A" "length out \<le> usize_max"
  shows "fst (seal_message A T plain key n aad piv ctx kid out) =
           fst (seal_message_staged A T plain key n aad piv ctx kid out) \<and>
         (\<forall>m. fst (seal_message A T plain key n aad piv ctx kid out) = Inr m \<longrightarrow>
            m \<le> length out \<and>
            take m (snd (seal_message A T plain key n aad piv ctx kid out)) =
            take m (snd (seal_message_staged A T plain key n aad piv ctx kid out)))"
proof -
  let ?s = "seal_message A T plain key n aad piv ctx kid out"
  let ?g = "seal_message_staged A T plain key n aad piv ctx kid out"
  obtain r b where d: "seal_direct A T plain key n aad piv ctx kid out = (r, b)" by fastforce
  have lb: "length b = length out" using direct_length [OF assms, of T plain key n aad piv ctx kid] d by simp
  have staged: "?g = (Inr m, take m (snd ?s) @ drop m out) \<and> m \<le> length out" if m: "fst ?s = Inr m" for m
  proof -
    have s: "?s = (Inr m, snd ?s)" using m by (metis prod.collapse)
    obtain os ct where w: "sealed A T plain key n aad piv ctx kid os ct"
      "m = length (message_wire T (outer_message plain os ct))" "m \<le> length out"
      "take m (snd ?s) = message_wire T (outer_message plain os ct)"
      by (rule seal_message_inv [OF assms s])
    from w(2,3) have "length (message_wire T (outer_message plain os ct)) \<le> length out" by simp
    from staged_ok [OF assms w(1) this] show ?thesis using w(2-4) by simp
  qed
  have "fst ?s = fst ?g"
  proof (cases "fst ?s")
    case (Inl e)
    then have "?s = seal_message_staged A T plain key n aad piv ctx kid b"
      by (cases r) (simp_all add: seal_message_def d)
    then show ?thesis using staged_fst [of b out] lb assms(2) by simp
  next
    case (Inr m)
    with staged [OF Inr] show ?thesis by (metis fst_conv)
  qed
  moreover have "m \<le> length out \<and> take m (snd ?s) = take m (snd ?g)" if m: "fst ?s = Inr m" for m
  proof -
    have g: "snd ?g = take m (snd ?s) @ drop m out" "m \<le> length out" using staged [OF m] by (metis snd_conv, blast)
    have s: "?s = (Inr m, snd ?s)" using m by (metis prod.collapse)
    have "length (take m (snd ?s)) = m" by (rule seal_message_inv [OF assms s]) simp
    with g show ?thesis by simp
  qed
  ultimately show ?thesis by blast
qed

theorem seal_message_staged_equivalent_witness:
  "let A = \<lparr>ad_encrypt = (\<lambda>key n aad pt. Some (map (\<lambda>b. b XOR 0x5a) pt, replicate 8 0)), ad_decrypt = (\<lambda>key n aad ct tag. (True, ct))\<rparr>;
       plain = message_with_payload (message_con CODE_GET 0x1234 (token_from_checked [0xAA])) [7] in
   \<exists>m. fst (seal_message A compact_owned plain [] [] [] None None (Some [1]) (replicate 20 0)) = Inr m \<and>
       fst (seal_message_staged A compact_owned plain [] [] [] None None (Some [1]) (replicate 20 0)) = Inr m"
proof -
  define A where "A = \<lparr>ad_encrypt = (\<lambda>(key :: bytes) (n :: bytes) (aad :: bytes) pt. Some (map (\<lambda>b. b XOR 0x5a) pt, replicate 8 (0 :: u8))),
    ad_decrypt = (\<lambda>(key :: bytes) (n :: bytes) (aad :: bytes) ct (tag :: bytes). (True, ct :: bytes))\<rparr>"
  let ?p = "message_with_payload (message_con CODE_GET 0x1234 (token_from_checked [0xAA])) [7]"
  have l: "aead_lengths A" by (simp add: aead_lengths_def A_def TAG_LEN_def)
  have u: "length (replicate 20 (0 :: u8)) \<le> usize_max" by (simp add: usize_max_def)
  have "is_ok (fst (seal_message A compact_owned ?p [] [] [] None None (Some [1]) (replicate 20 0)))"
    unfolding A_def by code_simp
  then obtain m where "fst (seal_message A compact_owned ?p [] [] [] None None (Some [1]) (replicate 20 0)) = Inr m"
    by (auto simp: is_ok_def split: sum.splits)
  with seal_message_staged_equivalent [OF l u, of compact_owned ?p "[]" "[]" "[]" None None "Some [1]"]
  show ?thesis by (simp add: A_def)
qed

end
