(* ===== verification/Osc_Exchange.thy ===== *)
theory Osc_Exchange
  imports Osc_Seal Msg_Value
begin

text \<open>
  Protected exchanges between two endpoints: a request that one security context protects is opened
  by its peer with every field intact, the response comes back the same way, and a request datagram
  is opened at most once.
\<close>

section \<open>Collecting options\<close>

lemma push_all_append: "push_all N (xs @ ys) b = push_all N ys (push_all N xs b)"
  by (simp add: push_all_def)

lemma push_all_len: "ob_len b + length xs \<le> N \<Longrightarrow> ob_len (push_all N xs b) = ob_len b + length xs"
  by (induction xs arbitrary: b) (auto simp: push_all_def builder_push_def)

lemma push_where_Inr_iff:
  assumes "ob_len b \<le> OPT_SLOTS"
  shows "push_where P b xs = Inr b' \<longleftrightarrow>
    ob_len b + length (filter (\<lambda>x. P (opt_number x)) xs) \<le> OPT_SLOTS \<and>
    b' = push_all OPT_SLOTS (filter (\<lambda>x. P (opt_number x)) xs) b"
  using assms
proof (induction xs arbitrary: b)
  case (Cons x xs)
  show ?case
  proof (cases "P (opt_number x) \<and> ob_len b < OPT_SLOTS")
    case True
    obtain b1 where "builder_push OPT_SLOTS b x = (Inr (), b1)" "ob_len b1 = ob_len b + 1"
      using True by (simp add: builder_push_def)
    with True Cons.IH [of b1] show ?thesis by (simp add: push_all_def)
  next
    case False
    then show ?thesis using Cons by (auto simp: push_all_def builder_push_def)
  qed
qed (auto simp: push_all_def)

lemma builder_new_len [simp]: "ob_len (builder_new N) = 0"
  by (simp add: builder_new_def)

lemma builder_push_all: "snd (builder_push N b x) = push_all N [x] b"
  by (simp add: push_all_def)

text \<open>The options an outer datagram carries, in the order of their numbers.\<close>

definition outer_list :: "code \<Rightarrow> opt list \<Rightarrow> bytes \<Rightarrow> opt list" where
  "outer_list code inner oscore =
     sort_key opt_number
       (filter (\<lambda>x. \<not> is_oscore_number (opt_number x) \<and> encode_as_outer (opt_number x)) inner @
        [opt_oscore oscore] @
        (if code_is_response code \<and> list_ex opt_is_observe inner then [opt_new OPT_MAX_AGE []] else []))"

lemma oscore_wire_fits:
  "header_ok piv ctx kid \<Longrightarrow>
   length (oscore_wire piv ctx kid) \<le> 1 + MAX_PIV_LEN + 1 + MAX_ID_CONTEXT_LEN + MAX_ID_LEN"
  by (auto simp: header_ok_def length_oscore_wire piv_consts piv_wf_def length_piv_as_bytes opt_len_def
      split: option.splits)

lemma outer_options_list:
  assumes "header_ok piv ctx kid" "outer_options code inner piv ctx kid = Inr os"
  shows "os = outer_list code inner (oscore_wire piv ctx kid)"
proof -
  let ?w = "oscore_wire piv ctx kid"
  let ?f = "filter (\<lambda>x. \<not> is_oscore_number (opt_number x) \<and> encode_as_outer (opt_number x)) inner"
  let ?m = "if code_is_response code \<and> list_ex opt_is_observe inner then [opt_new OPT_MAX_AGE []] else []"
  let ?b = "push_all OPT_SLOTS ?f (builder_new OPT_SLOTS)"
  let ?b1 = "push_all OPT_SLOTS [opt_oscore ?w] ?b"
  have e: "encode_oscore_option (replicate (1 + MAX_PIV_LEN + 1 + MAX_ID_CONTEXT_LEN + MAX_ID_LEN) 0) piv ctx kid =
      (Inr (length ?w), blit (replicate (1 + MAX_PIV_LEN + 1 + MAX_ID_CONTEXT_LEN + MAX_ID_LEN) 0) 0 ?w)"
    using encode_oscore_option_wire [OF assms(1)] oscore_wire_fits [OF assms(1)] by simp
  have t: "take (length ?w) (blit (replicate (1 + MAX_PIV_LEN + 1 + MAX_ID_CONTEXT_LEN + MAX_ID_LEN) 0) 0 ?w) = ?w"
    using oscore_wire_fits [OF assms(1)] by simp
  obtain b b1 b2 where p: "push_where (\<lambda>n. \<not> (is_oscore_number n \<or> \<not> encode_as_outer n)) (builder_new OPT_SLOTS) inner = Inr b"
    and b1: "builder_push OPT_SLOTS b (opt_oscore ?w) = (Inr (), b1)"
    and b2: "(if code_is_response code \<and> list_ex opt_is_observe inner
              then (case builder_push OPT_SLOTS b1 (opt_new OPT_MAX_AGE []) of
                      (r, b) \<Rightarrow> map_ok (\<lambda>_. b) (map_err (\<lambda>_. OE_Encode EE_OptionsFull) r))
              else Inr b1) = Inr b2"
    and os: "os = builder_as_slice b2"
    using assms(2) unfolding outer_options_def e prod.case sum.case t
    by (auto simp: map_ok_Inr_iff and_then_Inr_iff case_prod_beta prod_eq_iff)
  have l: "length ?f \<le> OPT_SLOTS" "b = ?b"
    using p by (simp_all add: push_where_Inr_iff)
  have lb: "ob_len ?b = length ?f" using push_all_len [of "builder_new OPT_SLOTS" ?f OPT_SLOTS] l by simp
  have l1: "length ?f < OPT_SLOTS" "b1 = ?b1"
    using b1 l(2) lb builder_push_all [of OPT_SLOTS b "opt_oscore ?w"] by (auto simp: builder_push_def split: if_splits)
  have lb1: "ob_len ?b1 = length ?f + 1" using push_all_len [of ?b "[opt_oscore ?w]" OPT_SLOTS] lb l1 by simp
  have l2: "length ?f + 1 + length ?m \<le> OPT_SLOTS \<and> b2 = push_all OPT_SLOTS ?m ?b1"
  proof (cases "code_is_response code \<and> list_ex opt_is_observe inner")
    case True
    then have "builder_push OPT_SLOTS b1 (opt_new OPT_MAX_AGE []) = (Inr (), b2)"
      using b2 by (auto simp: map_ok_Inr_iff split: prod.splits)
    then show ?thesis using True l1 lb1 builder_push_all [of OPT_SLOTS b1 "opt_new OPT_MAX_AGE []"]
      by (auto simp: builder_push_def split: if_splits)
  next
    case False
    then have "?m = []" "b2 = b1" using b2 by (simp_all only: if_False sum.inject)
    then show ?thesis using l1 by (simp add: push_all_def)
  qed
  have "b2 = push_all OPT_SLOTS (?f @ [opt_oscore ?w] @ ?m) (builder_new OPT_SLOTS)"
    using l2 by (simp only: push_all_append)
  with os push_all_sort [of "?f @ [opt_oscore ?w] @ ?m" OPT_SLOTS] l2 show ?thesis
    by (simp add: outer_list_def)
qed

section \<open>Putting a message back together\<close>

definition outer_only :: "u16 \<Rightarrow> bool" where
  "outer_only n \<longleftrightarrow> \<not> is_oscore_number n \<and> classify n = ClassOuter"

lemma decode_options_payload_wire:
  assumes "ascending 0 xs" "values_ok xs" "length (wire_options 0 xs @ wire_payload pl) \<le> usize_max"
  shows "decode_options_payload (wire_options 0 xs @ wire_payload pl) = Inr (options_new (wire_options 0 xs), pl)"
  using split_loop_wire [of 0 xs 0 "[]" pl] assms
  by (simp add: decode_options_payload_def split_options_and_payload_def)

lemma stitch_inner_ok:
  assumes "ascending 0 inner" "values_ok inner" "length (wire_options 0 inner @ wire_payload pl) \<le> usize_max"
    and "length (filter (\<lambda>x. outer_only (opt_number x)) outer @ inner) \<le> OPT_SLOTS" "length out \<le> usize_max"
    and msg_def: "msg = \<lparr>msg_ty = ty, msg_code = code, msg_id = mid, msg_token = token,
      msg_options = sort_key opt_number (filter (\<lambda>x. outer_only (opt_number x)) outer @ inner), msg_payload = pl\<rparr>"
    and "message_encodable T msg" "length (message_wire T msg) \<le> min (length out) INNER"
  shows "stitch_inner T ty mid token outer (code # wire_options 0 inner @ wire_payload pl) out =
    (Inr (length (message_wire T msg)), message_wire T msg @ drop (length (message_wire T msg)) out)"
proof -
  let ?f = "filter (\<lambda>x. outer_only (opt_number x)) outer"
  let ?b = "push_all OPT_SLOTS ?f (builder_new OPT_SLOTS)"
  have P: "(\<lambda>n. \<not> (is_oscore_number n \<or> classify n \<noteq> ClassOuter)) = outer_only"
    by (auto simp: outer_only_def)
  have lb: "ob_len ?b = length ?f" using push_all_len [of "builder_new OPT_SLOTS" ?f OPT_SLOTS] assms(4) by simp
  have p1: "push_where outer_only (builder_new OPT_SLOTS) outer = Inr ?b"
    using push_where_Inr_iff [of "builder_new OPT_SLOTS" outer_only outer ?b] assms(4) by simp
  have p2: "push_where (\<lambda>_. True) ?b inner = Inr (push_all OPT_SLOTS (?f @ inner) (builder_new OPT_SLOTS))"
    using push_where_Inr_iff [of ?b "\<lambda>_. True" inner] assms(4) lb by (simp add: push_all_append)
  have ol: "options_list (options_new (wire_options 0 inner)) = inner"
    using assms(1-3) by (intro options_new_wire) simp_all
  let ?lim = "min (length out) INNER" and ?w = "message_wire T msg"
  have tl: "length (take ?lim out) \<le> usize_max" using assms(5) by simp
  have "\<exists>b. encode T msg (take ?lim out) = (Inr (length ?w), b)"
    using encode_success_iff [OF tl, of T msg "length ?w"] assms(7,8) by simp
  then obtain b where e: "encode T msg (take ?lim out) = (Inr (length ?w), b)" by blast
  have b: "b = ?w @ drop (length ?w) (take ?lim out)" by (rule encode_buffer [OF e tl])
  have "b @ drop ?lim out = ?w @ drop (length ?w) out"
  proof -
    have "drop (length ?w) (take ?lim out @ drop ?lim out) = drop (length ?w) (take ?lim out) @ drop ?lim out"
      using assms(8) by (subst drop_append) simp
    then show ?thesis by (simp add: b)
  qed
  moreover have "encode_message T ty code mid token (builder_as_slice (push_all OPT_SLOTS (?f @ inner) (builder_new OPT_SLOTS)))
      pl (take ?lim out) = (Inr (length ?w), b)"
    using e push_all_sort [OF assms(4)]
    by (simp add: encode_message_def message_with_payload_def message_with_options_def message_with_token_def
        message_new_def msg_def)
  ultimately show ?thesis unfolding stitch_inner_def P
    by (simp add: decode_options_payload_wire [OF assms(1-3)] p1 p2 ol Let_def)
qed

text \<open>Splitting a sorted list by a property of the number and sorting again gives the list back.\<close>

lemma sort_key_partition:
  assumes "sorted (map opt_number xs)"
  shows "sort_key opt_number (filter (\<lambda>x. P (opt_number x)) xs @ filter (\<lambda>x. \<not> P (opt_number x)) xs) = xs"
proof (rule properties_for_sort_key)
  show "mset xs = mset (filter (\<lambda>x. P (opt_number x)) xs @ filter (\<lambda>x. \<not> P (opt_number x)) xs)"
    by (simp add: multiset_partition)
  show "filter (\<lambda>x. opt_number k = opt_number x) xs =
      filter (\<lambda>x. opt_number k = opt_number x) (filter (\<lambda>x. P (opt_number x)) xs @ filter (\<lambda>x. \<not> P (opt_number x)) xs)" for k
  proof (cases "P (opt_number k)")
    case True
    then have "filter (\<lambda>x. \<not> P (opt_number x) \<and> opt_number k = opt_number x) xs = []"
      "filter (\<lambda>x. P (opt_number x) \<and> opt_number k = opt_number x) xs = filter (\<lambda>x. opt_number k = opt_number x) xs"
      by (auto simp: filter_empty_conv intro: filter_cong)
    then show ?thesis by simp
  next
    case False
    then have "filter (\<lambda>x. P (opt_number x) \<and> opt_number k = opt_number x) xs = []"
      "filter (\<lambda>x. \<not> P (opt_number x) \<and> opt_number k = opt_number x) xs = filter (\<lambda>x. opt_number k = opt_number x) xs"
      by (auto simp: filter_empty_conv intro: filter_cong)
    then show ?thesis by simp
  qed
qed (use assms in simp)

lemma ascending_iff_sorted: "ascending 0 xs \<longleftrightarrow> sorted (map opt_number xs)"
  by (simp add: ascending_sorted sorted_map word_le_nat_alt)

section \<open>Opening what was sealed\<close>

text \<open>What the documentation of the cipher promises: decryption inverts encryption.\<close>

definition aead_correct :: "aead \<Rightarrow> bool" where
  "aead_correct A \<longleftrightarrow>
     aead_lengths A \<and>
     (\<forall>key n aad pt ct tag. ad_encrypt A key n aad pt = Some (ct, tag) \<longrightarrow> ad_decrypt A key n aad ct tag = (True, pt))"

lemma aead_open_ok:
  assumes "aead_correct A" "ad_encrypt A key n aad pt = Some (body, tag)" "length pt \<le> length out"
  shows "aead_open A key n aad (body @ tag) out = (Inr (length pt), blit out 0 pt)"
proof -
  have "length body = length pt" "length tag = TAG_LEN" "ad_decrypt A key n aad body tag = (True, pt)"
    using assms(1,2) by (auto simp: aead_correct_def aead_lengths_def)
  with assms(3) show ?thesis by (simp add: aead_open_def Let_def)
qed

text \<open>The view that decoding the datagram of a message gives.\<close>

definition view_of :: "'t owned_token \<Rightarrow> 't message \<Rightarrow> 't parsed_message" where
  "view_of T msg =
     \<lparr>pm_header = header_new 1 (msg_ty msg) (of_nat (wire_nibble (length (ot_as_bytes T (msg_token msg))))) (msg_code msg) (msg_id msg),
      pm_token = msg_token msg, pm_options = wire_options 0 (msg_options msg), pm_payload = msg_payload msg\<rparr>"

lemma decode_message_wire:
  assumes "message_encodable T msg" "length (message_wire T msg) \<le> usize_max"
    and "ot_try_from_bytes T (ot_as_bytes T (msg_token msg)) = Inr (msg_token msg)"
  shows "decode_with_token T (message_wire T msg) = Inr (view_of T msg)"
  using assms by (simp add: decode_with_token_def message_wire_def message_encodable_def view_of_def decode_parts_wire)

lemma view_of_iter:
  assumes "message_encodable T msg" "length (message_wire T msg) \<le> usize_max"
  shows "pm_iter (view_of T msg) = msg_options msg"
  using assms by (auto simp: pm_iter_def view_of_def message_encodable_def message_ok_def message_wire_def wire_message_def
      intro: options_new_wire)

text \<open>The message a peer sees: Observe of a notification is empty inside, everything else is kept.\<close>

definition opened :: "'t message \<Rightarrow> 't message" where
  "opened plain = plain\<lparr>msg_options := map (inner_opt (code_is_response (msg_code plain))) (msg_options plain)\<rparr>"

definition openable :: "'t owned_token \<Rightarrow> 't message \<Rightarrow> nat \<Rightarrow> bool" where
  "openable T plain room \<longleftrightarrow>
     sorted (map opt_number (msg_options plain)) \<and> (\<forall>x\<in>set (msg_options plain). \<not> is_oscore_number (opt_number x)) \<and>
     length (msg_options plain) \<le> OPT_SLOTS \<and> length (message_wire T (opened plain)) \<le> min room INNER \<and>
     ot_try_from_bytes T (ot_as_bytes T (msg_token plain)) = Inr (msg_token plain)"

lemma classify_cases: "classify n = ClassOuter \<or> in_plaintext (classify n)"
  by (cases "classify n") (simp_all add: in_plaintext_def)

lemma outer_only_encoded: "outer_only n \<Longrightarrow> encode_as_outer n \<and> \<not> is_oscore_number n"
  by (simp add: outer_only_def encode_as_outer_def)

lemma outer_only_consts: "\<not> outer_only 6" "\<not> outer_only OPT_OSCORE" "\<not> outer_only OPT_MAX_AGE"
  by (simp_all add: outer_only_def classify_def is_oscore_number_def option_consts)

lemma outer_list_outer_only:
  assumes "sorted (map opt_number inner)"
  shows "filter (\<lambda>x. outer_only (opt_number x)) (outer_list code inner oscore) =
         filter (\<lambda>x. outer_only (opt_number x)) inner"
proof -
  let ?Q = "\<lambda>x. \<not> is_oscore_number (opt_number x) \<and> encode_as_outer (opt_number x)"
  have f: "filter (\<lambda>x. outer_only (opt_number x)) (filter ?Q inner) = filter (\<lambda>x. outer_only (opt_number x)) inner"
    unfolding filter_filter by (rule filter_cong) (use outer_only_encoded in auto)
  have o: "filter (\<lambda>x. outer_only (opt_number x)) [opt_oscore oscore] = []"
    "filter (\<lambda>x. outer_only (opt_number x)) (if b then [opt_new OPT_MAX_AGE []] else []) = []" for b
    by (simp_all add: opt_oscore_def opt_opaque_def opt_new_def outer_only_consts)
  have "sorted (map opt_number (filter (\<lambda>x. outer_only (opt_number x)) inner))"
    using assms by (rule sorted_filter)
  then show ?thesis
    unfolding outer_list_def filter_sort filter_append f o by (simp add: sort_key_id_if_sorted)
qed

lemma outer_list_oscore:
  "find (\<lambda>x. opt_number x = OPT_OSCORE) (outer_list code inner oscore) = Some (opt_oscore oscore)"
proof -
  have o: "OPT_OSCORE \<noteq> OPT_MAX_AGE" by (simp add: option_consts)
  have "filter (\<lambda>x. opt_number x = OPT_OSCORE) inner' = []"
    if "inner' = filter (\<lambda>x. \<not> is_oscore_number (opt_number x) \<and> encode_as_outer (opt_number x)) inner" for inner'
    by (auto simp: that filter_empty_conv is_oscore_number_def option_consts)
  then have "filter (\<lambda>x. opt_number x = OPT_OSCORE) (outer_list code inner oscore) = [opt_oscore oscore]"
    using o unfolding outer_list_def filter_sort filter_append by (simp add: opt_oscore_def opt_opaque_def opt_new_def)
  moreover have "filter P xs = [y] \<Longrightarrow> find P xs = Some y" for P and xs :: "opt list" and y
    by (induction xs) (auto split: if_splits)
  ultimately show ?thesis by blast
qed

lemma opened_simps [simp]:
  "msg_ty (opened plain) = msg_ty plain" "msg_code (opened plain) = msg_code plain"
  "msg_id (opened plain) = msg_id plain" "msg_token (opened plain) = msg_token plain"
  "msg_payload (opened plain) = msg_payload plain"
  "msg_options (opened plain) = map (inner_opt (code_is_response (msg_code plain))) (msg_options plain)"
  by (simp_all add: opened_def)

lemma inner_opt_outer: "outer_only (opt_number x) \<Longrightarrow> inner_opt b x = x"
  by (auto simp: inner_opt_def outer_only_consts)

lemma opened_partition:
  assumes "openable T plain room"
  shows "sort_key opt_number (filter (\<lambda>x. outer_only (opt_number x)) (msg_options plain) @ inner_opts plain) =
         msg_options (opened plain)"
    "filter (\<lambda>x. outer_only (opt_number x)) (msg_options plain) =
       filter (\<lambda>x. outer_only (opt_number x)) (msg_options (opened plain))"
    "inner_opts plain = filter (\<lambda>x. \<not> outer_only (opt_number x)) (msg_options (opened plain))"
proof -
  let ?f = "inner_opt (code_is_response (msg_code plain))" and ?xs = "msg_options plain"
  have "keeps_inner x \<longleftrightarrow> \<not> outer_only (opt_number x)" if "x \<in> set ?xs" for x
    using assms that classify_cases [of "opt_number x"]
    by (auto simp: openable_def keeps_inner_def outer_only_def in_plaintext_def)
  then have "filter keeps_inner ?xs = filter (\<lambda>x. \<not> outer_only (opt_number x)) ?xs" by (rule filter_cong [OF refl])
  then show i: "inner_opts plain = filter (\<lambda>x. \<not> outer_only (opt_number x)) (msg_options (opened plain))"
    by (simp add: inner_opts_def filter_map comp_def)
  show o: "filter (\<lambda>x. outer_only (opt_number x)) ?xs = filter (\<lambda>x. outer_only (opt_number x)) (msg_options (opened plain))"
    by (simp add: filter_map comp_def) (rule map_idI [symmetric], simp add: inner_opt_outer)
  have "map opt_number (msg_options (opened plain)) = map opt_number ?xs" by simp
  then have "sorted (map opt_number (msg_options (opened plain)))" using assms by (simp add: openable_def comp_def)
  from sort_key_partition [OF this, of outer_only]
  show "sort_key opt_number (filter (\<lambda>x. outer_only (opt_number x)) ?xs @ inner_opts plain) = msg_options (opened plain)"
    unfolding o i .
qed

lemma opened_encodable:
  assumes "openable T plain room" "inner_ok plain" "\<not> code_is_empty (msg_code plain)"
    and "message_encodable T (outer_message plain (outer_list code (msg_options plain) oscore) ct)"
  shows "message_encodable T (opened plain)"
proof -
  let ?xs = "msg_options plain" and ?os = "outer_list code (msg_options plain) oscore"
  have s: "sorted (map opt_number ?xs)" using assms(1) by (simp add: openable_def)
  have "map opt_number (msg_options (opened plain)) = map opt_number ?xs" by simp
  then have "ascending 0 (msg_options (opened plain))" using s by (simp only: ascending_iff_sorted)
  moreover have "length (opt_value y) \<le> max_extended" if "y \<in> set (msg_options (opened plain))" for y
  proof (cases "outer_only (opt_number y)")
    case True
    with that have "y \<in> set (filter (\<lambda>x. outer_only (opt_number x)) ?xs)"
      unfolding opened_partition(2) [OF assms(1)] by simp
    then have "y \<in> set ?os" unfolding outer_list_outer_only [OF s, of code oscore, symmetric] by simp
    then show ?thesis using assms(4) by (auto simp: message_encodable_def message_ok_def values_ok_def list_all_iff)
  next
    case False
    with that have "y \<in> set (inner_opts plain)" unfolding opened_partition(3) [OF assms(1)] by simp
    then show ?thesis using assms(2) by (auto simp: inner_ok_def values_ok_def list_all_iff)
  qed
  ultimately show ?thesis using assms(3,4)
    by (auto simp: message_encodable_def message_ok_def values_ok_def list_all_iff)
qed

lemma openable_slots:
  assumes "openable T plain room"
  shows "length (filter (\<lambda>x. outer_only (opt_number x)) (msg_options plain) @ inner_opts plain) \<le> OPT_SLOTS"
  using assms sum_length_filter_compl [of "\<lambda>x. outer_only (opt_number x)" "msg_options (opened plain)"]
  unfolding opened_partition(2) [OF assms] opened_partition(3) [OF assms] by (simp add: openable_def)

lemma stitch_opened:
  assumes "openable T plain (length out)" "inner_ok plain" "\<not> code_is_empty (msg_code plain)" "length out \<le> usize_max"
    and "length (plaintext_wire plain) \<le> INNER"
    and "message_encodable T (outer_message plain (outer_list code (msg_options plain) oscore) ct)"
  defines "w \<equiv> message_wire T (opened plain)"
  shows "stitch_inner T (msg_ty plain) (msg_id plain) (msg_token plain) (outer_list code (msg_options plain) oscore)
           (plaintext_wire plain) out = (Inr (length w), w @ drop (length w) out)"
    and "decode_owned T w = Inr (view_of T (opened plain))" "pm_iter (view_of T (opened plain)) = msg_options (opened plain)"
proof -
  have s: "sorted (map opt_number (msg_options plain))" using assms(1) by (simp add: openable_def)
  have e: "message_encodable T (opened plain)" by (rule opened_encodable [OF assms(1-3,6)])
  have l: "length (message_wire T (opened plain)) \<le> min (length out) INNER" using assms(1) by (simp add: openable_def)
  have u: "length (message_wire T (opened plain)) \<le> usize_max" using l assms(4) by simp
  have eq: "opened plain = \<lparr>msg_ty = msg_ty plain, msg_code = msg_code plain, msg_id = msg_id plain, msg_token = msg_token plain,
      msg_options = sort_key opt_number (filter (\<lambda>x. outer_only (opt_number x)) (outer_list code (msg_options plain) oscore) @ inner_opts plain),
      msg_payload = msg_payload plain\<rparr>"
    unfolding outer_list_outer_only [OF s] opened_partition(1) [OF assms(1)] by (simp add: opened_def)
  show "stitch_inner T (msg_ty plain) (msg_id plain) (msg_token plain) (outer_list code (msg_options plain) oscore)
           (plaintext_wire plain) out = (Inr (length w), w @ drop (length w) out)"
    unfolding plaintext_wire_def w_def
  proof (rule stitch_inner_ok [OF _ _ _ _ assms(4) eq e l])
    show "ascending 0 (inner_opts plain)" "values_ok (inner_opts plain)" using assms(2) by (simp_all add: inner_ok_def)
    show "length (wire_options 0 (inner_opts plain) @ wire_payload (msg_payload plain)) \<le> usize_max"
      using assms(5) INNER_usize by (simp add: plaintext_wire_def)
    show "length (filter (\<lambda>x. outer_only (opt_number x)) (outer_list code (msg_options plain) oscore) @ inner_opts plain) \<le> OPT_SLOTS"
      unfolding outer_list_outer_only [OF s] by (rule openable_slots [OF assms(1)])
  qed
  have "ot_try_from_bytes T (ot_as_bytes T (msg_token (opened plain))) = Inr (msg_token (opened plain))"
    using assms(1) by (simp add: openable_def)
  from decode_message_wire [OF e u this] show "decode_owned T w = Inr (view_of T (opened plain))"
    by (simp add: decode_owned_def w_def)
  show "pm_iter (view_of T (opened plain)) = msg_options (opened plain)" by (rule view_of_iter [OF e u])
qed

section \<open>Peers\<close>

text \<open>Context \<open>s\<close> receives what \<open>c\<close> sends.\<close>

definition receives_from :: "'t security_context \<Rightarrow> 't security_context \<Rightarrow> bool" where
  "receives_from s c \<longleftrightarrow>
     sc_recipient_id s = sc_sender_id c \<and> sc_recipient_key s = sc_sender_key c \<and> sc_common_iv s = sc_common_iv c \<and>
     sc_id_context s = sc_id_context c \<and> sc_id_context_len s = sc_id_context_len c"

definition ids_wf :: "'t security_context \<Rightarrow> bool" where
  "ids_wf c \<longleftrightarrow>
     context_wf c \<and> osc_id_new (osc_id_as_bytes (sc_sender_id c)) = Inr (sc_sender_id c) \<and>
     length (sc_id_context c) = MAX_ID_CONTEXT_LEN \<and> unat (sc_id_context_len c) \<le> MAX_ID_CONTEXT_LEN"

text \<open>The two ends that derive from the same secret, each with its own identifier as the sender.\<close>

lemma osc_id_wf: "osc_id_new bs = Inr i \<Longrightarrow> osc_id_as_bytes i = bs \<and> osc_id_new (osc_id_as_bytes i) = Inr i \<and> length (oid_bytes i) = MAX_ID_LEN"
  by (auto simp: osc_id_new_def osc_id_as_bytes_def MAX_ID_LEN_def unat_of_nat_u8 split: if_splits)

lemma derive_receives:
  assumes "context_derive hkdf N p = Inr c"
    and "context_derive hkdf M (p\<lparr>dp_sender_id := dp_recipient_id p, dp_recipient_id := dp_sender_id p\<rparr>) = Inr s"
  shows "receives_from s c \<and> receives_from c s"
  using assms by (auto simp: context_derive_def receives_from_def and_then_Inr_iff Let_def split: if_splits)

lemma aad_new_ok:
  assumes "length kid \<le> 7" "length piv \<le> 5"
  shows "aad_new kid piv = Inr (aad_wire kid piv [])"
proof -
  have l: "length (aad_payload kid piv []) \<le> 48" "length (aad_wire kid piv []) \<le> 32"
    using assms by (simp_all add: aad_wire_def length_cbor_bstr length_aad_payload ENC0_PREFIX_def)
  have "length (replicate 32 (0 :: u8)) \<le> usize_max" by (simp add: usize_max_def)
  from encode_aad_short [OF l(1) this] l(2) show ?thesis by (simp add: aad_new_def)
qed

lemma take_sender_piv_Inr:
  assumes "take_sender_piv c = (Inr piv, c')"
  shows "piv_wf piv \<and> piv_seq piv = sc_sender_seq c \<and> c' = c\<lparr>sc_sender_seq := sc_sender_seq c + 1\<rparr>"
  using assms piv_from_seq_Ok [of "sc_sender_seq c"]
  by (auto simp: take_sender_piv_def less_SEQ_END not_le split: if_splits sum.splits)

lemma remember_keeps:
  "remember_live c t r b = (x, c') \<Longrightarrow> \<exists>l. c' = c\<lparr>sc_live := l\<rparr>"
  "remember_download c t r = (x, c') \<Longrightarrow> \<exists>l. c' = c\<lparr>sc_live := l\<rparr>"
proof -
  have k: "\<exists>l. c' = c\<lparr>sc_live := l\<rparr>" if "remember_live c t r b = (x, c')" for b x c'
  proof -
    from that have "c' = c \<or> (\<exists>l. c' = c\<lparr>sc_live := l\<rparr>)"
      by (auto simp: remember_live_def Let_def split: option.splits)
    moreover have "c = c\<lparr>sc_live := sc_live c\<rparr>" by simp
    ultimately show ?thesis by metis
  qed
  show "remember_live c t r b = (x, c') \<Longrightarrow> \<exists>l. c' = c\<lparr>sc_live := l\<rparr>" by (rule k)
  show "remember_download c t r = (x, c') \<Longrightarrow> \<exists>l. c' = c\<lparr>sc_live := l\<rparr>"
    by (auto simp: remember_download_def remember_def split: option.splits dest: k)
qed

abbreviation sender_kid :: "'t security_context \<Rightarrow> bytes" where
  "sender_kid c \<equiv> osc_id_as_bytes (sc_sender_id c)"

definition kid_context_of :: "'t security_context \<Rightarrow> bytes option" where
  "kid_context_of c = (if sc_id_context_bytes c = [] then None else Some (sc_id_context_bytes c))"

lemma ids_wf_header:
  assumes "ids_wf c" "piv_wf piv"
  shows "header_ok (Some piv) (kid_context_of c) (Some (sender_kid c))" "length (sender_kid c) \<le> 7"
    "length (piv_as_bytes piv) \<le> 5"
proof -
  show k: "length (sender_kid c) \<le> 7"
    using assms(1) by (auto simp: ids_wf_def context_wf_def osc_id_as_bytes_def piv_consts)
  show "length (piv_as_bytes piv) \<le> 5" using assms(2) by (simp add: length_piv_as_bytes piv_wf_def piv_consts)
  show "header_ok (Some piv) (kid_context_of c) (Some (sender_kid c))"
    using k assms by (simp add: header_ok_def kid_context_of_def opt_len_def ids_wf_def sc_id_context_bytes_def piv_consts)
qed

lemma protect_request_inv:
  assumes "aead_lengths A" "ids_wf c" "length out \<le> usize_max"
    and "protect_request A T c plain out = (Inr n, c', out')"
  obtains piv os ct where "piv_wf piv" "piv_seq piv = sc_sender_seq c" "code_is_request (msg_code plain)"
    "sealed A T plain (sc_sender_key c) (request_nonce c piv) (aad_wire (sender_kid c) (piv_as_bytes piv) [])
       (Some piv) (kid_context_of c) (Some (sender_kid c)) os ct"
    "take n out' = message_wire T (outer_message plain os ct)"
    "n = length (message_wire T (outer_message plain os ct))" "n \<le> length out"
proof -
  have req: "code_is_request (msg_code plain)" using assms(4) by (simp add: protect_request_def split: if_splits)
  obtain piv c1 where t: "take_sender_piv c = (Inr piv, c1)"
    using assms(4) req by (auto simp: protect_request_def split: prod.splits sum.splits)
  note p = take_sender_piv_Inr [OF t]
  note h = ids_wf_header [OF assms(2) conjunct1 [OF p]]
  have c1: "sc_sender_id c1 = sc_sender_id c" "sc_sender_key c1 = sc_sender_key c" "request_nonce c1 piv = request_nonce c piv"
    "sc_id_context_bytes c1 = sc_id_context_bytes c"
    using p by (simp_all add: request_nonce_def sc_id_context_bytes_def)
  obtain len b where s: "seal_message A T plain (sc_sender_key c) (request_nonce c piv) (aad_wire (sender_kid c) (piv_as_bytes piv) [])
      (Some piv) (kid_context_of c) (Some (sender_kid c)) out = (Inr len, b)" and b: "n = len" "out' = b"
    using assms(4) req t aad_new_ok [OF h(2,3)]
    by (auto simp: protect_request_def Let_def sc_request_ref_def c1 kid_context_of_def split: prod.splits sum.splits if_splits)
  obtain os ct where w: "sealed A T plain (sc_sender_key c) (request_nonce c piv) (aad_wire (sender_kid c) (piv_as_bytes piv) [])
      (Some piv) (kid_context_of c) (Some (sender_kid c)) os ct"
    "len = length (message_wire T (outer_message plain os ct))" "len \<le> length out"
    "take len b = message_wire T (outer_message plain os ct)"
    by (rule seal_message_inv [OF assms(1,3) s])
  show thesis by (rule that [of piv os ct]) (use p req b w in simp_all)
qed

lemma parse_protected_outer:
  assumes "header_ok piv ctx kid" "ct \<noteq> []"
    and "os = outer_list code inner (oscore_wire piv ctx kid)" "message_encodable T msg"
    and "length (message_wire T msg) \<le> usize_max" "msg_options msg = os" "msg_payload msg = ct"
  shows "parse_protected (view_of T msg) = Inr \<lparr>oh_piv = piv, oh_kid_context = ctx, oh_kid = kid\<rparr>"
proof -
  have it: "pm_iter (view_of T msg) = os" using view_of_iter [OF assms(4,5)] assms(6) by simp
  then have "ascending 0 (pm_iter (view_of T msg))" using assms(4,6) by (simp add: message_encodable_def message_ok_def)
  then have "get_option (view_of T msg) OPT_OSCORE = Some (opt_oscore (oscore_wire piv ctx kid))"
    using outer_list_oscore by (simp add: get_option_find it assms(3))
  then have "pm_oscore (view_of T msg) = Some (oscore_wire piv ctx kid)"
    by (simp add: pm_oscore_def opt_oscore_def opt_opaque_def opt_new_def)
  then show ?thesis using assms(2,7) oscore_parse_wire [OF assms(1)] by (simp add: parse_protected_def view_of_def)
qed

lemma request_not_empty: "code_is_request c \<Longrightarrow> \<not> code_is_empty c"
  by (simp add: code_is_request_def code_is_empty_def)


lemma sealed_parts:
  assumes "aead_correct A" "sealed A T plain key n aad piv ctx kid os ct" "header_ok piv ctx kid"
  defines "code \<equiv> outer_code (msg_code plain) (msg_options plain)"
  shows "os = outer_list code (msg_options plain) (oscore_wire piv ctx kid)" "ct \<noteq> []" "TAG_LEN \<le> length ct"
    "message_encodable T (outer_message plain os ct)" "inner_ok plain" "length (plaintext_wire plain) \<le> INNER"
    "aead_open A key n aad ct (replicate INNER 0) = (Inr (length (plaintext_wire plain)), blit (replicate INNER 0) 0 (plaintext_wire plain))"
proof -
  obtain body tag where en: "ad_encrypt A key n aad (plaintext_wire plain) = Some (body, tag)" "ct = body @ tag"
    using assms(2) by (auto simp: sealed_def)
  have l: "length body = length (plaintext_wire plain)" "length tag = TAG_LEN"
    using assms(1) en(1) by (auto simp: aead_correct_def aead_lengths_def)
  show "ct \<noteq> []" "TAG_LEN \<le> length ct" using l en(2) plaintext_wire_pos [of plain] by auto
  show "os = outer_list code (msg_options plain) (oscore_wire piv ctx kid)"
    using assms(2) outer_options_list [OF assms(3), of code "msg_options plain" os] by (simp add: sealed_def code_def)
  show i: "message_encodable T (outer_message plain os ct)" "inner_ok plain" "length (plaintext_wire plain) \<le> INNER"
    using assms(2) by (simp_all add: sealed_def)
  show "aead_open A key n aad ct (replicate INNER 0) = (Inr (length (plaintext_wire plain)), blit (replicate INNER 0) 0 (plaintext_wire plain))"
    unfolding en(2) using i(3) by (intro aead_open_ok [OF assms(1) en(1)]) simp
qed

lemma view_of_simps:
  "pm_token (view_of T msg) = msg_token msg" "pm_payload (view_of T msg) = msg_payload msg"
  "hdr_ty (pm_header (view_of T msg)) = msg_ty msg" "hdr_id (pm_header (view_of T msg)) = msg_id msg"
  "hdr_code (pm_header (view_of T msg)) = msg_code msg"
  by (simp_all add: view_of_def header_new_def)

lemma case_plaintext: "(case plaintext_wire plain of [] \<Rightarrow> a | code # _ \<Rightarrow> f code) = f (msg_code plain)"
  by (simp add: plaintext_wire_def)

lemma request_opened:
  assumes "aead_correct A" "ids_wf c" "receives_from s c" "length out \<le> usize_max" "length buf \<le> usize_max"
    and "protect_request A T c plain out = (Inr n, c', out')"
    and "replay_fresh s (sc_sender_seq c)" "openable T plain (length buf)"
  shows "\<exists>piv m b. piv_seq piv = sc_sender_seq c \<and> decode_with_token T (take n out') = Inr m \<and>
    unprotect_request A T s m buf =
      (Inr (view_of T (opened plain), \<lparr>rr_kid = sc_sender_id c, rr_piv = piv\<rparr>), replay_accept s (sc_sender_seq c), b) \<and>
    pm_iter (view_of T (opened plain)) = msg_options plain"
proof -
  have al: "aead_lengths A" using assms(1) by (simp add: aead_correct_def)
  obtain piv os ct where p: "piv_wf piv" "piv_seq piv = sc_sender_seq c" "code_is_request (msg_code plain)"
    and sl: "sealed A T plain (sc_sender_key c) (request_nonce c piv) (aad_wire (sender_kid c) (piv_as_bytes piv) [])
       (Some piv) (kid_context_of c) (Some (sender_kid c)) os ct"
    and w: "take n out' = message_wire T (outer_message plain os ct)"
      "n = length (message_wire T (outer_message plain os ct))" "n \<le> length out"
    by (rule protect_request_inv [OF al assms(2,4,6)])
  note h = ids_wf_header [OF assms(2) p(1)]
  note sp = sealed_parts [OF assms(1) sl h(1)]
  let ?m = "outer_message plain os ct"
  have lw: "length (message_wire T ?m) \<le> usize_max" using w(2,3) assms(4) by simp
  have tok: "ot_try_from_bytes T (ot_as_bytes T (msg_token plain)) = Inr (msg_token plain)"
    using assms(8) by (simp add: openable_def)
  have dec: "decode_with_token T (take n out') = Inr (view_of T ?m)"
    unfolding w(1) using sp(4) lw tok by (intro decode_message_wire) simp_all
  have pp: "parse_protected (view_of T ?m) = Inr \<lparr>oh_piv = Some piv, oh_kid_context = kid_context_of c, oh_kid = Some (sender_kid c)\<rparr>"
    by (rule parse_protected_outer [OF h(1) sp(2,1,4) lw]) simp_all
  have it: "pm_iter (view_of T ?m) = os" using view_of_iter [OF sp(4) lw] by simp
  have ne: "\<not> code_is_empty (msg_code plain)" using p(3) by (rule request_not_empty)
  note st = stitch_opened [OF assms(8) sp(5) ne assms(5) sp(6) sp(4) [unfolded sp(1)]]
  have match: "matches_recipient s (Some (sender_kid c)) (kid_context_of c)"
  proof -
    have i: "sc_recipient_id s = sc_sender_id c" "sc_id_context_len s = sc_id_context_len c"
      "sc_id_context_bytes s = sc_id_context_bytes c"
      using assms(3) by (simp_all add: receives_from_def sc_id_context_bytes_def)
    have "sc_id_context_len c = 0" if "sc_id_context_bytes c = []"
      using that assms(2) by (auto simp: sc_id_context_bytes_def ids_wf_def piv_consts unat_eq_0)
    then show ?thesis by (auto simp: matches_recipient_def kid_context_of_def i)
  qed
  have nn: "recipient_nonce s piv = request_nonce c piv" "sc_recipient_key s = sc_sender_key c"
    using assms(3) by (simp_all add: recipient_nonce_def request_nonce_def receives_from_def)
  have tk: "take (length (plaintext_wire plain)) (blit (replicate INNER 0) 0 (plaintext_wire plain)) = plaintext_wire plain"
    using sp(6) by simp
  have rr: "request_ref_from_kid (sender_kid c) piv = Inr \<lparr>rr_kid = sc_sender_id c, rr_piv = piv\<rparr>"
    using assms(2) by (simp add: request_ref_from_kid_def ids_wf_def)
  let ?w = "message_wire T (opened plain)"
  have "unprotect_request_wire A T s (view_of T ?m) buf =
      (Inr (?w, \<lparr>rr_kid = sc_sender_id c, rr_piv = piv\<rparr>), replay_accept s (sc_sender_seq c), ?w @ drop (length ?w) buf)"
    using sp(3,7) p st(1) assms(7) aad_new_ok [OF h(2,3)]
    by (simp add: unprotect_request_wire_def pp match p(2) nn view_of_simps it tk rr Let_def sp(1) [symmetric] case_plaintext
        del: blit_0)
  then have "unprotect_request A T s (view_of T ?m) buf =
      (Inr (view_of T (opened plain), \<lparr>rr_kid = sc_sender_id c, rr_piv = piv\<rparr>), replay_accept s (sc_sender_seq c), ?w @ drop (length ?w) buf)"
    using st(2) by (simp add: unprotect_request_def)
  moreover have "msg_options (opened plain) = msg_options plain"
    using p(3) by (auto simp: code_is_request_def code_is_response_def inner_opt_def intro!: map_idI)
  ultimately show ?thesis using dec p(2) st(3) by metis
qed


text \<open>
  C16: protected requests arrive intact. When \<open>protect_request\<close> succeeds, the datagram decodes, and the
  peer that shares the keys and has not seen the number opens it to a message with the same type,
  identifier, code, token, payload and options in the same order; it binds the response to the
  client's identifier and Partial IV, and the number is no longer fresh afterwards. The hypotheses
  on the message are that its options are in order, at most 16, none of them OSCORE, and that it
  fits the peer's buffer; decryption is assumed to invert encryption.
\<close>

theorem protected_request_roundtrip:
  assumes "aead_correct A" "ids_wf c" "receives_from s c" "length out \<le> usize_max" "length buf \<le> usize_max"
    and "protect_request A compact_owned c plain out = (Inr n, c', out')"
    and "replay_fresh s (sc_sender_seq c)" "openable compact_owned plain (length buf)"
  shows "\<exists>m inner request s' buf'. decode_with_token compact_owned (take n out') = Inr m \<and>
    unprotect_request A compact_owned s m buf = (Inr (inner, request), s', buf') \<and>
    hdr_ty (pm_header inner) = msg_ty plain \<and> hdr_id (pm_header inner) = msg_id plain \<and>
    hdr_code (pm_header inner) = msg_code plain \<and> pm_token inner = msg_token plain \<and>
    pm_iter inner = msg_options plain \<and> pm_payload inner = msg_payload plain \<and>
    rr_kid request = sc_sender_id c \<and> piv_seq (rr_piv request) = sc_sender_seq c \<and>
    \<not> replay_fresh s' (sc_sender_seq c)"
proof -
  obtain piv m b where o: "piv_seq piv = sc_sender_seq c" "decode_with_token compact_owned (take n out') = Inr m"
    "unprotect_request A compact_owned s m buf =
      (Inr (view_of compact_owned (opened plain), \<lparr>rr_kid = sc_sender_id c, rr_piv = piv\<rparr>), replay_accept s (sc_sender_seq c), b)"
    "pm_iter (view_of compact_owned (opened plain)) = msg_options plain"
    using request_opened [OF assms] by blast
  have "sc_replay_left s \<le> sc_sender_seq c" "sc_sender_seq c < SEQ_END"
    using assms(7) by (simp_all add: replay_fresh_iff word_le_nat_alt less_SEQ_END)
  then have "\<not> replay_fresh (replay_accept s (sc_sender_seq c)) (sc_sender_seq c)"
    using replay_accept_fresh [of s "sc_sender_seq c" "sc_sender_seq c"] by simp
  with o show ?thesis by (auto simp: view_of_simps intro!: exI)
qed

definition sample_aead :: aead where
  "sample_aead = \<lparr>ad_encrypt = (\<lambda>key n aad pt. Some (map (\<lambda>b. b XOR 0x5a) pt, take 8 (n @ replicate 8 0))),
     ad_decrypt = (\<lambda>key n aad ct tag. (tag = take 8 (n @ replicate 8 0), map (\<lambda>b. b XOR 0x5a) ct))\<rparr>"

lemma sample_aead_correct: "aead_correct sample_aead"
  by (auto simp: aead_correct_def aead_lengths_def sample_aead_def TAG_LEN_def comp_def xor.assoc)

definition sample_peer :: "bool \<Rightarrow> token security_context" where
  "sample_peer client =
     \<lparr>sc_sender_id = (if client then \<lparr>oid_bytes = [1, 0, 0, 0, 0, 0, 0], oid_len = 1\<rparr> else \<lparr>oid_bytes = [2, 0, 0, 0, 0, 0, 0], oid_len = 1\<rparr>),
      sc_recipient_id = (if client then \<lparr>oid_bytes = [2, 0, 0, 0, 0, 0, 0], oid_len = 1\<rparr> else \<lparr>oid_bytes = [1, 0, 0, 0, 0, 0, 0], oid_len = 1\<rparr>),
      sc_id_context = replicate 16 0, sc_id_context_len = 0,
      sc_sender_key = (if client then replicate 16 1 else replicate 16 2),
      sc_recipient_key = (if client then replicate 16 2 else replicate 16 1),
      sc_common_iv = replicate 13 3, sc_sender_seq = 0, sc_sender_reserved_end = - 1, sc_replay_left = 0,
      sc_replay_bits = 0, sc_live = [None]\<rparr>"

definition sample_request :: "token message" where
  "sample_request = message_with_payload (message_with_options (message_con CODE_PUT 0x1234 (token_from_checked [0xAA]))
     [opt_new OPT_URI_HOST [0x68], opt_new OPT_URI_PATH [0x61]]) [7]"

theorem protected_request_roundtrip_witness:
  "\<exists>n c' out' m inner r s' buf'.
     protect_request sample_aead compact_owned (sample_peer True) sample_request (replicate 40 0) = (Inr n, c', out') \<and>
     decode_with_token compact_owned (take n out') = Inr m \<and>
     unprotect_request sample_aead compact_owned (sample_peer False) m (replicate 40 0) = (Inr (inner, r), s', buf') \<and>
     pm_payload inner = [7] \<and> pm_iter inner = msg_options sample_request"
proof -
  have "is_ok (fst (protect_request sample_aead compact_owned (sample_peer True) sample_request (replicate 40 0)))"
    by code_simp
  then obtain n c' out' where p: "protect_request sample_aead compact_owned (sample_peer True) sample_request (replicate 40 0) = (Inr n, c', out')"
    by (cases "protect_request sample_aead compact_owned (sample_peer True) sample_request (replicate 40 0)")
      (auto simp: is_ok_def split: sum.splits)
  have 1: "ids_wf (sample_peer True)" by code_simp
  have 2: "receives_from (sample_peer False) (sample_peer True)" by (simp add: receives_from_def sample_peer_def)
  have 3: "openable compact_owned sample_request (length (replicate 40 (0 :: u8)))" by code_simp
  have 4: "replay_fresh (sample_peer False) (sc_sender_seq (sample_peer True))"
    by (simp add: replay_fresh_iff sample_peer_def)
  have 5: "length (replicate 40 (0 :: u8)) \<le> usize_max" by (simp add: usize_max_def)
  from protected_request_roundtrip [OF sample_aead_correct 1 2 5 5 p 4 3] obtain m inner r s' buf' where
    "decode_with_token compact_owned (take n out') = Inr m"
    "unprotect_request sample_aead compact_owned (sample_peer False) m (replicate 40 0) = (Inr (inner, r), s', buf')"
    "pm_payload inner = msg_payload sample_request" "pm_iter inner = msg_options sample_request" by blast
  moreover have "msg_payload sample_request = [7]" by (simp add: sample_request_def message_with_payload_def)
  ultimately show ?thesis using p by auto
qed





section \<open>A request is opened once\<close>

definition serve :: "aead \<Rightarrow> 't owned_token \<Rightarrow> bytes \<Rightarrow> 't parsed_message \<Rightarrow> 't security_context \<Rightarrow>
    request_ref option \<times> 't security_context" where
  "serve A T buf m s = (case unprotect_request A T s m buf of (r, s', _) \<Rightarrow> (map_option snd (to_ok r), s'))"

lemma unprotect_request_wire_state:
  assumes "unprotect_request_wire A T s m buf = (r, s', b)"
  obtains (refused) "s' = s" "\<And>x. r \<noteq> Inr x"
  | (counted) piv where "replay_fresh s (piv_seq piv)" "s' = replay_accept s (piv_seq piv)" "\<And>w q. r = Inr (w, q) \<Longrightarrow> rr_piv q = piv"
proof (cases "parse_protected m")
  case (Inl e)
  with assms refused show thesis by (auto simp: unprotect_request_wire_def)
next
  case (Inr h)
  show thesis
  proof (cases "matches_recipient s (oh_kid h) (oh_kid_context h) \<and> (\<exists>piv. oh_piv h = Some piv \<and> replay_fresh s (piv_seq piv)) \<and>
      \<not> length (pm_payload m) < TAG_LEN")
    case False
    with Inr assms refused show thesis
      by (auto simp: unprotect_request_wire_def split: option.splits if_splits)
  next
    case True
    then obtain piv where p: "oh_piv h = Some piv" "replay_fresh s (piv_seq piv)" by blast
    let ?kid = "case oh_kid h of None \<Rightarrow> [] | Some kid \<Rightarrow> kid"
    show thesis
    proof (cases "\<exists>aad. aad_new ?kid (piv_as_bytes piv) = Inr aad \<and>
        is_ok (fst (aead_open A (sc_recipient_key s) (recipient_nonce s piv) aad (pm_payload m) (replicate INNER 0)))")
      case False
      with True Inr p assms refused show thesis
        by (auto simp: unprotect_request_wire_def Let_def split: sum.splits prod.splits)
    next
      case opens: True
      have "rr_piv q = piv" if "r = Inr (w, q)" for w q
        using that opens True Inr p assms
        by (auto simp: unprotect_request_wire_def Let_def request_ref_from_kid_def and_then_Inr_iff map_ok_Inr_iff
            split: sum.splits prod.splits list.splits if_splits)
      moreover have "s' = replay_accept s (piv_seq piv)"
        using opens True Inr p assms
        by (auto simp: unprotect_request_wire_def Let_def split: sum.splits prod.splits list.splits if_splits)
      ultimately show thesis using p(2) counted by blast
    qed
  qed
qed

lemma unprotect_request_state:
  assumes "unprotect_request A T s m buf = (r, s', b)"
  shows "(\<forall>x. replay_fresh s' x \<longrightarrow> replay_fresh s x) \<and>
    (\<forall>inner q. r = Inr (inner, q) \<longrightarrow> replay_fresh s (piv_seq (rr_piv q)) \<and> \<not> replay_fresh s' (piv_seq (rr_piv q)))"
proof -
  obtain r1 where w: "unprotect_request_wire A T s m buf = (r1, s', b)"
    and r: "r = and_then r1 (\<lambda>(wire, request). map_ok (\<lambda>inner. (inner, request)) (decode_owned T wire))"
    using assms by (auto simp: unprotect_request_def split: prod.splits)
  from w show ?thesis
  proof (cases rule: unprotect_request_wire_state)
    case refused
    then show ?thesis using r by (auto simp: and_then_Inr_iff)
  next
    case (counted piv)
    then have "sc_replay_left s \<le> piv_seq piv" "piv_seq piv < SEQ_END"
      by (simp_all add: replay_fresh_iff word_le_nat_alt less_SEQ_END)
    from replay_accept_fresh [OF this] counted r show ?thesis
      by (auto simp: and_then_Inr_iff map_ok_Inr_iff)
  qed
qed

text \<open>
  C19: a request is opened once. Whatever datagrams arrive at a context, in any order and with any
  repetition, valid or not, the requests it opens carry pairwise different numbers, so no protected
  request reaches the application twice; this holds for every cipher.
\<close>

theorem requests_opened_once:
  "distinct (map (\<lambda>q. piv_seq (rr_piv q)) (List.map_filter (\<lambda>r. r) (fst (run_steps (serve A T buf) ms s))))"
proof -
  have "distinct (map (\<lambda>q. piv_seq (rr_piv q)) (List.map_filter (\<lambda>r. r) (fst (run_steps (serve A T buf) ms s)))) \<and>
    (\<forall>q\<in>set (List.map_filter (\<lambda>r. r) (fst (run_steps (serve A T buf) ms s))). replay_fresh s (piv_seq (rr_piv q)))"
  proof (induction ms arbitrary: s)
    case (Cons m ms)
    obtain r s1 b where u: "unprotect_request A T s m buf = (r, s1, b)" by (metis prod_cases3)
    note st = unprotect_request_state [OF u]
    show ?case
    proof (cases r)
      case (Inl e)
      then show ?thesis using Cons.IH [of s1] st u
        by (auto simp: serve_def List.map_filter_simps split: prod.splits)
    next
      case (Inr iq)
      obtain i q where iq: "iq = (i, q)" by fastforce
      then show ?thesis using Cons.IH [of s1] st u Inr
        by (auto simp: serve_def List.map_filter_simps split: prod.splits)
    qed
  qed (simp add: List.map_filter_simps)
  then show ?thesis by blast
qed

section \<open>Contexts of two ends\<close>

definition hkdf_lengths :: "(bytes \<Rightarrow> bytes \<Rightarrow> bytes \<Rightarrow> nat \<Rightarrow> bytes option) \<Rightarrow> bool" where
  "hkdf_lengths hkdf \<longleftrightarrow> (\<forall>salt ikm info len out. hkdf salt ikm info len = Some out \<longrightarrow> length out = len)"

lemma hkdf_expand_length:
  assumes "hkdf_expand hkdf ms salt i ctx label len = Inr out" "hkdf_lengths hkdf"
  shows "length out = len"
proof -
  obtain r info where e: "encode_info (replicate 48 0) i ctx label (of_nat len) = (r, info)" by fastforce
  with assms show ?thesis
    by (cases r) (auto simp: hkdf_expand_def hkdf_lengths_def split: if_splits)
qed

lemma context_derive_wf:
  assumes "context_derive hkdf N p = Inr c" "hkdf_lengths hkdf"
  shows "ids_wf c \<and> sc_sender_seq c = 0 \<and> sc_replay_left c = 0 \<and> sc_replay_bits c = 0 \<and> sc_sender_id c \<noteq> sc_recipient_id c"
proof -
  obtain i j k l iv where i: "osc_id_new (dp_sender_id p) = Inr i" and j: "osc_id_new (dp_recipient_id p) = Inr j"
    and ne: "osc_id_as_bytes i \<noteq> osc_id_as_bytes j" and len: "length (dp_id_context p) \<le> MAX_ID_CONTEXT_LEN"
    and iv: "hkdf_expand hkdf (dp_master_secret p) (dp_master_salt p) []
      (if dp_id_context p = [] then None else Some (dp_id_context p)) label_iv NONCE_LEN = Inr iv"
    and c: "c = \<lparr>sc_sender_id = i, sc_recipient_id = j, sc_id_context = blit (replicate MAX_ID_CONTEXT_LEN 0) 0 (dp_id_context p),
      sc_id_context_len = of_nat (length (dp_id_context p)), sc_sender_key = k, sc_recipient_key = l, sc_common_iv = iv,
      sc_sender_seq = 0, sc_sender_reserved_end = - 1, sc_replay_left = 0, sc_replay_bits = 0, sc_live = replicate N None\<rparr>"
    using assms(1) by (auto simp: context_derive_def and_then_Inr_iff Let_def not_less split: if_splits)
  have "length iv = NONCE_LEN" by (rule hkdf_expand_length [OF iv assms(2)])
  moreover have "unat (of_nat (length (dp_id_context p)) :: u8) \<le> MAX_ID_CONTEXT_LEN"
    using len by (simp add: piv_consts unat_of_nat_u8)
  ultimately show ?thesis using osc_id_wf [OF i] osc_id_wf [OF j] ne len
    by (auto simp: c ids_wf_def context_wf_def)
qed

text \<open>
  C20: derived contexts pair up. When one end derives a context from a shared secret and two
  identifiers, the other end, with the identifiers exchanged, derives one too; both satisfy the type
  invariants of a context, each receives exactly what the other sends, and each finds the other's
  first number fresh. The key derivation function is assumed to return as many bytes as asked.
\<close>

theorem derived_contexts_pair:
  fixes c :: "'t security_context"
  assumes "context_derive hkdf N p = Inr c" "hkdf_lengths hkdf"
  shows "\<exists>s. context_derive hkdf M (p\<lparr>dp_sender_id := dp_recipient_id p, dp_recipient_id := dp_sender_id p\<rparr>) = Inr s \<and>
    ids_wf c \<and> ids_wf s \<and> receives_from s c \<and> receives_from c s \<and>
    replay_fresh s (sc_sender_seq c) \<and> replay_fresh c (sc_sender_seq s) \<and> sc_sender_id c \<noteq> sc_sender_id s"
proof -
  obtain s :: "'t security_context" where s: "context_derive hkdf M (p\<lparr>dp_sender_id := dp_recipient_id p, dp_recipient_id := dp_sender_id p\<rparr>) = Inr s"
    using assms(1) by (auto simp: context_derive_def and_then_Inr_iff Let_def split: if_splits)
  note w = context_derive_wf [OF assms] context_derive_wf [OF s assms(2)]
  note r = derive_receives [OF assms(1) s]
  from w r have "replay_fresh s (sc_sender_seq c)" "replay_fresh c (sc_sender_seq s)" by (simp_all add: replay_fresh_iff)
  moreover have "sc_sender_id c \<noteq> sc_sender_id s" using w(1) r by (simp add: receives_from_def)
  ultimately show ?thesis using s w r by blast
qed

theorem derived_contexts_pair_witness:
  "\<exists>c s :: nat security_context.
     context_derive (\<lambda>salt ikm info len. Some (replicate len 0)) 1 \<lparr>dp_master_secret = [1], dp_master_salt = [], dp_sender_id = [1],
       dp_recipient_id = [2], dp_id_context = []\<rparr> = Inr c \<and> receives_from s c"
proof -
  let ?h = "\<lambda>salt ikm info len. Some (replicate len (0 :: u8))"
  let ?p = "\<lparr>dp_master_secret = [1], dp_master_salt = [], dp_sender_id = [1], dp_recipient_id = [2], dp_id_context = []\<rparr>"
  have "is_ok (context_derive ?h 1 ?p :: oscore_error + nat security_context)" by code_simp
  then obtain c where c: "(context_derive ?h 1 ?p :: oscore_error + nat security_context) = Inr c"
    by (auto simp: is_ok_def split: sum.splits)
  have "hkdf_lengths ?h" by (simp add: hkdf_lengths_def)
  from derived_contexts_pair [OF c this, of 1] c show ?thesis by blast
qed

end
