(* ===== verification/Spec2Isabelle.thy ===== *)
theory Spec2Isabelle
  imports Msg_Missing Store_QBlock Store_Backoff Store_Notify Osc_Exchange
begin

text \<open>
  Verification of coaptic, a CoAP stack in Rust that runs without an allocator (sources under
  src/src/). The program has three layers that this development follows:

  \<^item> the message codec (message/): a datagram is parsed into a borrowed view and encoded into a
    caller buffer; typed option values sit on top;
  \<^item> the storage engine (storage/): fixed pools and tables of slots addressed by a slot number;
  \<^item> OSCORE (oscore/) and the application driver (app/), which combine the two.

  Conventions. A Rust slice is a list, a caller buffer is passed in and the written buffer is
  returned; \<open>usize\<close> is a natural number bounded by \<open>usize_max\<close> (checked and saturating
  operations are written out); the fixed-width integers are words; a \<open>Result\<close> is a sum whose left
  part is the error and a \<open>Option\<close> is an option. The only assumption on inputs is the slice
  invariant \<open>length buf \<le> usize_max\<close>. No loop uses fuel: each is a total recursive function
  with a termination proof. HKDF and AES-CCM are parameters; where a theorem needs what their
  documentation promises (lengths, decryption inverts encryption) it is a named hypothesis.

  Theories, in the order of the sources:

  \<^item> \<open>Coap_Prelude\<close>: machine types, big-endian bytes, bounded reads and writes, results.
  \<^item> \<open>Msg_Core\<close> (message/mod.rs, extended.rs, id.rs): types, codes, header, tokens and the
    \<open>OwnedToken\<close> trait as a dictionary; the locale \<open>owned_token_laws\<close> is its contract and is
    interpreted for the 8-byte and the extended token; message identifiers.
  \<^item> \<open>Msg_Option\<close> (message/option.rs): option numbers, the delta/length reader, the iterator.
  \<^item> \<open>Msg_Codec\<close> (message/decode.rs, encode.rs): decoding, encoding, layouts.
  \<^item> \<open>Msg_Wire\<close>, \<open>Msg_Roundtrip\<close>: the wire grammar of RFC 7252 and RFC 8974 as a specification
    (\<open>wire_message\<close>); the encoder writes exactly it and the decoder accepts exactly its language;
    both round trips; agreement of the token-generic decoder; layouts rebind.
  \<^item> \<open>Msg_Value\<close> (message/value.rs, precondition.rs): uint and Block values, UTF-8, typed option
    access with the early-stopping lookup shown equal to a full scan; preconditions.
  \<^item> \<open>Msg_Fields\<close> (hop.rs, no_response.rs, echo.rs, builder.rs): single-option types; the option
    builder is a stable sort.
  \<^item> \<open>Msg_Missing\<close> (missing_blocks.rs): the CBOR sequence of missing blocks, its round trip, and
    the input on which the encoder reports a truncated integer as written.
  \<^item> \<open>Store_Occupancy\<close> (storage/slot.rs, endpoint.rs, occupancy.rs): slot numbers, endpoints and
    the slot allocator.
  \<^item> \<open>Store_Tables\<close> (storage/exchange.rs, table.rs): the slot-indexed table over the allocator; the
    locale \<open>keyed_store\<close> states that it behaves as a finite map, and is interpreted for the
    exchange and the dedup table; eviction and the stored-response search.
  \<^item> \<open>Osc_Header\<close> (oscore/header.rs, aead.rs): Partial IVs, the OSCORE option, option classes and
    the nonce, with the round trip of the option and injectivity of the nonce.
  \<^item> \<open>Osc_Cbor\<close> (oscore/cbor.rs): the CBOR writers; equal additional data means equal request.
  \<^item> \<open>Osc_Context\<close> (oscore/context.rs): the security context as a record; sequence numbers are
    issued once, the replay window accepts a number once and checkpoints only move forward.
  \<^item> \<open>Coap_Sim\<close>, \<open>Osc_Sender\<close>: sequences of calls. The locale \<open>simulation\<close> is the contract between
    a component and its specification; the live requests of a context are interpreted as a bounded
    map. Reservations survive a restart and notifications are accepted in order.
  \<^item> \<open>Osc_Protect\<close> (oscore/protect.rs, aead.rs): sealing and opening messages, with AES-CCM as a
    parameter. \<open>Osc_Seal\<close> shows that the direct path of \<open>seal_message\<close> agrees with the staged one
    for every output capacity; \<open>Osc_Exchange\<close> shows that requests and responses arrive intact at
    the peer, that a request is opened once and that the contexts of two ends pair up.
  \<^item> \<open>Store_Block\<close> (storage/block.rs): the sidecar of a block-wise transfer, classic, BERT and
    Q-Block, with the retained request identity and the controls of notifications and uploads.
  \<^item> \<open>Store_Body\<close> (storage/pool.rs): the pool of complete bodies over the slot allocator.
    \<open>Store_Transfer\<close> runs a sending pool against a receiving pool and shows that a classic transfer
    ends with exactly the body, whatever smaller sizes are negotiated on the way. \<open>Store_QBlock\<close>
    does the same for Q-Block: blocks sent and repeated in any order assemble exactly the body,
    as an interpretation of \<open>simulation\<close> against the set of the blocks received.
  \<^item> \<open>Store_Observe\<close> (storage/table.rs): observe interests and their table, a \<open>keyed_store\<close>.
    \<open>Store_Notify\<close> shows what every sequence of operations keeps of a row, and composes the
    sequence numbers of the server with the freshness test of the client (app/client.rs).
  \<^item> \<open>Store_Pending\<close> (storage/pending.rs, pool.rs), \<open>Store_Memory\<close> (storage/memory.rs): timers,
    the datagram pool and the operations on pending confirmable messages. \<open>Store_Retransmit\<close> shows
    for every reachable storage that one message at a time waits for a peer and that polling
    serves each due message once; \<open>Store_Backoff\<close> shows the exponential backoff of each message and
    that replacing an outstanding notification is atomic.

  Not modelled: \<open>Display\<close>, \<open>Debug\<close> and \<open>Default\<close> implementations, conversions to the
  standard library's socket types, the concise problem details and link format documents, URI
  views, the heap-allocated backend (the same operations over vectors), the engine with its input
  and output loop, the replacement of a block-wise notification body, the application driver apart
  from the client's observation state, provisioning (EDHOC) and the host tools: the last three are
  bound to sockets, clocks, async executors and external cryptography.
\<close>

end
